(* ===== verification/CPrelude.thy ===== *)
theory CPrelude
  imports Main "HOL-Library.Word" "HOL-Library.Char_ord"
begin

section \<open>Prelude: faults, results and machine integers of the C programs\<close>

text \<open>
  Every theory of the development builds on the types of this one.  A C function that can end
  the process or run into undefined behaviour returns a value of type \<open>'a res\<close>:
  \<open>Inr x\<close> is a normal return, \<open>Inl (Exit n)\<close> a call of \<open>exit(n)\<close>, \<open>Inl Abort\<close> a call of \<open>abort()\<close> or a C++ exception nobody catches, and
  \<open>Inl (Ub k)\<close> an operation the C standard leaves undefined (a null pointer, an uninitialised variable, an access outside
  an array, a division by zero, a signed overflow).  Undefined behaviour is an outcome the theorems
  speak about; no definition silently gives it a value.
\<close>

subsection \<open>Faults and results\<close>

datatype ub = Null_Deref | Out_Of_Bounds | Use_After_Free | Div_By_Zero | Signed_Overflow | Uninitialised | Bad_Conversion

datatype fault = Exit int | Abort | Ub ub

type_synonym 'a res = "fault + 'a"

definition bindr :: "'a res \<Rightarrow> ('a \<Rightarrow> 'b res) \<Rightarrow> 'b res" where
  "bindr r f = (case r of Inl e \<Rightarrow> Inl e | Inr x \<Rightarrow> f x)"

named_theorems res_simps "rewriting of results"

lemma bindr_Inl [simp, res_simps]: "bindr (Inl e) f = Inl e"
  by (simp add: bindr_def)

lemma bindr_Inr [simp, res_simps]: "bindr (Inr x) f = f x"
  by (simp add: bindr_def)

lemma bindr_eq_Inr_iff [res_simps]: "bindr r f = Inr y \<longleftrightarrow> (\<exists>x. r = Inr x \<and> f x = Inr y)"
  by (cases r) auto

lemma bindr_eq_Inl_iff [res_simps]:
  "bindr r f = Inl e \<longleftrightarrow> r = Inl e \<or> (\<exists>x. r = Inr x \<and> f x = Inl e)"
  by (cases r) auto

lemma bindr_cong [fundef_cong]:
  "r = r' \<Longrightarrow> (\<And>x. r' = Inr x \<Longrightarrow> f x = g x) \<Longrightarrow> bindr r f = bindr r' g"
  by (cases r') auto

lemma bindr_split:
  "P (bindr r f) \<longleftrightarrow> (\<forall>e. r = Inl e \<longrightarrow> P (Inl e)) \<and> (\<forall>x. r = Inr x \<longrightarrow> P (f x))"
  by (cases r) auto

definition returns :: "'a res \<Rightarrow> bool" where
  "returns r \<longleftrightarrow> (\<exists>x. r = Inr x)"

lemma returns_simps [simp]: "returns (Inr x)" "\<not> returns (Inl e)"
  by (simp_all add: returns_def)

subsection \<open>C integers\<close>

text \<open>
  The programs are built for a 64-bit Linux: \<open>int\<close> has 32 bits, \<open>size_t\<close> and
  \<open>ssize_t\<close> have 64, \<open>unsigned short\<close> has 16.  Unsigned arithmetic is
  arithmetic on words, signed arithmetic is arithmetic on \<^typ>\<open>int\<close> with overflow a fault.
\<close>

type_synonym size_t = "64 word"
type_synonym ushort = "16 word"

definition INT_MAX :: int where "INT_MAX = 2147483647"
definition INT_MIN :: int where "INT_MIN = - 2147483648"

definition int_ok :: "int \<Rightarrow> bool" where
  "int_ok i \<longleftrightarrow> INT_MIN \<le> i \<and> i \<le> INT_MAX"

definition int_inc :: "int \<Rightarrow> int res" where
  "int_inc i = (if i = INT_MAX then Inl (Ub Signed_Overflow) else Inr (i + 1))"

definition int_dec :: "int \<Rightarrow> int res" where
  "int_dec i = (if i = INT_MIN then Inl (Ub Signed_Overflow) else Inr (i - 1))"

text \<open>The remainder of C truncates towards zero.\<close>

definition int_rem :: "int \<Rightarrow> int \<Rightarrow> int res" where
  "int_rem a b = (if b = 0 then Inl (Ub Div_By_Zero) else Inr (sgn a * (abs a mod abs b)))"

lemma int_rem_nat: "0 < n \<Longrightarrow> int_rem (int k) (int n) = Inr (int (k mod n))"
  by (cases "k = 0") (simp_all add: int_rem_def zmod_int sgn_if)

definition EXIT_SUCCESS :: int where "EXIT_SUCCESS = 0"
definition EXIT_FAILURE :: int where "EXIT_FAILURE = 1"

text \<open>The value \<open>(size_t) i\<close> of a signed integer: negative values wrap.\<close>

definition size_of_int :: "int \<Rightarrow> size_t" where
  "size_of_int i = word_of_int i"

lemma size_of_int_neg1: "size_of_int (-1) = - 1"
  by (simp add: size_of_int_def)

lemma unat_size_of_nat: "n < 2 ^ 64 \<Longrightarrow> unat (size_of_int (int n)) = n"
  by (simp add: size_of_int_def unat_of_nat take_bit_nat_eq_self_iff)

subsection \<open>Lists\<close>

lemma take_add_drop: "take m xs @ take n (drop m xs) = take (m + n) xs"
  by (simp add: take_add)

lemma take_length_le [simp]: "length xs \<le> n \<Longrightarrow> take n (xs @ ys) = xs @ take (n - length xs) ys"
  by simp

lemma take_min_drop [simp]: "take (min (length xs - k) n) (drop k xs) = take n (drop k xs)"
  by (cases "length xs - k \<le> n") (simp_all add: min_def)

lemma replicate_append_Cons: "replicate n x @ x # xs = replicate (Suc n) x @ xs"
  by (simp add: replicate_app_Cons_same)

subsection \<open>Sums over threads\<close>

text \<open>The sum over all threads when one of them changes.\<close>

lemma sum_change:
  fixes F F' :: "nat \<Rightarrow> 'a :: comm_monoid_add"
  assumes "i < W" "\<And>j. j < W \<Longrightarrow> j \<noteq> i \<Longrightarrow> F' j = F j"
  shows "(\<Sum>j<W. F' j) + F i = (\<Sum>j<W. F j) + F' i"
proof -
  have "(\<Sum>j\<in>{..<W} - {i}. F' j) = (\<Sum>j\<in>{..<W} - {i}. F j)" using assms(2) by (intro sum.cong) auto
  then show ?thesis using assms(1) by (simp add: sum.remove [of "{..<W}" i] add.commute add.left_commute)
qed

lemma sum_upd:
  fixes f :: "'w \<Rightarrow> 'a :: comm_monoid_add" and i :: nat
  assumes "i < W"
  shows "(\<Sum>j<W. f ((pc(i := v)) j)) + f (pc i) = (\<Sum>j<W. f (pc j)) + f v"
  using sum_change [OF assms, of "\<lambda>j. f ((pc(i := v)) j)" "\<lambda>j. f (pc j)"] by simp

lemma sum_upd_same:
  fixes f :: "'w \<Rightarrow> 'a :: cancel_comm_monoid_add" and i :: nat
  assumes "i < W" "f v = f (pc i)"
  shows "(\<Sum>j<W. f ((pc(i := v)) j)) = (\<Sum>j<W. f (pc j))"
  using sum_upd [OF assms(1), of f pc v] assms(2) by simp

end
