(* ===== verification/Steque.thy ===== *)
theory Steque
  imports CPrelude
begin

section \<open>The stack-ended queue (steque.c, steque.h)\<close>

text \<open>
  The singly linked queue that is the work queue of the multithreaded server and client
  (pr1/mtgf) and the pool of shared-memory segments of the proxy cache (pr3/cache).  The three
  copies of steque.c differ in the code they exit with on underflow, which is an argument here.

  The heap is modelled: \<open>nodes\<close> maps the address of every allocated \<open>steque_node_t\<close> to
  its contents, \<open>malloc\<close>'s result is an argument of the operations that allocate (\<open>None\<close>
  is the null pointer, which the code does not test), \<open>free\<close> removes the address, and reading
  or writing an address that is not allocated is a fault.  The abstraction \<open>steque_abs\<close> is the
  list of items from the front to the back; the operations refine list operations.
\<close>

subsection \<open>Data\<close>

type_synonym addr = nat

record 'a node =
  item :: 'a
  nextp :: "addr option"

type_synonym 'a heap = "addr \<rightharpoonup> 'a node"

record 'a steque =
  nodes :: "'a heap"
  frontp :: "addr option"
  backp :: "addr option"
  N :: int

subsection \<open>Operations\<close>

definition steque_init :: "'a steque \<Rightarrow> 'a steque" where
  "steque_init s = s\<lparr>frontp := None, backp := None, N := 0\<rparr>"

definition set_next :: "addr \<Rightarrow> addr option \<Rightarrow> 'a heap \<Rightarrow> 'a heap res" where
  "set_next a p h =
    (case h a of None \<Rightarrow> Inl (Ub Use_After_Free) | Some nd \<Rightarrow> Inr (h(a \<mapsto> nd\<lparr>nextp := p\<rparr>)))"

definition steque_enqueue :: "addr option \<Rightarrow> 'a \<Rightarrow> 'a steque \<Rightarrow> 'a steque res" where
  "steque_enqueue m x s =
    (case m of None \<Rightarrow> Inl (Ub Null_Deref)
     | Some a \<Rightarrow>
       let h = (nodes s)(a \<mapsto> \<lparr>item = x, nextp = None\<rparr>) in
       bindr (case backp s of
                None \<Rightarrow> Inr (s\<lparr>nodes := h, frontp := Some a\<rparr>)
              | Some b \<Rightarrow> bindr (set_next b (Some a) h) (\<lambda>h'. Inr (s\<lparr>nodes := h'\<rparr>)))
         (\<lambda>t. bindr (int_inc (N t)) (\<lambda>n. Inr (t\<lparr>backp := Some a, N := n\<rparr>))))"

definition steque_push :: "addr option \<Rightarrow> 'a \<Rightarrow> 'a steque \<Rightarrow> 'a steque res" where
  "steque_push m x s =
    (case m of None \<Rightarrow> Inl (Ub Null_Deref)
     | Some a \<Rightarrow>
       let t = s\<lparr>nodes := (nodes s)(a \<mapsto> \<lparr>item = x, nextp = frontp s\<rparr>)\<rparr>;
           t = (if backp t = None then t\<lparr>backp := Some a\<rparr> else t)
       in bindr (int_inc (N t)) (\<lambda>n. Inr (t\<lparr>frontp := Some a, N := n\<rparr>)))"

definition steque_size :: "'a steque \<Rightarrow> int" where
  "steque_size s = N s"

definition steque_isempty :: "'a steque \<Rightarrow> bool" where
  "steque_isempty s \<longleftrightarrow> N s = 0"

definition steque_pop :: "int \<Rightarrow> 'a steque \<Rightarrow> ('a \<times> 'a steque) res" where
  "steque_pop ec s =
    (case frontp s of None \<Rightarrow> Inl (Exit ec)
     | Some a \<Rightarrow>
       (case nodes s a of None \<Rightarrow> Inl (Ub Use_After_Free)
        | Some nd \<Rightarrow>
          let t = s\<lparr>frontp := nextp nd\<rparr>;
              t = (if frontp t = None then t\<lparr>backp := None\<rparr> else t);
              t = t\<lparr>nodes := (nodes t)(a := None)\<rparr>
          in bindr (int_dec (N t)) (\<lambda>n. Inr (item nd, t\<lparr>N := n\<rparr>))))"

definition steque_cycle :: "'a steque \<Rightarrow> 'a steque res" where
  "steque_cycle s =
    (case backp s of None \<Rightarrow> Inr s
     | Some b \<Rightarrow>
       bindr (set_next b (frontp s) (nodes s)) (\<lambda>h.
         case frontp s of None \<Rightarrow> Inl (Ub Null_Deref)
         | Some f \<Rightarrow>
           (case h f of None \<Rightarrow> Inl (Ub Use_After_Free)
            | Some nd \<Rightarrow>
              bindr (set_next f None h) (\<lambda>h'.
                Inr (s\<lparr>nodes := h', frontp := nextp nd, backp := Some f\<rparr>)))))"

definition steque_front :: "int \<Rightarrow> 'a steque \<Rightarrow> 'a res" where
  "steque_front ec s =
    (case frontp s of None \<Rightarrow> Inl (Exit ec)
     | Some a \<Rightarrow>
       (case nodes s a of None \<Rightarrow> Inl (Ub Use_After_Free) | Some nd \<Rightarrow> Inr (item nd)))"

text \<open>\<open>while (!steque_isempty(this)) steque_pop(this)\<close>; \<open>None\<close> is a loop that does not end.\<close>

partial_function (option) steque_destroy :: "int \<Rightarrow> 'a steque \<Rightarrow> 'a steque res option" where
  "steque_destroy ec s =
    (if steque_isempty s then Some (Inr s)
     else case steque_pop ec s of
            Inl e \<Rightarrow> Some (Inl e)
          | Inr r \<Rightarrow> steque_destroy ec (snd r))"

subsection \<open>Well-formed steques and their contents\<close>

text \<open>\<open>lseg h p as q\<close>: following the links from \<open>p\<close> visits the nodes \<open>as\<close> and arrives at \<open>q\<close>.\<close>

fun lseg :: "'a heap \<Rightarrow> addr option \<Rightarrow> addr list \<Rightarrow> addr option \<Rightarrow> bool" where
  "lseg h p [] q \<longleftrightarrow> p = q"
| "lseg h p (a # as) q \<longleftrightarrow>
    p = Some a \<and> (case h a of None \<Rightarrow> False | Some nd \<Rightarrow> lseg h (nextp nd) as q)"

fun walk :: "nat \<Rightarrow> 'a heap \<Rightarrow> addr option \<Rightarrow> addr list" where
  "walk 0 h p = []"
| "walk (Suc n) h p =
    (case p of None \<Rightarrow> []
     | Some a \<Rightarrow> a # (case h a of None \<Rightarrow> [] | Some nd \<Rightarrow> walk n h (nextp nd)))"

definition steque_addrs :: "'a steque \<Rightarrow> addr list" where
  "steque_addrs s = walk (nat (N s)) (nodes s) (frontp s)"

definition steque_abs :: "'a steque \<Rightarrow> 'a list" where
  "steque_abs s = map (\<lambda>a. item (the (nodes s a))) (steque_addrs s)"

definition steque_rep :: "'a steque \<Rightarrow> addr list \<Rightarrow> bool" where
  "steque_rep s as \<longleftrightarrow>
    lseg (nodes s) (frontp s) as None \<and> distinct as \<and>
    backp s = (if as = [] then None else Some (last as)) \<and>
    N s = int (length as) \<and> N s \<le> INT_MAX"

definition steque_wf :: "'a steque \<Rightarrow> bool" where
  "steque_wf s \<longleftrightarrow> steque_rep s (steque_addrs s)"

lemma lseg_append: "lseg h p (as @ bs) q \<longleftrightarrow> (\<exists>r. lseg h p as r \<and> lseg h r bs q)"
  by (induction as arbitrary: p) (auto split: option.splits)

lemma lseg_frame: "a \<notin> set as \<Longrightarrow> lseg (h(a := v)) p as q = lseg h p as q"
  by (induction as arbitrary: p) (auto split: option.splits)

lemma lseg_dom: "lseg h p as q \<Longrightarrow> a \<in> set as \<Longrightarrow> \<exists>nd. h a = Some nd"
  by (induction as arbitrary: p) (auto split: option.splits)

lemma lseg_walk: "lseg h p as None \<Longrightarrow> length as \<le> n \<Longrightarrow> walk n h p = as"
proof (induction as arbitrary: p n)
  case Nil
  then show ?case by (cases n) auto
next
  case (Cons a as)
  then show ?case by (cases n) (auto split: option.splits)
qed

lemma steque_rep_addrs: "steque_rep s as \<Longrightarrow> steque_addrs s = as"
  by (simp add: steque_rep_def steque_addrs_def lseg_walk)

lemma steque_wf_iff: "steque_wf s \<longleftrightarrow> (\<exists>as. steque_rep s as)"
  using steque_rep_addrs by (metis steque_wf_def)

lemma steque_repI: "steque_rep s as \<Longrightarrow>
    steque_wf s \<and> steque_addrs s = as \<and> steque_abs s = map (\<lambda>a. item (the (nodes s a))) as"
  by (auto simp: steque_wf_iff steque_abs_def steque_rep_addrs)

lemma steque_abs_Nil_iff: "steque_abs s = [] \<longleftrightarrow> steque_addrs s = []"
  by (simp add: steque_abs_def)

lemma length_steque_abs: "steque_wf s \<Longrightarrow> int (length (steque_abs s)) = N s"
  by (simp add: steque_wf_def steque_rep_def steque_abs_def)


subsection \<open>Every operation against its list counterpart\<close>

named_theorems steque_defs "definitions of the steque operations"

lemmas [steque_defs] = steque_enqueue_def steque_push_def steque_pop_def steque_cycle_def
  steque_front_def steque_init_def steque_isempty_def steque_size_def set_next_def

lemma item_map_frame: "a \<notin> set as \<Longrightarrow>
    map (\<lambda>b. item (the ((h(a := v)) b))) as = map (\<lambda>b. item (the (h b))) as"
  by (rule map_cong) auto

lemma int_inc_room: "n < INT_MAX \<Longrightarrow> int_inc n = Inr (n + 1)"
  by (simp add: int_inc_def)

lemma int_dec_pos: "0 < n \<Longrightarrow> int_dec n = Inr (n - 1)"
  by (simp add: int_dec_def INT_MIN_def)

lemma steque_rep_fresh: "steque_rep s as \<Longrightarrow> nodes s a = None \<Longrightarrow> a \<notin> set as"
  by (auto simp: steque_rep_def dest: lseg_dom)

lemma steque_init_rep: "steque_rep (steque_init s) []"
  by (simp add: steque_rep_def steque_init_def INT_MAX_def)

lemma lseg_snoc_upd:
  assumes "lseg h p (bs @ [b]) None" "distinct (bs @ [b])" "a \<notin> set (bs @ [b])" "h b = Some nd"
    and "h' = h(a \<mapsto> \<lparr>item = x, nextp = None\<rparr>, b \<mapsto> nd\<lparr>nextp := Some a\<rparr>)"
  shows "lseg h' p (bs @ [b] @ [a]) None"
proof -
  have "lseg h p bs (Some b)" using assms(1) by (auto simp: lseg_append)
  then have "lseg h' p bs (Some b)" using assms by (simp add: lseg_frame)
  then show ?thesis using assms by (auto simp: lseg_append)
qed

lemma steque_enqueue_rep:
  assumes "steque_rep s as" "nodes s a = None" "N s < INT_MAX"
  shows "\<exists>s'. steque_enqueue (Some a) x s = Inr s' \<and> steque_rep s' (as @ [a]) \<and>
    steque_abs s' = steque_abs s @ [x] \<and> dom (nodes s') = insert a (dom (nodes s))"
proof (cases as rule: rev_cases)
  case Nil
  let ?s' = "s\<lparr>nodes := (nodes s)(a \<mapsto> \<lparr>item = x, nextp = None\<rparr>), frontp := Some a,
    backp := Some a, N := N s + 1\<rparr>"
  have "steque_enqueue (Some a) x s = Inr ?s'"
    using assms Nil by (simp add: steque_defs int_inc_room steque_rep_def)
  moreover have "steque_rep ?s' (as @ [a])"
    using assms Nil by (simp add: steque_rep_def)
  moreover from this have "steque_abs ?s' = steque_abs s @ [x]"
    using assms(1) Nil by (simp add: steque_repI)
  ultimately show ?thesis by auto
next
  case (snoc bs b)
  have a: "a \<notin> set as" using assms(1,2) by (rule steque_rep_fresh)
  obtain nd where b: "nodes s b = Some nd"
    using assms(1) snoc lseg_dom [of "nodes s" "frontp s" as None b] by (auto simp: steque_rep_def)
  define h where "h = (nodes s)(a \<mapsto> \<lparr>item = x, nextp = None\<rparr>, b \<mapsto> nd\<lparr>nextp := Some a\<rparr>)"
  let ?s' = "s\<lparr>nodes := h, backp := Some a, N := N s + 1\<rparr>"
  have ab: "a \<noteq> b" using a snoc by auto
  have "steque_enqueue (Some a) x s = Inr ?s'"
    using assms snoc b ab by (simp add: steque_defs int_inc_room steque_rep_def h_def)
  moreover have r: "steque_rep ?s' (as @ [a])"
    using assms(1,3) snoc a b lseg_snoc_upd [OF _ _ _ b h_def, of "frontp s" bs]
    by (simp add: steque_rep_def)
  moreover have "map (\<lambda>c. item (the (h c))) as = map (\<lambda>c. item (the (nodes s c))) as"
    using a b by (intro map_cong) (auto simp: h_def)
  then have "steque_abs ?s' = steque_abs s @ [x]"
    using steque_repI [OF r] steque_repI [OF assms(1)] ab by (simp add: h_def)
  moreover have "dom h = insert a (dom (nodes s))" using b by (auto simp: h_def)
  ultimately show ?thesis by auto
qed

lemma steque_push_rep:
  assumes "steque_rep s as" "nodes s a = None" "N s < INT_MAX"
  shows "\<exists>s'. steque_push (Some a) x s = Inr s' \<and> steque_rep s' (a # as) \<and>
    steque_abs s' = x # steque_abs s \<and> dom (nodes s') = insert a (dom (nodes s))"
proof -
  have a: "a \<notin> set as" using assms(1,2) by (rule steque_rep_fresh)
  let ?s' = "s\<lparr>nodes := (nodes s)(a \<mapsto> \<lparr>item = x, nextp = frontp s\<rparr>), frontp := Some a,
    backp := (if backp s = None then Some a else backp s), N := N s + 1\<rparr>"
  have "steque_push (Some a) x s = Inr ?s'"
    using assms by (simp add: steque_defs int_inc_room Let_def)
  moreover have r: "steque_rep ?s' (a # as)"
    using assms a by (auto simp: steque_rep_def lseg_frame)
  moreover have "steque_abs ?s' = x # steque_abs s"
    using steque_repI [OF r] steque_repI [OF assms(1)] a by (simp add: item_map_frame fun_upd_same del: fun_upd_apply)
  ultimately show ?thesis by auto
qed

lemma steque_pop_rep:
  assumes "steque_rep s (a # as)"
  shows "\<exists>s'. steque_pop ec s = Inr (hd (steque_abs s), s') \<and> steque_rep s' as \<and>
    steque_abs s' = tl (steque_abs s) \<and> nodes s' = (nodes s)(a := None)"
proof -
  obtain nd where nd: "nodes s a = Some nd" "lseg (nodes s) (nextp nd) as None" "frontp s = Some a"
    using assms by (auto simp: steque_rep_def split: option.splits)
  have a: "a \<notin> set as" and n: "N s = int (length as) + 1" "N s \<le> INT_MAX"
    using assms by (auto simp: steque_rep_def)
  have nx: "nextp nd = None \<longleftrightarrow> as = []" using nd(2) by (cases as) auto
  let ?s' = "s\<lparr>nodes := (nodes s)(a := None), frontp := nextp nd,
    backp := (if nextp nd = None then None else backp s), N := N s - 1\<rparr>"
  have "steque_pop ec s = Inr (item nd, ?s')"
    using nd n by (simp add: steque_defs int_dec_pos Let_def)
  moreover have r: "steque_rep ?s' as"
    using assms nd a n nx by (auto simp: steque_rep_def lseg_frame)
  moreover have "steque_abs s = item nd # steque_abs ?s'"
    using steque_repI [OF r] steque_repI [OF assms] a nd by (simp add: item_map_frame del: fun_upd_apply)
  ultimately show ?thesis by auto
qed

lemma steque_pop_empty: "steque_rep s [] \<Longrightarrow> steque_pop ec s = Inl (Exit ec)"
  by (simp add: steque_defs steque_rep_def)

lemma steque_front_rep: "steque_rep s (a # as) \<Longrightarrow> steque_front ec s = Inr (hd (steque_abs s))"
  using steque_repI [of s "a # as"]
  by (auto simp: steque_defs steque_rep_def split: option.splits)

lemma steque_isempty_rep: "steque_rep s as \<Longrightarrow> steque_isempty s \<longleftrightarrow> as = []"
  by (simp add: steque_defs steque_rep_def)


lemma steque_cycle_rep:
  assumes "steque_rep s (a # as)"
  shows "\<exists>s'. steque_cycle s = Inr s' \<and> steque_rep s' (as @ [a]) \<and>
    steque_abs s' = tl (steque_abs s) @ [hd (steque_abs s)] \<and> dom (nodes s') = dom (nodes s)"
proof -
  obtain nd where nd: "nodes s a = Some nd" "lseg (nodes s) (nextp nd) as None" "frontp s = Some a"
    using assms by (auto simp: steque_rep_def split: option.splits)
  have d: "a \<notin> set as" "distinct as" "N s = int (length as) + 1" "N s \<le> INT_MAX"
    using assms by (auto simp: steque_rep_def)
  show ?thesis
  proof (cases as rule: rev_cases)
    case Nil
    let ?s' = "s\<lparr>nodes := (nodes s)(a \<mapsto> nd\<lparr>nextp := None\<rparr>)\<rparr>"
    have "steque_cycle s = Inr ?s'"
      using assms nd Nil by (simp add: steque_defs steque_rep_def)
    moreover have r: "steque_rep ?s' [a]"
      using assms nd Nil by (simp add: steque_rep_def)
    ultimately show ?thesis
      using steque_repI [OF r] steque_repI [OF assms] nd Nil by auto
  next
    case (snoc bs b)
    obtain ndb where b: "nodes s b = Some ndb"
      using nd(2) snoc lseg_dom [of "nodes s" "nextp nd" as None b] by auto
    have ab: "a \<noteq> b" "b \<notin> set bs" using d snoc by auto
    define h where "h = (nodes s)(b \<mapsto> ndb\<lparr>nextp := Some a\<rparr>, a \<mapsto> nd\<lparr>nextp := None\<rparr>)"
    let ?s' = "s\<lparr>nodes := h, frontp := nextp nd, backp := Some a\<rparr>"
    have "steque_cycle s = Inr ?s'"
      using assms nd b snoc ab by (simp add: steque_defs steque_rep_def h_def)
    moreover have "lseg (nodes s) (nextp nd) bs (Some b)"
      using nd(2) snoc by (auto simp: lseg_append)
    then have "lseg h (nextp nd) bs (Some b)"
      using d snoc ab by (simp add: h_def lseg_frame)
    then have "lseg h (nextp nd) (as @ [a]) None"
      using ab snoc by (auto simp: lseg_append h_def)
    then have r: "steque_rep ?s' (as @ [a])"
      using d by (simp add: steque_rep_def)
    moreover have "item (the (h c)) = item (the (nodes s c))" for c
      using nd b by (simp add: h_def)
    then have "steque_abs ?s' = tl (steque_abs s) @ [hd (steque_abs s)]"
      using steque_repI [OF r] steque_repI [OF assms] by simp
    moreover have "dom h = dom (nodes s)" using nd b by (auto simp: h_def)
    ultimately show ?thesis by auto
  qed
qed

lemma steque_destroy_rep:
  "steque_rep s as \<Longrightarrow>
    \<exists>s'. steque_destroy ec s = Some (Inr s') \<and> steque_rep s' [] \<and> nodes s' = (nodes s) |` (- set as)"
proof (induction as arbitrary: s)
  case Nil
  then show ?case by (subst steque_destroy.simps) (simp add: steque_isempty_rep restrict_map_def)
next
  case (Cons a as)
  obtain s1 where s1: "steque_pop ec s = Inr (hd (steque_abs s), s1)" "steque_rep s1 as"
      "nodes s1 = (nodes s)(a := None)"
    using steque_pop_rep [OF Cons.prems] by blast
  obtain s' where s': "steque_destroy ec s1 = Some (Inr s')" "steque_rep s' []"
      "nodes s' = (nodes s1) |` (- set as)"
    using Cons.IH [OF s1(2)] by blast
  have "nodes s' = (nodes s) |` (- set (a # as))"
    using s1(3) s'(3) by (auto simp: restrict_map_def)
  moreover have "steque_destroy ec s = Some (Inr s')"
    using Cons.prems s1 s' by (subst steque_destroy.simps) (simp add: steque_isempty_rep)
  ultimately show ?case using s'(2) by blast
qed

subsection \<open>The FIFO interface its clients rely on\<close>

text \<open>
  What the thread pools of pr1/mtgf and the segment pool of pr3/cache use of the queue: enqueue at
  the back, pop from the front, the emptiness test.  \<open>place p q\<close> says that the argument \<open>p\<close> of an
  enqueue (the block \<open>malloc\<close> returned) may be used, \<open>null\<close> is the null pointer, \<open>room q\<close> that the element count does not
  overflow.
\<close>

locale fifo =
  fixes inv :: "'q \<Rightarrow> bool"
    and content :: "'q \<Rightarrow> 'a list"
    and room :: "'q \<Rightarrow> bool"
    and place :: "'p \<Rightarrow> 'q \<Rightarrow> bool"
    and enq :: "'p \<Rightarrow> 'a \<Rightarrow> 'q \<Rightarrow> 'q res"
    and deq :: "'q \<Rightarrow> ('a \<times> 'q) res"
    and isempty :: "'q \<Rightarrow> bool"
    and null :: 'p
    and underflow :: fault
  assumes enq_ok: "inv q \<Longrightarrow> place p q \<Longrightarrow> room q \<Longrightarrow>
      \<exists>q'. enq p x q = Inr q' \<and> inv q' \<and> content q' = content q @ [x]"
    and enq_full: "inv q \<Longrightarrow> place p q \<Longrightarrow> \<not> room q \<Longrightarrow> enq p x q = Inl (Ub Signed_Overflow)"
    and enq_null: "enq null x q = Inl (Ub Null_Deref)"
    and room_ok: "inv q \<Longrightarrow> int (length (content q)) < INT_MAX \<Longrightarrow> room q"
    and deq_ok: "inv q \<Longrightarrow> content q = x # xs \<Longrightarrow>
      \<exists>q'. deq q = Inr (x, q') \<and> inv q' \<and> content q' = xs"
    and deq_empty: "inv q \<Longrightarrow> content q = [] \<Longrightarrow> deq q = Inl underflow"
    and isempty_iff: "inv q \<Longrightarrow> isempty q \<longleftrightarrow> content q = []"
begin

lemma enq_Inr: "inv q \<Longrightarrow> place p q \<Longrightarrow> enq p x q = Inr q' \<Longrightarrow> inv q' \<and> content q' = content q @ [x]"
  using enq_ok [of q p x] enq_full [of q p x] by (cases "room q") auto

lemma deq_Inr: "inv q \<Longrightarrow> deq q = Inr (x, q') \<Longrightarrow> inv q' \<and> content q = x # content q'"
  using deq_ok [of q] deq_empty [of q] by (cases "content q") auto

lemma deq_nonempty: "inv q \<Longrightarrow> \<not> isempty q \<Longrightarrow> \<exists>x q'. deq q = Inr (x, q') \<and> inv q' \<and> content q = x # content q'"
  using deq_ok [of q] isempty_iff [of q] by (cases "content q") auto

lemma enq_deq_singleton:
  "inv q \<Longrightarrow> content q = [] \<Longrightarrow> place p q \<Longrightarrow> room q \<Longrightarrow>
   \<exists>q1 q2. enq p x q = Inr q1 \<and> deq q1 = Inr (x, q2) \<and> content q2 = []"
  using enq_ok [of q p x] deq_ok by (metis append_Nil)

end

definition steque_room :: "'a steque \<Rightarrow> bool" where
  "steque_room s \<longleftrightarrow> N s < INT_MAX"

definition steque_place :: "addr option \<Rightarrow> 'a steque \<Rightarrow> bool" where
  "steque_place m s \<longleftrightarrow> (case m of None \<Rightarrow> False | Some a \<Rightarrow> nodes s a = None)"

lemma steque_enqueue_overflow:
  assumes "steque_rep s as" "nodes s a = None" "N s = INT_MAX"
  shows "steque_enqueue (Some a) x s = Inl (Ub Signed_Overflow)"
proof (cases as rule: rev_cases)
  case Nil
  then show ?thesis using assms by (simp add: steque_rep_def INT_MAX_def)
next
  case (snoc bs b)
  then obtain nd where "nodes s b = Some nd"
    using assms(1) lseg_dom [of "nodes s" "frontp s" as None b] by (auto simp: steque_rep_def)
  moreover have "a \<noteq> b" using steque_rep_fresh [OF assms(1,2)] snoc by auto
  ultimately show ?thesis
    using assms snoc by (simp add: steque_defs steque_rep_def int_inc_def)
qed

interpretation sq: fifo steque_wf steque_abs steque_room steque_place steque_enqueue
    "steque_pop ec" steque_isempty None "Exit ec" for ec
proof unfold_locales
  fix q :: "'a steque" and x
  show "steque_enqueue None x q = Inl (Ub Null_Deref)" by (simp add: steque_enqueue_def)
next
  fix q :: "'a steque"
  assume "steque_wf q" "int (length (steque_abs q)) < INT_MAX"
  then show "steque_room q" using length_steque_abs [of q] by (simp add: steque_room_def)
next
  fix q :: "'a steque" and p x
  assume "steque_wf q" and p: "steque_place p q"
  then obtain as where r: "steque_rep q as" by (auto simp: steque_wf_iff)
  obtain a where a: "p = Some a" "nodes q a = None" using p by (auto simp: steque_place_def split: option.splits)
  show "\<exists>q'. steque_enqueue p x q = Inr q' \<and> steque_wf q' \<and> steque_abs q' = steque_abs q @ [x]" if "steque_room q"
    using steque_enqueue_rep [OF r a(2)] that a(1) unfolding steque_room_def steque_wf_iff by blast
  show "steque_enqueue p x q = Inl (Ub Signed_Overflow)" if "\<not> steque_room q"
    using steque_enqueue_overflow [OF r a(2)] that r a(1) by (simp add: steque_room_def steque_rep_def)
next
  fix q :: "'a steque" and x xs
  assume "steque_wf q" and c: "steque_abs q = x # xs"
  then obtain as where r: "steque_rep q as" by (auto simp: steque_wf_iff)
  then obtain a as' where "as = a # as'" using c steque_repI [OF r] by (cases as) auto
  with r steque_pop_rep [of q a as' ec] c
  show "\<exists>q'. steque_pop ec q = Inr (x, q') \<and> steque_wf q' \<and> steque_abs q' = xs"
    by (auto simp: steque_wf_iff)
next
  fix q :: "'a steque"
  assume "steque_wf q"
  then obtain as where r: "steque_rep q as" by (auto simp: steque_wf_iff)
  show "steque_pop ec q = Inl (Exit ec)" if "steque_abs q = []"
    using steque_pop_empty r steque_repI [OF r] that by auto
  show "steque_isempty q \<longleftrightarrow> steque_abs q = []"
    using steque_isempty_rep [OF r] steque_repI [OF r] by auto
qed


lemma steque_enqueue_fresh:
  assumes "steque_wf q" "nodes q a = None" "N q < INT_MAX"
  shows "\<exists>q'. steque_enqueue (Some a) x q = Inr q' \<and> steque_wf q' \<and> steque_abs q' = steque_abs q @ [x] \<and>
    dom (nodes q') = insert a (dom (nodes q)) \<and> N q' = N q + 1"
proof -
  obtain as where r: "steque_rep q as" using assms(1) by (auto simp: steque_wf_iff)
  obtain q' where q': "steque_enqueue (Some a) x q = Inr q'" "steque_rep q' (as @ [a])"
      "steque_abs q' = steque_abs q @ [x]" "dom (nodes q') = insert a (dom (nodes q))"
    using steque_enqueue_rep [OF r assms(2,3), of x] by blast
  moreover have "N q' = N q + 1" using r q'(2) by (simp add: steque_rep_def)
  ultimately show ?thesis by (auto simp: steque_wf_iff)
qed

subsection \<open>Properties\<close>

lemma steque_wf_cases:
  assumes "steque_wf s"
  obtains (empty) "steque_rep s []" "steque_abs s = []"
  | (cons) a as where "steque_rep s (a # as)" "steque_abs s = hd (steque_abs s) # tl (steque_abs s)"
      "frontp s = Some a"
proof -
  obtain as where r: "steque_rep s as" using assms by (auto simp: steque_wf_iff)
  show ?thesis
    using r steque_repI [OF r] that by (cases as) (auto simp: steque_rep_def)
qed

text \<open>A queue with the items 10 and 20 in nodes 1 and 2, for the closed examples.\<close>

definition example_steque :: "nat steque" where
  "example_steque =
    \<lparr>nodes = [1 \<mapsto> \<lparr>item = 10, nextp = Some 2\<rparr>, 2 \<mapsto> \<lparr>item = 20, nextp = None\<rparr>],
     frontp = Some 1, backp = Some 2, N = 2\<rparr>"

lemma example_steque_rep: "steque_rep example_steque [1, 2]"
  by (simp add: example_steque_def steque_rep_def INT_MAX_def)

lemma example_steque_wf: "steque_wf example_steque"
  using example_steque_rep by (auto simp: steque_wf_iff)

text \<open>C22. On a well-formed queue with room in its counter, \<open>steque_enqueue\<close> with a fresh block from
  \<open>malloc\<close> returns, keeps the queue well-formed, and appends the item at the back.\<close>

theorem steque_enqueue_refines:
  assumes "steque_wf s" "nodes s a = None" "N s < INT_MAX"
  shows "\<exists>s'. steque_enqueue (Some a) x s = Inr s' \<and> steque_wf s' \<and>
    steque_abs s' = steque_abs s @ [x]"
proof -
  have "steque_room s" "steque_place (Some a) s"
    using assms(2,3) by (simp_all add: steque_room_def steque_place_def)
  with assms(1) show ?thesis by (blast intro: sq.enq_ok)
qed

theorem steque_enqueue_refines_witness:
  "\<exists>s'. steque_enqueue (Some 3) 30 example_steque = Inr s' \<and> steque_wf s' \<and>
    steque_abs s' = steque_abs example_steque @ [30]"
  by (rule steque_enqueue_refines [OF example_steque_wf])
    (simp_all add: example_steque_def INT_MAX_def)

text \<open>C23. \<open>steque_pop\<close> removes and returns the front item and frees exactly its node; on an empty queue it
  ends the process with the underflow code.\<close>

theorem steque_pop_refines:
  assumes "steque_wf s"
  shows "case steque_abs s of
      [] \<Rightarrow> steque_pop ec s = Inl (Exit ec)
    | x # xs \<Rightarrow> \<exists>s' a. steque_pop ec s = Inr (x, s') \<and> steque_wf s' \<and> steque_abs s' = xs \<and>
        frontp s = Some a \<and> nodes s' = (nodes s)(a := None)"
  using assms
proof (cases rule: steque_wf_cases)
  case empty
  then show ?thesis by (simp add: steque_pop_empty)
next
  case (cons a as)
  then obtain x xs where x: "steque_abs s = x # xs" by (cases "steque_abs s") auto
  show ?thesis using steque_pop_rep [OF cons(1), of ec] cons(3) x by (auto simp: steque_wf_iff)
qed

theorem steque_pop_refines_witness:
  "case steque_abs example_steque of
      [] \<Rightarrow> steque_pop 1 example_steque = Inl (Exit 1)
    | x # xs \<Rightarrow> \<exists>s' a. steque_pop 1 example_steque = Inr (x, s') \<and> steque_wf s' \<and>
        steque_abs s' = xs \<and> frontp example_steque = Some a \<and>
        nodes s' = (nodes example_steque)(a := None)"
  by (rule steque_pop_refines [OF example_steque_wf])

text \<open>\<open>steque_cycle\<close> moves the front item to the back, whatever the length of the queue.\<close>

lemma steque_cycle_refines:
  assumes "steque_wf s"
  shows "\<exists>s'. steque_cycle s = Inr s' \<and> steque_wf s' \<and> steque_abs s' = rotate1 (steque_abs s)"
  using assms
proof (cases rule: steque_wf_cases)
  case empty
  then show ?thesis using assms by (simp add: steque_cycle_def steque_rep_def)
next
  case (cons a as)
  then obtain x xs where x: "steque_abs s = x # xs" by (cases "steque_abs s") auto
  show ?thesis using steque_cycle_rep [OF cons(1)] x by (auto simp: steque_wf_iff)
qed

text \<open>C27. \<open>steque_destroy\<close> ends on every well-formed queue, never underflows, leaves the queue empty and frees
  exactly the nodes of the queue.\<close>

theorem steque_destroy_frees:
  assumes "steque_wf s"
  shows "\<exists>s'. steque_destroy ec s = Some (Inr s') \<and> steque_abs s' = [] \<and>
    nodes s' = nodes s |` (- set (steque_addrs s))"
proof -
  obtain as where r: "steque_rep s as" using assms by (auto simp: steque_wf_iff)
  show ?thesis
    using steque_destroy_rep [OF r, of ec] steque_repI [OF r] steque_repI
    by (metis list.simps(8))
qed

theorem steque_destroy_frees_witness:
  "\<exists>s'. steque_destroy 1 example_steque = Some (Inr s') \<and> steque_abs s' = [] \<and>
    nodes s' = nodes example_steque |` (- set (steque_addrs example_steque))"
  by (rule steque_destroy_frees [OF example_steque_wf])


subsection \<open>Sequences of operations\<close>

datatype 'a steque_op = Op_Enqueue 'a | Op_Push 'a | Op_Pop | Op_Cycle

text \<open>\<open>mal\<close> is what \<open>malloc\<close> returns on a heap, \<open>ec\<close> the exit code of the underflow.\<close>

definition steque_apply :: "int \<Rightarrow> ('a heap \<Rightarrow> addr option) \<Rightarrow> 'a steque_op \<Rightarrow> 'a steque \<Rightarrow> 'a steque res" where
  "steque_apply ec mal op q =
    (case op of Op_Enqueue x \<Rightarrow> steque_enqueue (mal (nodes q)) x q
     | Op_Push x \<Rightarrow> steque_push (mal (nodes q)) x q
     | Op_Pop \<Rightarrow> bindr (steque_pop ec q) (\<lambda>(x, q'). Inr q')
     | Op_Cycle \<Rightarrow> steque_cycle q)"

fun steque_run :: "int \<Rightarrow> ('a heap \<Rightarrow> addr option) \<Rightarrow> 'a steque_op list \<Rightarrow> 'a steque \<Rightarrow> 'a steque res" where
  "steque_run ec mal [] q = Inr q"
| "steque_run ec mal (op # ops) q = bindr (steque_apply ec mal op q) (steque_run ec mal ops)"

definition steque_fault_ok :: "int \<Rightarrow> fault \<Rightarrow> bool" where
  "steque_fault_ok ec e \<longleftrightarrow> e = Exit ec \<or> e = Ub Signed_Overflow \<or> e = Ub Null_Deref"

definition steque_typed :: "int \<Rightarrow> 'a steque res \<Rightarrow> bool" where
  "steque_typed ec r \<longleftrightarrow> (case r of Inr q \<Rightarrow> steque_wf q | Inl e \<Rightarrow> steque_fault_ok ec e)"

lemma steque_typed_simps [simp]:
  "steque_typed ec (Inr q) \<longleftrightarrow> steque_wf q" "steque_typed ec (Inl e) \<longleftrightarrow> steque_fault_ok ec e"
  by (simp_all add: steque_typed_def)

lemma steque_enqueue_typed:
  assumes "steque_wf q" "\<forall>a. m = Some a \<longrightarrow> nodes q a = None"
  shows "steque_typed ec (steque_enqueue m x q)"
proof (cases m)
  case None
  then show ?thesis by (simp add: steque_enqueue_def steque_fault_ok_def)
next
  case (Some a)
  obtain as where r: "steque_rep q as" using assms(1) by (auto simp: steque_wf_iff)
  have fresh: "nodes q a = None" using assms(2) Some by simp
  show ?thesis
  proof (cases "N q = INT_MAX")
    case True
    then show ?thesis using steque_enqueue_overflow [OF r, of a x] assms(2) Some by (simp add: steque_fault_ok_def)
  next
    case False
    then have "N q < INT_MAX" using r by (simp add: steque_rep_def)
    then obtain q' where "steque_enqueue (Some a) x q = Inr q'" "steque_rep q' (as @ [a])"
      using steque_enqueue_rep [OF r fresh, of x] by blast
    then show ?thesis using Some by (auto simp: steque_wf_iff)
  qed
qed

lemma steque_push_typed:
  assumes "steque_wf q" "\<forall>a. m = Some a \<longrightarrow> nodes q a = None"
  shows "steque_typed ec (steque_push m x q)"
proof (cases m)
  case None
  then show ?thesis by (simp add: steque_push_def steque_fault_ok_def)
next
  case (Some a)
  obtain as where r: "steque_rep q as" using assms(1) by (auto simp: steque_wf_iff)
  have fresh: "nodes q a = None" using assms(2) Some by simp
  show ?thesis
  proof (cases "N q = INT_MAX")
    case True
    then show ?thesis using Some by (simp add: steque_push_def Let_def int_inc_def steque_fault_ok_def)
  next
    case False
    then have "N q < INT_MAX" using r by (simp add: steque_rep_def)
    then obtain q' where "steque_push (Some a) x q = Inr q'" "steque_rep q' (a # as)"
      using steque_push_rep [OF r fresh, of x] by blast
    then show ?thesis using Some by (auto simp: steque_wf_iff)
  qed
qed

lemma steque_apply_typed:
  assumes "steque_wf q" "\<forall>h a. mal h = Some a \<longrightarrow> h a = None"
  shows "steque_typed ec (steque_apply ec mal op q)"
proof (cases op)
  case Op_Pop
  show ?thesis
  proof (cases "steque_abs q")
    case Nil
    then show ?thesis using sq.deq_empty [OF assms(1), of ec] Op_Pop by (simp add: steque_apply_def steque_fault_ok_def)
  next
    case (Cons x xs)
    then show ?thesis using sq.deq_ok [OF assms(1), of x xs ec] Op_Pop by (auto simp: steque_apply_def)
  qed
next
  case Op_Cycle
  then show ?thesis using steque_cycle_refines [OF assms(1)] by (auto simp: steque_apply_def)
qed (use assms in \<open>simp_all add: steque_apply_def steque_enqueue_typed steque_push_typed\<close>)

text \<open>C24. The operations are closed under well-formedness: any sequence of enqueues, pushes, pops and cycles on a well-formed
  queue, with a \<open>malloc\<close> that returns free blocks or fails, ends in a well-formed queue, or with the
  exit of an underflow, the overflow of the counter, or the null pointer of a failed \<open>malloc\<close>; no
  sequence uses freed memory.\<close>

theorem steque_run_typed:
  assumes "steque_wf q" "\<forall>h a. mal h = Some a \<longrightarrow> h a = None"
  shows "case steque_run ec mal ops q of
      Inr q' \<Rightarrow> steque_wf q'
    | Inl e \<Rightarrow> e = Exit ec \<or> e = Ub Signed_Overflow \<or> e = Ub Null_Deref"
  using assms(1)
proof (induction ops arbitrary: q)
  case (Cons op ops)
  have "steque_typed ec (steque_apply ec mal op q)" by (rule steque_apply_typed [OF Cons.prems assms(2)])
  then show ?case using Cons.IH by (cases "steque_apply ec mal op q") (auto simp: steque_fault_ok_def)
qed simp

theorem steque_run_typed_witness:
  "case steque_run 1 (\<lambda>h. if h 3 = None then Some 3 else None) [Op_Push 5, Op_Pop, Op_Enqueue 6, Op_Cycle, Op_Enqueue 7] example_steque of
      Inr q' \<Rightarrow> steque_wf q'
    | Inl e \<Rightarrow> e = Exit 1 \<or> e = Ub Signed_Overflow \<or> e = Ub Null_Deref"
  by (rule steque_run_typed [OF example_steque_wf]) auto

end
