(* ===== verification/CStr.thy ===== *)
theory CStr
  imports CPrelude
begin

section \<open>C strings, decimal numbers and the string functions of the C library\<close>

text \<open>
  Two views of character data occur in the programs.  A \<open>string\<close> (a list of characters
  without a NUL) is the contents of a NUL-terminated C string.  A raw buffer is the list of the
  characters of an array from some position to the end of the array; a function that scans a raw
  buffer faults when it would read past the end before it can stop.
\<close>

abbreviation NUL :: char where "NUL \<equiv> CHR 0x00"
abbreviation CR :: char where "CR \<equiv> CHR 0x0D"
abbreviation LF :: char where "LF \<equiv> CHR 0x0A"
abbreviation SP :: char where "SP \<equiv> CHR 0x20"
abbreviation TAB :: char where "TAB \<equiv> CHR 0x09"

abbreviation CRLF2 :: string where "CRLF2 \<equiv> [CR, LF, CR, LF]"

named_theorems cstr_simps "evaluation of the C string functions"

subsection \<open>Reading a C string out of an array\<close>

fun cstr :: "char list \<Rightarrow> string res" where
  "cstr [] = Inl (Ub Out_Of_Bounds)"
| "cstr (c # cs) = (if c = NUL then Inr [] else bindr (cstr cs) (\<lambda>s. Inr (c # s)))"

lemma cstr_app_NUL [simp]: "NUL \<notin> set s \<Longrightarrow> cstr (s @ NUL # rest) = Inr s"
  by (induction s) auto

lemma cstr_no_NUL: "NUL \<notin> set buf \<Longrightarrow> cstr buf = Inl (Ub Out_Of_Bounds)"
  by (induction buf) auto

lemma cstr_no_NUL_in: "cstr buf = Inr s \<Longrightarrow> NUL \<notin> set s"
  by (induction buf arbitrary: s) (auto simp: res_simps split: if_splits)

text \<open>\<open>memset(buf, 0, n)\<close> followed by a copy of \<open>d\<close> to the start of the buffer.\<close>

definition fill_buf :: "nat \<Rightarrow> char list \<Rightarrow> char list" where
  "fill_buf n d = take n (d @ replicate n NUL)"

lemma length_fill_buf [simp]: "length (fill_buf n d) = n"
  by (simp add: fill_buf_def)

lemma fill_buf_eq: "length d \<le> n \<Longrightarrow> fill_buf n d = d @ replicate (n - length d) NUL"
  by (simp add: fill_buf_def take_replicate min_def)

lemma fill_buf_short: "length d < n \<Longrightarrow> \<exists>r. fill_buf n d = d @ NUL # r"
proof -
  assume "length d < n"
  then obtain k where "n = length d + Suc k" by (metis less_imp_Suc_add add_Suc_right)
  then have "fill_buf n d = d @ NUL # replicate k NUL" by (simp add: fill_buf_def take_replicate min_def)
  then show ?thesis by blast
qed

lemma cstr_fill_buf: "length d < n \<Longrightarrow> NUL \<notin> set d \<Longrightarrow> cstr (fill_buf n d) = Inr d"
  using fill_buf_short [of d n] by auto

subsection \<open>\<open>strcmp\<close>\<close>

text \<open>
  The sign of \<open>strcmp\<close>: bytes compare as unsigned characters, a proper prefix is smaller.
  The sources use only the sign of the result.
\<close>

fun strcmp :: "string \<Rightarrow> string \<Rightarrow> int" where
  "strcmp [] [] = 0"
| "strcmp [] (_ # _) = -1"
| "strcmp (_ # _) [] = 1"
| "strcmp (a # as) (b # bs) = (if a = b then strcmp as bs else if a < b then -1 else 1)"

lemma strcmp_eq_0_iff [simp]: "strcmp a b = 0 \<longleftrightarrow> a = b"
  by (induction a b rule: strcmp.induct) auto

lemma strcmp_refl [simp]: "strcmp a a = 0"
  by simp

lemma strcmp_sym: "strcmp b a = - strcmp a b"
  by (induction a b rule: strcmp.induct) auto

lemma strcmp_trans_less: "strcmp a b < 0 \<Longrightarrow> strcmp b c < 0 \<Longrightarrow> strcmp a c < 0"
proof (induction a b arbitrary: c rule: strcmp.induct)
  case (2 b bs)
  then show ?case by (cases c) auto
next
  case (4 a as b bs)
  then show ?case by (cases c) (auto split: if_splits)
qed auto

lemma strcmp_trans: "strcmp a b \<le> 0 \<Longrightarrow> strcmp b c \<le> 0 \<Longrightarrow> strcmp a c \<le> 0"
proof (cases "a = b \<or> b = c")
  case False
  then have "strcmp a b \<noteq> 0" "strcmp b c \<noteq> 0" by simp_all
  moreover assume "strcmp a b \<le> 0" "strcmp b c \<le> 0"
  ultimately show ?thesis using strcmp_trans_less [of a b c] by linarith
qed auto

lemma strcmp_le_less_trans: "strcmp a b \<le> 0 \<Longrightarrow> strcmp b c < 0 \<Longrightarrow> strcmp a c < 0"
  using strcmp_trans_less [of a b c] by (cases "strcmp a b = 0") auto

lemma strcmp_less_le_trans: "strcmp a b < 0 \<Longrightarrow> strcmp b c \<le> 0 \<Longrightarrow> strcmp a c < 0"
  using strcmp_trans_less [of a b c] by (cases "strcmp b c = 0") auto

subsection \<open>White space, digits and decimal notation\<close>

definition isspace :: "char \<Rightarrow> bool" where
  "isspace c \<longleftrightarrow> c \<in> {SP, TAB, LF, CR, CHR 0x0B, CHR 0x0C}"

definition digits :: string where "digits = ''0123456789''"

definition isdigit :: "char \<Rightarrow> bool" where
  "isdigit c \<longleftrightarrow> c \<in> set digits"

definition digit_char :: "nat \<Rightarrow> char" where
  "digit_char d = digits ! d"

definition digit_val :: "char \<Rightarrow> nat" where
  "digit_val c = (of_char c :: nat) - 48"

lemma all_digit_cases: "d < 10 \<Longrightarrow>
  d = 0 \<or> d = 1 \<or> d = 2 \<or> d = 3 \<or> d = 4 \<or> d = 5 \<or> d = 6 \<or> d = 7 \<or> d = 8 \<or> d = (9::nat)"
  by arith

lemma digit_val_char [simp]: "d < 10 \<Longrightarrow> digit_val (digit_char d) = d"
  by (drule all_digit_cases) (auto simp: digit_val_def digit_char_def digits_def)

lemma isdigit_digit_char [simp]: "d < 10 \<Longrightarrow> isdigit (digit_char d)"
  by (drule all_digit_cases) (auto simp: isdigit_def digit_char_def digits_def)

lemma isdigit_cases: "isdigit c \<Longrightarrow> c \<in> set ''0123456789''"
  by (simp add: isdigit_def digits_def)

lemma isdigit_not_isspace [simp]: "isdigit c \<Longrightarrow> \<not> isspace c"
  by (drule isdigit_cases) (auto simp: isspace_def)

lemma isdigit_not_NUL [simp]: "isdigit c \<Longrightarrow> c \<noteq> NUL"
  by (drule isdigit_cases) auto

lemma isdigit_not_CR [simp]: "isdigit c \<Longrightarrow> c \<noteq> CR \<and> c \<noteq> LF \<and> c \<noteq> SP \<and> c \<noteq> CHR ''+'' \<and> c \<noteq> CHR ''-''"
  by (drule isdigit_cases) auto

text \<open>The digits of \<open>%zu\<close>, \<open>%u\<close> and \<open>%d\<close> for a non-negative value.\<close>

fun dec :: "nat \<Rightarrow> string" where
  "dec n = (if n < 10 then [digit_char n] else dec (n div 10) @ [digit_char (n mod 10)])"

declare dec.simps [simp del]

definition undec :: "string \<Rightarrow> nat" where
  "undec ds = foldl (\<lambda>v c. 10 * v + digit_val c) 0 ds"

lemma undec_snoc [simp]: "undec (ds @ [c]) = 10 * undec ds + digit_val c"
  by (simp add: undec_def)

lemma undec_dec [simp]: "undec (dec n) = n"
proof (induction n rule: dec.induct)
  case (1 n)
  show ?case
  proof (cases "n < 10")
    case True
    then show ?thesis by (subst dec.simps) (simp add: undec_def)
  next
    case False
    with 1 show ?thesis by (subst dec.simps) simp
  qed
qed

lemma dec_digits: "c \<in> set (dec n) \<Longrightarrow> isdigit c"
proof (induction n rule: dec.induct)
  case (1 n)
  then show ?case by (cases "n < 10") (auto simp: dec.simps [of n])
qed

lemma dec_nonempty [simp]: "dec n \<noteq> []"
  by (subst dec.simps) simp

lemma dec_inject [simp]: "dec m = dec n \<longleftrightarrow> m = n"
  by (metis undec_dec)

lemma NUL_notin_dec [simp]: "NUL \<notin> set (dec n)"
  using dec_digits isdigit_not_NUL by blast

lemma length_dec_bound: "n < 10 ^ k \<Longrightarrow> 0 < k \<Longrightarrow> length (dec n) \<le> k"
proof (induction k arbitrary: n)
  case (Suc k)
  show ?case
  proof (cases "n < 10")
    case True
    then show ?thesis by (subst dec.simps) simp
  next
    case False
    with Suc.prems have k: "0 < k" by (cases k) auto
    moreover have "n div 10 < 10 ^ k" using Suc.prems by (simp add: less_mult_imp_div_less mult.commute)
    ultimately have "length (dec (n div 10)) \<le> k" by (rule Suc.IH [rotated])
    with False show ?thesis by (subst dec.simps) simp
  qed
qed simp

text \<open>\<open>%06d\<close> of a non-negative value: padded with zeros to at least \<open>w\<close> digits.\<close>

definition pad0 :: "nat \<Rightarrow> string \<Rightarrow> string" where
  "pad0 w ds = replicate (w - length ds) (CHR ''0'') @ ds"

lemma undec_zeros: "undec (replicate k (CHR ''0'') @ ds) = undec ds"
  by (induction k) (simp_all add: undec_def digit_val_def)

lemma undec_pad0 [simp]: "undec (pad0 w ds) = undec ds"
  by (simp add: pad0_def undec_zeros)

lemma pad0_dec_inject [simp]: "pad0 w (dec m) = pad0 w (dec n) \<longleftrightarrow> m = n"
  by (metis undec_pad0 undec_dec)

text \<open>
  \<open>atoi\<close>: leading white space, an optional sign, decimal digits; 0 when there are none.  The
  C standard leaves the result undefined when the value is not an \<open>int\<close>.
\<close>

definition atoi :: "string \<Rightarrow> int res" where
  "atoi s =
    (let t = dropWhile isspace s;
         neg = (t \<noteq> [] \<and> hd t = CHR ''-'');
         u = (if t \<noteq> [] \<and> hd t \<in> {CHR ''-'', CHR ''+''} then tl t else t);
         v = int (undec (takeWhile isdigit u));
         i = (if neg then - v else v)
     in if int_ok i then Inr i else Inl (Ub Signed_Overflow))"

lemma takeWhile_isdigit_dec [simp]: "takeWhile isdigit (dec n @ r) = dec n @ takeWhile isdigit r"
  by (rule takeWhile_append2) (rule dec_digits)

lemma takeWhile_isdigit_dec' [simp]: "takeWhile isdigit (dec n) = dec n"
  by (simp add: takeWhile_eq_all_conv dec_digits)

lemma hd_dec: "isdigit (hd (dec n))"
  using dec_digits [of "hd (dec n)" n] by simp

lemma atoi_dec: "int n \<le> INT_MAX \<Longrightarrow> atoi (dec n) = Inr (int n)"
proof -
  assume n: "int n \<le> INT_MAX"
  have h: "hd (dec n) \<noteq> CHR ''-''" "hd (dec n) \<noteq> CHR ''+''"
    using isdigit_not_CR [OF hd_dec [of n]] by auto
  have "dropWhile isspace (dec n) = dec n"
    using hd_dec [of n] by (cases "dec n") auto
  with h n show ?thesis
    by (simp add: atoi_def Let_def int_ok_def INT_MIN_def)
qed

subsection \<open>\<open>strtok\<close> on a raw buffer\<close>

text \<open>
  \<open>strtok(buf, ds)\<close> skips delimiters and scans a token; the result is the token, \<open>None\<close> for
  a null pointer, and the part of the buffer where the next \<open>strtok(NULL, _)\<close> goes on.
\<close>

fun tok_skip :: "string \<Rightarrow> char list \<Rightarrow> char list res" where
  "tok_skip ds [] = Inl (Ub Out_Of_Bounds)"
| "tok_skip ds (c # cs) = (if c \<noteq> NUL \<and> c \<in> set ds then tok_skip ds cs else Inr (c # cs))"

fun tok_scan :: "string \<Rightarrow> char list \<Rightarrow> (string \<times> char list) res" where
  "tok_scan ds [] = Inl (Ub Out_Of_Bounds)"
| "tok_scan ds (c # cs) =
    (if c = NUL then Inr ([], c # cs)
     else if c \<in> set ds then Inr ([], cs)
     else bindr (tok_scan ds cs) (\<lambda>(t, r). Inr (c # t, r)))"

definition strtok :: "string \<Rightarrow> char list \<Rightarrow> (string option \<times> char list) res" where
  "strtok ds buf =
    bindr (tok_skip ds buf) (\<lambda>b.
      if hd b = NUL then Inr (None, b)
      else bindr (tok_scan ds b) (\<lambda>(t, r). Inr (Some t, r)))"

lemma tok_scan_delim:
  "NUL \<notin> set t \<Longrightarrow> set t \<inter> set ds = {} \<Longrightarrow> d \<in> set ds \<Longrightarrow> d \<noteq> NUL \<Longrightarrow>
   tok_scan ds (t @ d # r) = Inr (t, r)"
proof (induction t)
  case (Cons c t)
  then have "c \<noteq> NUL" "c \<notin> set ds" by auto
  with Cons show ?case by simp
qed simp

lemma tok_scan_NUL:
  "NUL \<notin> set t \<Longrightarrow> set t \<inter> set ds = {} \<Longrightarrow> tok_scan ds (t @ NUL # r) = Inr (t, NUL # r)"
proof (induction t)
  case (Cons c t)
  then have "c \<noteq> NUL" "c \<notin> set ds" by auto
  with Cons show ?case by simp
qed simp

lemma tok_skip_token: "t = c # t' \<Longrightarrow> c \<notin> set ds \<Longrightarrow> tok_skip ds (t @ r) = Inr (t @ r)"
  by simp

lemma strtok_token:
  assumes "t \<noteq> []" "NUL \<notin> set t" "set t \<inter> set ds = {}" "d \<in> set ds" "d \<noteq> NUL"
  shows "strtok ds (t @ d # r) = Inr (Some t, r)"
proof -
  obtain c t' where t: "t = c # t'" using assms(1) by (cases t) auto
  then have "c \<notin> set ds" "hd (t @ d # r) \<noteq> NUL" using assms(2,3) by auto
  then show ?thesis
    using tok_scan_delim [OF assms(2-5), of r] tok_skip_token [OF t, of ds "d # r"]
    by (simp add: strtok_def del: tok_scan.simps tok_skip.simps append_Cons)
qed

lemma strtok_last_token:
  assumes "t \<noteq> []" "NUL \<notin> set t" "set t \<inter> set ds = {}"
  shows "strtok ds (t @ NUL # r) = Inr (Some t, NUL # r)"
proof -
  obtain c t' where t: "t = c # t'" using assms(1) by (cases t) auto
  then have "c \<notin> set ds" "hd (t @ NUL # r) \<noteq> NUL" using assms(2,3) by auto
  then show ?thesis
    using tok_scan_NUL [OF assms(2,3), of r] tok_skip_token [OF t, of ds "NUL # r"]
    by (simp add: strtok_def del: tok_scan.simps tok_skip.simps append_Cons)
qed

lemma strtok_NUL [simp]: "strtok ds (NUL # r) = Inr (None, NUL # r)"
  by (simp add: strtok_def)

subsection \<open>\<open>strstr\<close> on a raw buffer\<close>

fun match_at :: "char list \<Rightarrow> string \<Rightarrow> bool res" where
  "match_at buf [] = Inr True"
| "match_at [] (_ # _) = Inl (Ub Out_Of_Bounds)"
| "match_at (c # cs) (p # ps) = (if c = NUL \<or> c \<noteq> p then Inr False else match_at cs ps)"

text \<open>The sources only test the result of \<open>strstr\<close> against the null pointer.\<close>

fun strstr :: "char list \<Rightarrow> string \<Rightarrow> bool res" where
  "strstr [] p = (if p = [] then Inr True else Inl (Ub Out_Of_Bounds))"
| "strstr (c # cs) p =
    bindr (match_at (c # cs) p) (\<lambda>m.
      if m then Inr True else if c = NUL then Inr False else strstr cs p)"

lemma match_at_prefix: "NUL \<notin> set p \<Longrightarrow> match_at (p @ r) p = Inr True"
  by (induction p) auto

lemma strstr_prefix: "NUL \<notin> set p \<Longrightarrow> p \<noteq> [] \<Longrightarrow> strstr (p @ r) p = Inr True"
  using match_at_prefix [of p r] by (cases p) auto

lemma match_at_neq_hd: "p \<noteq> [] \<Longrightarrow> c \<noteq> hd p \<Longrightarrow> match_at (c # cs) p = Inr False"
  by (cases p) auto

lemma strstr_skip:
  "p \<noteq> [] \<Longrightarrow> NUL \<notin> set s \<Longrightarrow> hd p \<notin> set s \<Longrightarrow> strstr (s @ r) p = strstr r p"
  by (induction s) (auto simp: match_at_neq_hd)

lemma strstr_NUL [simp]: "p \<noteq> [] \<Longrightarrow> strstr (NUL # r) p = Inr False"
  by (cases p) auto

subsection \<open>\<open>sscanf\<close>\<close>

text \<open>
  The directives the sources use: a literal character, white space, \<open>%s\<close> into an array of the
  given size, and \<open>%zu\<close>.  The result is the return value (the number of conversions, or -1 when
  the input ends before the first one) and the converted values.  \<open>%s\<close> has no width in the
  sources, so a token that does not fit the array together with its NUL is a fault.  \<open>%zu\<close> reads as
  \<open>strtoul\<close> does: an optional sign, then digits; too large a value saturates.
\<close>

datatype directive = Lit char | Ws | Str nat | Zu

datatype conv = CStr string | CNum size_t

definition strtoul_sat :: "bool \<Rightarrow> nat \<Rightarrow> size_t" where
  "strtoul_sat neg v =
    (if v \<ge> 2 ^ 64 then - 1 else if neg then - of_nat v else of_nat v)"

definition zu_sign :: "string \<Rightarrow> bool \<times> string" where
  "zu_sign s =
    (case s of [] \<Rightarrow> (False, [])
     | c # cs \<Rightarrow> if c = CHR ''-'' then (True, cs) else if c = CHR ''+'' then (False, cs) else (False, s))"

fun sscanf_go :: "directive list \<Rightarrow> string \<Rightarrow> conv list \<Rightarrow> (int \<times> conv list) res" where
  "sscanf_go [] s acc = Inr (int (length acc), acc)"
| "sscanf_go (Lit c # ds) s acc =
    (case s of [] \<Rightarrow> Inr (if acc = [] then -1 else int (length acc), acc)
     | x # xs \<Rightarrow> if x = c then sscanf_go ds xs acc else Inr (int (length acc), acc))"
| "sscanf_go (Ws # ds) s acc = sscanf_go ds (dropWhile isspace s) acc"
| "sscanf_go (Str n # ds) s acc =
    (let t = dropWhile isspace s in
     if t = [] then Inr (if acc = [] then -1 else int (length acc), acc)
     else let w = takeWhile (\<lambda>c. \<not> isspace c) t in
       if n \<le> length w then Inl (Ub Out_Of_Bounds)
       else sscanf_go ds (dropWhile (\<lambda>c. \<not> isspace c) t) (acc @ [CStr w]))"
| "sscanf_go (Zu # ds) s acc =
    (let t = dropWhile isspace s in
     if t = [] then Inr (if acc = [] then -1 else int (length acc), acc)
     else case zu_sign t of (neg, u) \<Rightarrow>
       let d = takeWhile isdigit u in
       if d = [] then Inr (int (length acc), acc)
       else sscanf_go ds (dropWhile isdigit u) (acc @ [CNum (strtoul_sat neg (undec d))]))"

definition sscanf :: "string \<Rightarrow> directive list \<Rightarrow> (int \<times> conv list) res" where
  "sscanf s ds = sscanf_go ds s []"

lemma sscanf_go_lits: "sscanf_go (map Lit p @ ds) (p @ s) acc = sscanf_go ds s acc"
  by (induction p) auto

lemma zu_sign_digit: "isdigit c \<Longrightarrow> zu_sign (c # cs) = (False, c # cs)"
  using isdigit_not_CR [of c] by (auto simp: zu_sign_def)

lemma dropWhile_isspace_dec [simp]: "dropWhile isspace (dec n @ r) = dec n @ r"
  using hd_dec [of n] by (cases "dec n") auto

lemma zu_sign_dec [simp]: "zu_sign (dec n @ r) = (False, dec n @ r)"
  using hd_dec [of n] zu_sign_digit by (cases "dec n") auto

lemma dropWhile_isdigit_dec [simp]: "dropWhile isdigit (dec n @ r) = dropWhile isdigit r"
  by (rule dropWhile_append2) (rule dec_digits)

lemma dropWhile_dec [simp]: "dropWhile isspace (dec n) = dec n" "dropWhile isdigit (dec n) = []"
  using dropWhile_isspace_dec [of n "[]"] dropWhile_isdigit_dec [of n "[]"] by simp_all

lemma zu_sign_dec' [simp]: "zu_sign (dec n) = (False, dec n)"
  using zu_sign_dec [of n "[]"] by simp

lemma isspace_SP [simp]: "isspace SP"
  by (simp add: isspace_def)

lemma strtoul_sat_small: "v < 2 ^ 64 \<Longrightarrow> strtoul_sat False v = of_nat v"
  by (simp add: strtoul_sat_def)

end
