(* ===== verification/Content.thy ===== *)
theory Content
  imports CStr "HOL-Library.Multiset"
begin

section \<open>The content tables (content.c of pr1/gflib and pr1/mtgf, simplecache.c of pr3/cache)\<close>

text \<open>
  A text file lists keys and paths; initialisation opens every path and keeps the table of keys and
  file descriptors sorted by key, and a lookup is a binary search.  The three source files differ in
  the length of a line, the exit code and whether a lookup rewinds the descriptor; those are arguments
  of the shared definitions.  \<open>open\<close> and \<open>qsort\<close> are arguments too: \<open>opn i p\<close> is the descriptor
  the \<open>i\<close>th call returns for the path \<open>p\<close> (\<open>None\<close> is a null pointer), \<open>qs\<close> sorts by a comparison
  function, and what the theorems use of them are the hypotheses \<open>qsort_spec\<close> and \<open>opn_rejects_null\<close>.
  File offsets are a map from descriptors; the simulated delay has no effect on the state.
\<close>

subsection \<open>Data\<close>

record entry =
  fildes :: int
  key :: string

type_synonym open_fn = "nat \<Rightarrow> string option \<Rightarrow> int"
type_synonym qsort_fn = "(entry \<Rightarrow> entry \<Rightarrow> int) \<Rightarrow> entry list \<Rightarrow> entry list"

definition itemcmp :: "entry \<Rightarrow> entry \<Rightarrow> int" where
  "itemcmp a b = strcmp (key a) (key b)"

definition sorted_items :: "entry list \<Rightarrow> bool" where
  "sorted_items its \<longleftrightarrow> sorted_wrt (\<lambda>a b. itemcmp a b \<le> 0) its"

definition qsort_spec :: "qsort_fn \<Rightarrow> bool" where
  "qsort_spec qs \<longleftrightarrow> (\<forall>its. mset (qs itemcmp its) = mset its \<and> sorted_items (qs itemcmp its))"

definition opn_rejects_null :: "open_fn \<Rightarrow> bool" where
  "opn_rejects_null opn \<longleftrightarrow> (\<forall>i. opn i None < 0)"

subsection \<open>Reading lines and splitting them\<close>

text \<open>\<open>fgets(buf, n, f)\<close> for \<open>n \<ge> 2\<close>: at most \<open>n - 1\<close> characters, up to and with a newline.\<close>

fun take_line :: "nat \<Rightarrow> char list \<Rightarrow> char list \<times> char list" where
  "take_line n [] = ([], [])"
| "take_line n (c # cs) =
    (if c = LF \<or> n \<le> 1 then ([c], cs)
     else case take_line (n - 1) cs of (l, r) \<Rightarrow> (c # l, r))"

definition fgets :: "nat \<Rightarrow> char list \<Rightarrow> (char list \<times> char list) option" where
  "fgets n inp = (if inp = [] then None else Some (take_line (n - 1) inp))"

definition strsep :: "string \<Rightarrow> string option \<Rightarrow> string option \<times> string option" where
  "strsep ds p =
    (case p of None \<Rightarrow> (None, None)
     | Some s \<Rightarrow>
       (Some (takeWhile (\<lambda>c. c \<notin> set ds) s),
        case dropWhile (\<lambda>c. c \<notin> set ds) s of [] \<Rightarrow> None | _ # r \<Rightarrow> Some r))"

lemma take_line_split: "take_line n inp = (l, r) \<Longrightarrow> inp = l @ r"
proof (induction n inp arbitrary: l r rule: take_line.induct)
  case (2 n c cs)
  show ?case
  proof (cases "c = LF \<or> n \<le> 1")
    case True
    with "2.prems" show ?thesis by simp
  next
    case False
    obtain l' r' where "take_line (n - 1) cs = (l', r')" by (cases "take_line (n - 1) cs")
    with False "2.prems" "2.IH" [of l' r'] show ?thesis by auto
  qed
qed simp

lemma take_line_nonempty: "take_line n (c # cs) = (l, r) \<Longrightarrow> l \<noteq> []"
  by (cases "c = LF \<or> n \<le> 1"; cases "take_line (n - 1) cs"; simp; blast)

lemma fgets_cases: "fgets n inp = Some (l, r) \<Longrightarrow> inp = l @ r \<and> l \<noteq> []"
proof -
  assume f: "fgets n inp = Some (l, r)"
  then obtain c cs where inp: "inp = c # cs" by (cases inp) (simp_all add: fgets_def)
  then have t: "take_line (n - 1) (c # cs) = (l, r)" using f by (simp add: fgets_def)
  show ?thesis using take_line_split [OF t] take_line_nonempty [OF t] inp by simp
qed

lemma fgets_shorter: "fgets n inp = Some (l, r) \<Longrightarrow> length r < length inp"
  by (drule fgets_cases) auto

lemma take_line_LF: "LF \<notin> set s \<Longrightarrow> length s < n \<Longrightarrow> take_line n (s @ LF # r) = (s @ [LF], r)"
  by (induction s arbitrary: n) auto

lemma take_line_last: "LF \<notin> set s \<Longrightarrow> length s \<le> n \<Longrightarrow> s \<noteq> [] \<Longrightarrow> take_line n s = (s, [])"
proof (induction s arbitrary: n)
  case (Cons c s)
  then show ?case by (cases s) (auto split: prod.splits)
qed simp

lemma strsep_SP: "SP \<notin> set k \<Longrightarrow> TAB \<notin> set k \<Longrightarrow> strsep [SP, TAB] (Some (k @ SP # r)) = (Some k, Some r)"
proof -
  assume "SP \<notin> set k" "TAB \<notin> set k"
  then have "\<forall>c\<in>set k. c \<notin> set [SP, TAB]" by auto
  then show ?thesis by (simp add: strsep_def takeWhile_append dropWhile_append)
qed

lemma strsep_last: "SP \<notin> set k \<Longrightarrow> TAB \<notin> set k \<Longrightarrow> strsep [SP, TAB] (Some k) = (Some k, None)"
proof -
  assume "SP \<notin> set k" "TAB \<notin> set k"
  then have "\<forall>c\<in>set k. c \<notin> set [SP, TAB]" by auto
  then have "takeWhile (\<lambda>c. c \<notin> set [SP, TAB]) k = k" "dropWhile (\<lambda>c. c \<notin> set [SP, TAB]) k = []"
    by (simp_all add: takeWhile_eq_all_conv)
  then show ?thesis by (simp only: strsep_def option.case list.case)
qed

subsection \<open>Initialisation\<close>

text \<open>
  The loop of \<open>content_init\<close>: \<open>cap\<close> is the allocated number of items, \<open>its\<close> the items read so
  far.  A line is stored in \<open>items[nitems]\<close>, its last character is cut off (it is written at index
  \<open>strlen - 1\<close>, so a line that starts with NUL is a write outside the array), and the first two fields
  are the key and the path.  \<open>malloc\<close> and \<open>realloc\<close> are taken to succeed, which is why the two counters of type
  \<open>int\<close> are natural numbers here: \<open>capacity *= 2\<close> overflows for \<open>2 ^ 30\<close> lines, for which the items would need more than
  \<open>2 ^ 38\<close> bytes of memory.
\<close>

function content_load ::
  "nat \<Rightarrow> int \<Rightarrow> open_fn \<Rightarrow> nat \<Rightarrow> entry list \<Rightarrow> char list \<Rightarrow> (entry list \<times> nat) res" where
  "content_load maxlen ec opn cap its inp =
    (case fgets maxlen inp of
       None \<Rightarrow> Inr (its, cap)
     | Some (line, rest) \<Rightarrow>
       if cap \<le> length its then Inl (Ub Out_Of_Bounds)
       else let s = takeWhile (\<lambda>c. c \<noteq> NUL) line in
         if s = [] then Inl (Ub Out_Of_Bounds)
         else let (k, ptr) = strsep [SP, TAB] (Some (butlast s));
                  (path, _) = strsep [SP, TAB] ptr;
                  fd = opn (length its) path
              in if fd < 0 then Inl (Exit ec)
                 else let its' = its @ [\<lparr>fildes = fd, key = the k\<rparr>];
                          cap' = (if length its' = cap then cap * 2 else cap)
                      in content_load maxlen ec opn cap' its' rest)"
  by pat_completeness auto
termination
  by (relation "measure (\<lambda>(_, _, _, _, _, inp). length inp)") (auto dest: fgets_shorter)

declare content_load.simps [simp del]

definition table_init :: "nat \<Rightarrow> int \<Rightarrow> open_fn \<Rightarrow> qsort_fn \<Rightarrow> char list option \<Rightarrow> (int \<times> entry list) res" where
  "table_init maxlen ec opn qs file =
    (case file of None \<Rightarrow> Inl (Exit ec)
     | Some inp \<Rightarrow>
       bindr (content_load maxlen ec opn 16 [] inp) (\<lambda>(its, cap).
         Inr (EXIT_SUCCESS, qs itemcmp its)))"

definition content_init :: "open_fn \<Rightarrow> qsort_fn \<Rightarrow> char list option \<Rightarrow> (int \<times> entry list) res" where
  "content_init = table_init 256 EXIT_FAILURE"

definition mt_content_init :: "open_fn \<Rightarrow> qsort_fn \<Rightarrow> char list option \<Rightarrow> (int \<times> entry list) res" where
  "mt_content_init = table_init 256 EXIT_FAILURE"

definition CACHE_FAILURE :: int where "CACHE_FAILURE = -1"

definition simplecache_init :: "open_fn \<Rightarrow> qsort_fn \<Rightarrow> char list option \<Rightarrow> (int \<times> entry list) res" where
  "simplecache_init = table_init 1024 CACHE_FAILURE"

subsection \<open>Lookup and destruction\<close>

function bsearch :: "entry list \<Rightarrow> string \<Rightarrow> int \<Rightarrow> int \<Rightarrow> int res" where
  "bsearch its k lo hi =
    (if lo \<le> hi then
       let mid = lo + (hi - lo) div 2 in
       if mid < 0 \<or> int (length its) \<le> mid then Inl (Ub Out_Of_Bounds)
       else let cmp = strcmp k (key (its ! nat mid)) in
         if cmp < 0 then bsearch its k lo (mid - 1)
         else if cmp > 0 then bsearch its k (mid + 1) hi
         else Inr mid
     else Inr (-1))"
  by pat_completeness auto
termination
  by (relation "measure (\<lambda>(_, _, lo, hi). nat (hi - lo + 1))") (auto simp: Let_def)

declare bsearch.simps [simp del]

text \<open>The descriptor for a key, or -1; the gflib table and the cache rewind the descriptor first.\<close>

definition content_get :: "entry list \<Rightarrow> string \<Rightarrow> (int \<Rightarrow> nat) \<Rightarrow> (int \<times> (int \<Rightarrow> nat)) res" where
  "content_get its k offs =
    bindr (bsearch its k 0 (int (length its) - 1)) (\<lambda>i.
      if i < 0 then Inr (-1, offs)
      else let fd = fildes (its ! nat i) in Inr (fd, offs(fd := 0)))"

definition simplecache_get :: "entry list \<Rightarrow> string \<Rightarrow> (int \<Rightarrow> nat) \<Rightarrow> (int \<times> (int \<Rightarrow> nat)) res" where
  "simplecache_get its k offs =
    bindr (bsearch its k 0 (int (length its) - 1)) (\<lambda>i.
      if i < 0 then Inr (-1, offs)
      else let fd = fildes (its ! nat i) in Inr (fd, offs(fd := 0)))"

definition mt_content_get :: "entry list \<Rightarrow> string \<Rightarrow> int res" where
  "mt_content_get its k =
    bindr (bsearch its k 0 (int (length its) - 1)) (\<lambda>i.
      if i < 0 then Inr (-1) else Inr (fildes (its ! nat i)))"

text \<open>Every descriptor of the table is closed, in order; the table itself is freed (\<open>None\<close>).\<close>

definition content_destroy :: "entry list \<Rightarrow> int set \<Rightarrow> int set \<times> entry list option" where
  "content_destroy its fds = (foldl (\<lambda>s e. s - {fildes e}) fds its, None)"

definition mt_content_destroy :: "entry list \<Rightarrow> int set \<Rightarrow> int set \<times> entry list option" where
  "mt_content_destroy = content_destroy"

definition simplecache_destroy :: "entry list \<Rightarrow> int set \<Rightarrow> int set \<times> entry list option" where
  "simplecache_destroy = content_destroy"

subsection \<open>The binary search\<close>

lemma sorted_items_nth:
  "sorted_items its \<Longrightarrow> i \<le> j \<Longrightarrow> j < length its \<Longrightarrow> strcmp (key (its ! i)) (key (its ! j)) \<le> 0"
  by (cases "i = j") (auto simp: sorted_items_def itemcmp_def sorted_wrt_iff_nth_less)

text \<open>Two-sided invariant: everything left of \<open>lo\<close> is smaller than the key, everything right of \<open>hi\<close> larger.\<close>

lemma bsearch_correct:
  assumes "sorted_items its" "0 \<le> lo" "hi < int (length its)"
    and "\<forall>i < length its. int i < lo \<longrightarrow> strcmp k (key (its ! i)) > 0"
    and "\<forall>i < length its. hi < int i \<longrightarrow> strcmp k (key (its ! i)) < 0"
  shows "\<exists>r. bsearch its k lo hi = Inr r \<and>
    (if r < 0 then r = -1 \<and> k \<notin> key ` set its
     else nat r < length its \<and> key (its ! nat r) = k)"
  using assms(2-)
proof (induction "nat (hi - lo + 1)" arbitrary: lo hi rule: less_induct)
  case less
  show ?case
  proof (cases "lo \<le> hi")
    case False
    have "k \<noteq> key (its ! i)" if "i < length its" for i
      using less.prems(3,4) that False by (cases "int i < lo") force+
    then have "k \<notin> key ` set its" by (metis image_iff in_set_conv_nth)
    with False show ?thesis by (simp add: bsearch.simps [of its k lo hi])
  next
    case True
    define mid where "mid = lo + (hi - lo) div 2"
    have mid: "lo \<le> mid" "mid \<le> hi" "0 \<le> mid" "mid < int (length its)"
      using True less.prems(1,2) by (auto simp: mid_def)
    define km where "km = key (its ! nat mid)"
    have step: "bsearch its k lo hi =
        (if strcmp k km < 0 then bsearch its k lo (mid - 1)
         else if strcmp k km > 0 then bsearch its k (mid + 1) hi else Inr mid)"
      using True mid by (simp add: bsearch.simps [of its k lo hi] mid_def [symmetric] km_def Let_def)
    consider (lt) "strcmp k km < 0" | (gt) "strcmp k km > 0" | (eq) "strcmp k km = 0" by linarith
    then show ?thesis
    proof cases
      case lt
      have "strcmp k (key (its ! i)) < 0" if "i < length its" "mid - 1 < int i" for i
        using strcmp_less_le_trans [OF lt] sorted_items_nth [OF assms(1), of "nat mid" i] that mid
        by (auto simp: km_def)
      with less.hyps [of "mid - 1" lo] less.prems mid lt step show ?thesis by auto
    next
      case gt
      then have "strcmp km k < 0" by (simp add: strcmp_sym [of km k])
      then have "strcmp k (key (its ! i)) > 0" if "i < length its" "int i < mid + 1" for i
        using strcmp_le_less_trans [of "key (its ! i)" km k] sorted_items_nth [OF assms(1), of i "nat mid"] that mid
        by (auto simp: km_def strcmp_sym [of k])
      with less.hyps [of hi "mid + 1"] less.prems mid gt step show ?thesis by auto
    next
      case eq
      with step mid show ?thesis by (auto simp: km_def)
    qed
  qed
qed

lemma bsearch_table:
  assumes "sorted_items its"
  shows "\<exists>r. bsearch its k 0 (int (length its) - 1) = Inr r \<and>
    (if r < 0 then r = -1 \<and> k \<notin> key ` set its
     else nat r < length its \<and> key (its ! nat r) = k)"
  by (rule bsearch_correct [OF assms]) auto

lemma get_of_bsearch:
  assumes "sorted_items its"
  shows "\<exists>fd offs'. content_get its k offs = Inr (fd, offs') \<and>
    (if k \<in> key ` set its then (\<exists>e\<in>set its. key e = k \<and> fildes e = fd) \<and> offs' = offs(fd := 0)
     else fd = -1 \<and> offs' = offs)"
proof -
  obtain r where r: "bsearch its k 0 (int (length its) - 1) = Inr r"
    "if r < 0 then r = -1 \<and> k \<notin> key ` set its else nat r < length its \<and> key (its ! nat r) = k"
    using bsearch_table [OF assms] by blast
  show ?thesis
  proof (cases "r < 0")
    case True
    then show ?thesis using r by (simp add: content_get_def)
  next
    case False
    then have "its ! nat r \<in> set its" "key (its ! nat r) = k" using r(2) by auto
    then show ?thesis using False r(1) by (auto simp: content_get_def Let_def)
  qed
qed

lemma mt_content_get_eq: "mt_content_get its k = map_sum id fst (content_get its k offs)"
  by (cases "bsearch its k 0 (int (length its) - 1)")
    (simp_all add: mt_content_get_def content_get_def Let_def)

lemma simplecache_get_eq: "simplecache_get its k offs = content_get its k offs"
  by (simp add: simplecache_get_def content_get_def)

lemma find_key:
  "e \<in> set its \<Longrightarrow> key e = k \<Longrightarrow> distinct (map key its) \<Longrightarrow> find (\<lambda>e. key e = k) its = Some e"
  by (induction its) (force split: if_splits)+

lemma find_key_None: "k \<notin> key ` set its \<Longrightarrow> find (\<lambda>e. key e = k) its = None"
  by (auto simp: find_None_iff)

lemma destroy_closes: "fst (content_destroy its fds) = fds - fildes ` set its"
  by (induction its arbitrary: fds) (auto simp: content_destroy_def)

subsection \<open>The initialisation loop on a well-formed file\<close>

fun render :: "(string \<times> string) list \<Rightarrow> char list" where
  "render [] = []"
| "render ((k, p) # r) = k @ SP # p @ LF # render r"

definition plain :: "string \<Rightarrow> bool" where
  "plain s \<longleftrightarrow> NUL \<notin> set s \<and> SP \<notin> set s \<and> TAB \<notin> set s \<and> LF \<notin> set s"

definition line_ok :: "nat \<Rightarrow> string \<times> string \<Rightarrow> bool" where
  "line_ok maxlen kp \<longleftrightarrow> plain (fst kp) \<and> plain (snd kp) \<and> length (fst kp) + length (snd kp) + 3 \<le> maxlen"

fun opened :: "open_fn \<Rightarrow> nat \<Rightarrow> (string \<times> string) list \<Rightarrow> entry list" where
  "opened opn n [] = []"
| "opened opn n ((k, p) # r) = \<lparr>fildes = opn n (Some p), key = k\<rparr> # opened opn (Suc n) r"

lemma opened_keys: "key ` set (opened opn n kps) = fst ` set kps"
  by (induction opn n kps rule: opened.induct) auto

lemma takeWhile_no_NUL: "NUL \<notin> set s \<Longrightarrow> takeWhile (\<lambda>c. c \<noteq> NUL) s = s"
  by (induction s) auto

text \<open>One turn of the loop, on a line whose characters up to a NUL are \<open>s\<close> and a last one.\<close>

lemma content_load_step:
  assumes "fgets maxlen inp = Some (line, rest)" "length its < cap"
    and "takeWhile (\<lambda>c. c \<noteq> NUL) line = s @ [c]"
    and "strsep [SP, TAB] (Some s) = (Some k, ptr)" "strsep [SP, TAB] ptr = (path, x)"
  shows "content_load maxlen ec opn cap its inp =
    (if opn (length its) path < 0 then Inl (Exit ec)
     else let its' = its @ [\<lparr>fildes = opn (length its) path, key = k\<rparr>]
          in content_load maxlen ec opn (if length its' = cap then cap * 2 else cap) its' rest)"
  using assms by (subst content_load.simps) (simp add: Let_def)

lemma content_load_line:
  assumes "line_ok maxlen (k, p)" "length its < cap" "opn (length its) (Some p) \<ge> 0"
  shows "content_load maxlen ec opn cap its (k @ SP # p @ LF # rest) =
    (let its' = its @ [\<lparr>fildes = opn (length its) (Some p), key = k\<rparr>]
     in content_load maxlen ec opn (if length its' = cap then cap * 2 else cap) its' rest)"
proof -
  have "take_line (maxlen - 1) ((k @ SP # p) @ LF # rest) = ((k @ SP # p) @ [LF], rest)"
    using assms(1) by (intro take_line_LF) (auto simp: line_ok_def plain_def)
  then have f: "fgets maxlen (k @ SP # p @ LF # rest) = Some ((k @ SP # p) @ [LF], rest)"
    by (simp add: fgets_def)
  have t: "takeWhile (\<lambda>c. c \<noteq> NUL) ((k @ SP # p) @ [LF]) = (k @ SP # p) @ [LF]"
    using assms(1) by (intro takeWhile_no_NUL) (auto simp: line_ok_def plain_def)
  moreover have "strsep [SP, TAB] (Some (k @ SP # p)) = (Some k, Some p)"
    "strsep [SP, TAB] (Some p) = (Some p, None)"
    using assms(1) strsep_SP strsep_last by (auto simp: line_ok_def plain_def)
  ultimately show ?thesis
    using content_load_step [OF f assms(2), of "k @ SP # p" LF k "Some p" "Some p" None] assms(3) t
    by (metis (no_types, lifting) linorder_not_le)
qed

lemma content_load_render:
  assumes "list_all (line_ok maxlen) kps" "length its < cap"
    and "\<forall>e\<in>set (opened opn (length its) kps). fildes e \<ge> 0"
  shows "\<exists>cap'. content_load maxlen ec opn cap its (render kps) =
    Inr (its @ opened opn (length its) kps, cap')"
  using assms
proof (induction kps arbitrary: its cap)
  case Nil
  then show ?case by (simp add: content_load.simps fgets_def)
next
  case (Cons kp kps)
  obtain k p where kp: "kp = (k, p)" by (cases kp)
  let ?its = "its @ [\<lparr>fildes = opn (length its) (Some p), key = k\<rparr>]"
  let ?cap = "if length ?its = cap then cap * 2 else cap"
  have "\<exists>cap'. content_load maxlen ec opn ?cap ?its (render kps) =
      Inr (?its @ opened opn (length ?its) kps, cap')"
    using Cons.prems kp by (intro Cons.IH) auto
  then show ?case
    using Cons.prems kp content_load_line [of maxlen k p its cap opn ec "render kps"]
    by (auto simp: Let_def)
qed

lemma content_load_safe:
  "NUL \<notin> set inp \<Longrightarrow> length its < cap \<Longrightarrow> content_load maxlen ec opn cap its inp \<noteq> Inl (Ub u)"
proof (induction inp arbitrary: its cap rule: length_induct)
  case (1 inp)
  show ?case
  proof (cases "fgets maxlen inp")
    case None
    then show ?thesis by (simp add: content_load.simps)
  next
    case (Some lr)
    obtain line rest where lr: "lr = (line, rest)" by (cases lr)
    then have inp: "inp = line @ rest" "line \<noteq> []" "length rest < length inp"
      using Some fgets_cases fgets_shorter by blast+
    then have t: "takeWhile (\<lambda>c. c \<noteq> NUL) line = line" using "1.prems" by (simp add: takeWhile_no_NUL)
    have IH: "content_load maxlen ec opn cap' its' rest \<noteq> Inl (Ub u)" if "length its' < cap'" for cap' its'
      using "1.IH" inp "1.prems" that by auto
    obtain s c where sc: "takeWhile (\<lambda>c. c \<noteq> NUL) line = s @ [c]"
      using t inp(2) by (metis append_butlast_last_id)
    obtain k ptr where k: "strsep [SP, TAB] (Some s) = (Some k, ptr)" by (simp add: strsep_def)
    obtain path x where path: "strsep [SP, TAB] ptr = (path, x)" by (cases "strsep [SP, TAB] ptr")
    show ?thesis
      using content_load_step [OF Some [unfolded lr] "1.prems"(2) sc k path] IH "1.prems"(2)
      by (simp add: Let_def)
  qed
qed

subsection \<open>Properties\<close>

fun insert_item :: "entry \<Rightarrow> entry list \<Rightarrow> entry list" where
  "insert_item e [] = [e]"
| "insert_item e (f # fs) = (if itemcmp e f \<le> 0 then e # f # fs else f # insert_item e fs)"

text \<open>One function that meets \<open>qsort_spec\<close>, for the closed examples.\<close>

definition sort_items :: "qsort_fn" where
  "sort_items cmp its = foldr insert_item its []"

lemma insert_item_sorted: "sorted_items fs \<Longrightarrow> sorted_items (insert_item e fs) \<and> mset (insert_item e fs) = mset (e # fs)"
proof (induction fs)
  case Nil
  then show ?case by (simp add: sorted_items_def)
next
  case (Cons f fs)
  show ?case
  proof (cases "itemcmp e f \<le> 0")
    case True
    then show ?thesis using Cons.prems strcmp_trans
      by (fastforce simp: sorted_items_def itemcmp_def)
  next
    case False
    then have "itemcmp f e \<le> 0" by (simp add: itemcmp_def strcmp_sym [of "key f"])
    moreover have "sorted_items (insert_item e fs)" "mset (insert_item e fs) = mset (e # fs)"
      using Cons by (auto simp: sorted_items_def)
    moreover from this have "set (insert_item e fs) = insert e (set fs)"
      by (metis list.simps(15) set_mset_mset)
    ultimately show ?thesis using Cons.prems False by (auto simp: sorted_items_def)
  qed
qed

lemma sort_items_spec: "qsort_spec sort_items"
proof -
  have "sorted_items (foldr insert_item its []) \<and> mset (foldr insert_item its []) = mset its" for its
    by (induction its) (auto simp: insert_item_sorted, simp add: sorted_items_def)
  then show ?thesis by (simp add: qsort_spec_def sort_items_def)
qed

definition example_files :: "(string \<times> string) list" where
  "example_files = [(''/b'', ''f2''), (''/a'', ''f1'')]"

definition example_open :: open_fn where
  "example_open i p = (case p of None \<Rightarrow> -1 | Some _ \<Rightarrow> 3 + int i)"

text \<open>C21. The content table of pr1/gflib.  Initialised from a file of "key path" lines whose paths all
  open, it holds one entry per line (and the process does not end), and a lookup then returns, for
  every string, the descriptor of a line with that key, rewound to offset 0, or -1 when no line has
  it; no lookup reads outside the table.\<close>

theorem content_init_then_get:
  assumes "qsort_spec qs" "list_all (line_ok 256) kps"
    and "\<forall>e\<in>set (opened opn 0 kps). fildes e \<ge> 0"
  shows "\<exists>tab. content_init opn qs (Some (render kps)) = Inr (EXIT_SUCCESS, tab) \<and>
    mset tab = mset (opened opn 0 kps) \<and>
    (\<forall>k offs. \<exists>fd offs'. content_get tab k offs = Inr (fd, offs') \<and>
      (if k \<in> fst ` set kps
       then (\<exists>e\<in>set (opened opn 0 kps). key e = k \<and> fildes e = fd) \<and> offs' = offs(fd := 0)
       else fd = -1 \<and> offs' = offs))"
proof -
  define tab where "tab = qs itemcmp (opened opn 0 kps)"
  have tab: "mset tab = mset (opened opn 0 kps)" "sorted_items tab"
    using assms(1) by (simp_all add: tab_def qsort_spec_def)
  then have set: "set tab = set (opened opn 0 kps)" by (metis set_mset_mset)
  have "content_init opn qs (Some (render kps)) = Inr (EXIT_SUCCESS, tab)"
    using content_load_render [of 256 kps "[]" 16 opn EXIT_FAILURE] assms(2,3)
    by (auto simp: content_init_def table_init_def tab_def)
  then show ?thesis
    using tab(1) get_of_bsearch [OF tab(2)] unfolding set opened_keys by blast
qed

theorem content_init_then_get_witness:
  "\<exists>tab. content_init example_open sort_items (Some (render example_files)) = Inr (EXIT_SUCCESS, tab) \<and>
    mset tab = mset (opened example_open 0 example_files) \<and>
    (\<forall>k offs. \<exists>fd offs'. content_get tab k offs = Inr (fd, offs') \<and>
      (if k \<in> fst ` set example_files
       then (\<exists>e\<in>set (opened example_open 0 example_files). key e = k \<and> fildes e = fd) \<and> offs' = offs(fd := 0)
       else fd = -1 \<and> offs' = offs))"
  by (rule content_init_then_get [OF sort_items_spec])
    (simp_all add: example_files_def example_open_def line_ok_def plain_def)

text \<open>Memory safety of initialisation: on any file without NUL bytes, for each of the three programs,
  the loop never writes outside the array of items (the capacity is doubled in time) nor outside a
  key buffer; it returns or ends the process.\<close>

theorem table_init_no_ub:
  assumes "NUL \<notin> set inp"
  shows "content_init opn qs (Some inp) \<noteq> Inl (Ub u) \<and>
    mt_content_init opn qs (Some inp) \<noteq> Inl (Ub u) \<and>
    simplecache_init opn qs (Some inp) \<noteq> Inl (Ub u)"
proof -
  have "table_init maxlen ec opn qs (Some inp) \<noteq> Inl (Ub u)" for maxlen ec
    using content_load_safe [OF assms, of "[]" 16 maxlen ec opn u]
    by (auto simp: table_init_def res_simps)
  then show ?thesis by (simp add: content_init_def mt_content_init_def simplecache_init_def)
qed

theorem table_init_no_ub_witness:
  "content_init example_open sort_items (Some ''/a f1'') \<noteq> Inl (Ub Out_Of_Bounds) \<and>
    mt_content_init example_open sort_items (Some ''/a f1'') \<noteq> Inl (Ub Out_Of_Bounds) \<and>
    simplecache_init example_open sort_items (Some ''/a f1'') \<noteq> Inl (Ub Out_Of_Bounds)"
  by (rule table_init_no_ub) simp

text \<open>The end-of-line character is removed without looking at it, so the last line of a file
  that does not end in a newline loses the last character of its path.\<close>

theorem content_init_unterminated_line:
  assumes "plain k" "plain p" "p \<noteq> []" "length k + length p + 1 < 256"
    and "opn 0 (Some (butlast p)) \<ge> 0" "qsort_spec qs"
  shows "content_init opn qs (Some (k @ SP # p)) =
    Inr (EXIT_SUCCESS, [\<lparr>fildes = opn 0 (Some (butlast p)), key = k\<rparr>])"
proof -
  let ?e = "\<lparr>fildes = opn 0 (Some (butlast p)), key = k\<rparr>"
  have "take_line 255 (k @ SP # p) = (k @ SP # p, [])"
    using assms by (intro take_line_last) (auto simp: plain_def)
  then have f: "fgets 256 (k @ SP # p) = Some (k @ SP # p, [])"
    by (simp add: fgets_def)
  have t: "takeWhile (\<lambda>c. c \<noteq> NUL) (k @ SP # p) = (k @ SP # butlast p) @ [last p]"
    using assms by (subst takeWhile_no_NUL) (auto simp: plain_def)
  have "strsep [SP, TAB] (Some (k @ SP # butlast p)) = (Some k, Some (butlast p))"
    "strsep [SP, TAB] (Some (butlast p)) = (Some (butlast p), None)"
    using assms by (auto intro!: strsep_SP strsep_last simp: plain_def dest: in_set_butlastD)
  then have "content_load 256 EXIT_FAILURE opn 16 [] (k @ SP # p) = Inr ([?e], 16)"
    using content_load_step [OF f, of "[]" 16, OF _ t] assms(5)
    by (simp add: content_load.simps [of _ _ _ _ _ "[]"] fgets_def)
  moreover have "qs itemcmp [?e] = [?e]"
    using assms(6) by (metis mset_single_iff_right qsort_spec_def mset.simps)
  ultimately show ?thesis by (simp add: content_init_def table_init_def)
qed

theorem content_init_unterminated_line_witness:
  "content_init example_open sort_items (Some (''/a'' @ SP # ''f1'')) =
    Inr (EXIT_SUCCESS, [\<lparr>fildes = example_open 0 (Some (butlast ''f1'')), key = ''/a''\<rparr>])"
  by (rule content_init_unterminated_line [OF _ _ _ _ _ sort_items_spec])
    (simp_all add: plain_def example_open_def)


lemma content_get_find:
  assumes "sorted_items its" "distinct (map key its)"
  shows "content_get its k offs = Inr (case find (\<lambda>e. key e = k) its of None \<Rightarrow> (-1, offs) | Some e \<Rightarrow> (fildes e, offs(fildes e := 0)))"
proof (cases "k \<in> key ` set its")
  case True
  then obtain e where e: "e \<in> set its" "key e = k" "content_get its k offs = Inr (fildes e, offs(fildes e := 0))"
    using get_of_bsearch [OF assms(1), of k offs] by auto
  then show ?thesis using find_key [OF e(1,2) assms(2)] by simp
next
  case False
  then show ?thesis using get_of_bsearch [OF assms(1), of k offs] find_key_None [OF False] by auto
qed

text \<open>C25. The binary search of the three tables is the linear one: on a sorted table without duplicate keys, the lookups of pr1/gflib,
  pr1/mtgf and the cache return the descriptor of the entry that a search from the front finds, and -1 when it
  finds none; the first and the last also rewind just this descriptor.\<close>

theorem lookups_are_linear:
  assumes "sorted_items its" "distinct (map key its)"
  shows "content_get its k offs = Inr (case find (\<lambda>e. key e = k) its of None \<Rightarrow> (-1, offs) | Some e \<Rightarrow> (fildes e, offs(fildes e := 0))) \<and>
    simplecache_get its k offs = content_get its k offs \<and>
    mt_content_get its k = Inr (case find (\<lambda>e. key e = k) its of None \<Rightarrow> -1 | Some e \<Rightarrow> fildes e)"
  using content_get_find [OF assms] by (simp add: simplecache_get_eq mt_content_get_eq [where offs = offs] split: option.splits)

theorem lookups_are_linear_witness:
  "mt_content_get [\<lparr>fildes = 4, key = ''/a''\<rparr>, \<lparr>fildes = 3, key = ''/b''\<rparr>] ''/b'' = Inr 3"
proof -
  have "sorted_items [\<lparr>fildes = 4, key = ''/a''\<rparr>, \<lparr>fildes = 3, key = ''/b''\<rparr>]"
    by (simp add: sorted_items_def itemcmp_def less_char_def)
  then show ?thesis using lookups_are_linear [of "[\<lparr>fildes = 4, key = ''/a''\<rparr>, \<lparr>fildes = 3, key = ''/b''\<rparr>]" "''/b''"] by simp
qed

subsection \<open>The table of a list of files\<close>

text \<open>What the programs that start with a list of files use of their tables.\<close>

lemma opened_entry: "x \<in> set (opened opn n kps) \<Longrightarrow>
    \<exists>i<length kps. key x = fst (kps ! i) \<and> fildes x = opn (n + i) (Some (snd (kps ! i)))"
proof (induction opn n kps rule: opened.induct)
  case (2 opn n k p r)
  show ?case
  proof (cases "x \<in> set (opened opn (Suc n) r)")
    case True
    then obtain i where "i < length r" "key x = fst (r ! i)" "fildes x = opn (Suc n + i) (Some (snd (r ! i)))" using 2 by blast
    then show ?thesis by (intro exI [of _ "Suc i"]) simp
  next
    case False
    then show ?thesis using 2(2) by (intro exI [of _ 0]) simp
  qed
qed simp

lemma sorted_distinct_table:
  assumes "tab = qs itemcmp (opened opn 0 kps)" "qsort_spec qs" "distinct (map fst kps)"
  shows "sorted_items tab \<and> distinct (map key tab)"
proof -
  have t: "mset tab = mset (opened opn 0 kps)" "sorted_items tab" using assms(1,2) by (simp_all add: qsort_spec_def)
  have "map key (opened opn n kps) = map fst kps" for n by (induction opn n kps rule: opened.induct) auto
  then have "mset (map key tab) = mset (map fst kps)" using t(1) by (metis mset_map)
  then show ?thesis using t(2) assms(3) by (metis mset_eq_imp_distinct_iff)
qed

lemma table_lookup:
  assumes "tab = qs itemcmp (opened opn 0 kps)" "qsort_spec qs" "distinct (map fst kps)"
  shows "case map_of kps p of None \<Rightarrow> find (\<lambda>x. key x = p) tab = None
    | Some f \<Rightarrow> \<exists>i x. i < length kps \<and> kps ! i = (p, f) \<and> find (\<lambda>x. key x = p) tab = Some x \<and> fildes x = opn i (Some f)"
proof -
  have set: "set tab = set (opened opn 0 kps)" using assms(1,2) by (metis qsort_spec_def set_mset_mset)
  show ?thesis
  proof (cases "find (\<lambda>x. key x = p) tab")
    case None
    then have "p \<notin> key ` set tab" by (auto simp: find_None_iff)
    then have "map_of kps p = None" unfolding set opened_keys by (simp add: map_of_eq_None_iff)
    then show ?thesis using None by simp
  next
    case (Some x)
    then have "x \<in> set (opened opn 0 kps)" "key x = p" by (auto simp: find_Some_iff set [symmetric])
    then obtain i where i: "i < length kps" "p = fst (kps ! i)" "fildes x = opn i (Some (snd (kps ! i)))"
      using opened_entry [of x opn 0 kps] by auto
    then have "map_of kps p = Some (snd (kps ! i))" using assms(3) by (auto intro!: map_of_is_SomeI)
    moreover have "kps ! i = (p, snd (kps ! i))" using i(2) by simp
    ultimately show ?thesis using Some i(1,3) by auto
  qed
qed

end
