(* ===== verification/Net.thy ===== *)
theory Net
  imports CStr
begin

section \<open>Sockets as the programs see them\<close>

text \<open>
  The model of one connected stream socket: what the next calls of \<open>recv\<close> will meet (\<open>rx\<close>, data that
  arrives in arbitrary pieces, errors, and after the last piece the end of the stream), the bytes the
  kernel has accepted from \<open>send\<close> so far (\<open>tx\<close>), and what the kernel will answer to the next calls of
  \<open>send\<close> (\<open>txplan\<close>: a negative number is an error, another number the most it will accept; when the plan
  is used up it accepts everything).  Every finite behaviour of the two calls is a value of these
  fields, and every theorem quantifies over them.
\<close>

datatype rxev = RxData "char list" | RxErr

record sock =
  rx :: "rxev list"
  tx :: "char list"
  txplan :: "int list"

fun rx_take :: "nat \<Rightarrow> rxev list \<Rightarrow> int \<times> char list \<times> rxev list" where
  "rx_take n [] = (0, [], [])"
| "rx_take n (RxErr # es) = (-1, [], es)"
| "rx_take n (RxData d # es) =
    (if d = [] then rx_take n es
     else (int (length (take n d)), take n d, if length d \<le> n then es else RxData (drop n d) # es))"

definition recv :: "nat \<Rightarrow> sock \<Rightarrow> int \<times> char list \<times> sock" where
  "recv n s = (case rx_take n (rx s) of (r, d, es) \<Rightarrow> (r, d, s\<lparr>rx := es\<rparr>))"

definition send :: "char list \<Rightarrow> sock \<Rightarrow> int \<times> sock" where
  "send d s =
    (case txplan s of
       [] \<Rightarrow> (int (length d), s\<lparr>tx := tx s @ d\<rparr>)
     | n # ns \<Rightarrow>
       if n < 0 then (-1, s\<lparr>txplan := ns\<rparr>)
       else let m = min (nat n) (length d)
            in (int m, s\<lparr>tx := tx s @ take m d, txplan := ns\<rparr>))"

text \<open>The bytes that arrive before an error or the end, and the number of receive steps left.\<close>

fun rx_bytes :: "rxev list \<Rightarrow> char list" where
  "rx_bytes [] = []"
| "rx_bytes (RxErr # es) = []"
| "rx_bytes (RxData d # es) = d @ rx_bytes es"

fun rx_size :: "rxev list \<Rightarrow> nat" where
  "rx_size [] = 0"
| "rx_size (RxErr # es) = Suc (rx_size es)"
| "rx_size (RxData d # es) = Suc (length d) + rx_size es"

definition rx_clean :: "rxev list \<Rightarrow> bool" where
  "rx_clean es \<longleftrightarrow> RxErr \<notin> set es"

lemma rx_take_cases:
  assumes "rx_take n es = (r, d, es')" "0 < n"
  shows "(r = -1 \<and> d = [] \<and> \<not> rx_clean es \<and> rx_bytes es = [] \<and> rx_size es' < rx_size es) \<or>
    (r = 0 \<and> d = [] \<and> es' = [] \<and> rx_bytes es = [] \<and> rx_clean es) \<or>
    (0 < r \<and> d \<noteq> [] \<and> r = int (length d) \<and> length d \<le> n \<and> rx_bytes es = d @ rx_bytes es' \<and>
      rx_clean es = rx_clean es' \<and> rx_size es' < rx_size es)"
  using assms
proof (induction n es arbitrary: r d es' rule: rx_take.induct)
  case (3 n c es)
  show ?case
  proof (cases "c = []")
    case True
    then have "rx_take n es = (r, d, es')" using 3 by simp
    with 3 True show ?thesis by (auto simp: rx_clean_def)
  next
    case False
    show ?thesis
    proof (cases "length c \<le> n")
      case True
      with 3 False show ?thesis by (auto simp: rx_clean_def)
    next
      case F: False
      with 3 False show ?thesis by (auto simp: rx_clean_def)
    qed
  qed
qed (auto simp: rx_clean_def)

lemma rx_take_first:
  "d \<noteq> [] \<Longrightarrow> length d \<le> n \<Longrightarrow> rx_take n (RxData d # es) = (int (length d), d, es)"
  by simp

lemma recv_first: "rx s = RxData d # es \<Longrightarrow> d \<noteq> [] \<Longrightarrow> length d \<le> n \<Longrightarrow>
    recv n s = (int (length d), d, s\<lparr>rx := es\<rparr>)"
  by (simp add: recv_def)

lemma send_cases:
  assumes "send d s = (r, s')"
  shows "(r = -1 \<and> tx s' = tx s \<or> 0 \<le> r \<and> nat r \<le> length d \<and> tx s' = tx s @ take (nat r) d) \<and>
    rx s' = rx s \<and> txplan s' = tl (txplan s)"
  using assms by (auto simp: send_def Let_def split: list.splits if_splits)

text \<open>A kernel that neither fails nor stalls: every answer of the plan accepts at least one byte.\<close>

definition tx_good :: "sock \<Rightarrow> bool" where
  "tx_good s \<longleftrightarrow> (\<forall>n\<in>set (txplan s). 0 < n)"

lemma send_good:
  assumes "send d s = (r, s')" "tx_good s" "d \<noteq> []"
  shows "0 < r \<and> tx_good s'"
  using assms by (auto simp: send_def tx_good_def Let_def split: list.splits if_splits)

end
