(* ===== verification/GFServer.thy ===== *)
theory GFServer
  imports Net
begin

section \<open>The Getfile server library (pr1/gflib/gfserver.c, gfserver.h)\<close>

text \<open>
  The server object and its setters, \<open>gfs_send\<close>, \<open>gfs_sendheader\<close>, the set-up of the listening socket
  and the accept loop with its request parser.  The results of \<open>getaddrinfo\<close>, \<open>socket\<close>,
  \<open>setsockopt\<close>, \<open>bind\<close>, \<open>listen\<close> and \<open>accept\<close> are arguments; the request handler is the callback the
  server object holds.
\<close>

subsection \<open>Data and setters\<close>

definition S_GF_INVALID :: int where "S_GF_INVALID = 600"
definition S_GF_OK :: int where "S_GF_OK = 200"
definition S_GF_ERROR :: int where "S_GF_ERROR = 500"
definition S_GF_FILE_NOT_FOUND :: int where "S_GF_FILE_NOT_FOUND = 400"

lemmas gf_codes = S_GF_INVALID_def S_GF_OK_def S_GF_ERROR_def S_GF_FILE_NOT_FOUND_def

record gfcontext =
  client_socket_fd :: int
  ctx_file_len :: size_t

text \<open>A handler works on the connection of its context; its result is the connection afterwards.\<close>

type_synonym 'a handler = "gfcontext \<Rightarrow> string option \<Rightarrow> 'a option \<Rightarrow> sock \<Rightarrow> sock"

record 'a gfserver =
  handlerfunc :: "'a handler option"
  portno :: ushort
  max_npending :: int
  handlerarg :: "'a option"

definition gfserver_set_handlerarg :: "'a option \<Rightarrow> 'a gfserver \<Rightarrow> 'a gfserver" where
  "gfserver_set_handlerarg a g = g\<lparr>handlerarg := a\<rparr>"

definition gfserver_set_handler :: "'a handler option \<Rightarrow> 'a gfserver \<Rightarrow> 'a gfserver" where
  "gfserver_set_handler h g = g\<lparr>handlerfunc := h\<rparr>"

definition gfserver_set_port :: "ushort \<Rightarrow> 'a gfserver \<Rightarrow> 'a gfserver" where
  "gfserver_set_port p g = g\<lparr>portno := p\<rparr>"

definition gfserver_set_maxpending :: "int \<Rightarrow> 'a gfserver \<Rightarrow> 'a gfserver" where
  "gfserver_set_maxpending n g = g\<lparr>max_npending := n\<rparr>"

subsection \<open>Sending\<close>

text \<open>\<open>gfs_send\<close>: call \<open>send\<close> on the rest until all is sent or a call does not make progress.\<close>

function gfs_send_loop :: "char list \<Rightarrow> nat \<Rightarrow> sock \<Rightarrow> nat \<times> sock" where
  "gfs_send_loop data sent s =
    (if sent < length data then
       case send (drop sent data) s of (r, s') \<Rightarrow>
         if r \<le> 0 then (sent, s') else gfs_send_loop data (sent + nat r) s'
     else (sent, s))"
  by pat_completeness auto
termination
  by (relation "measure (\<lambda>(data, sent, s). length data - sent)") auto

declare gfs_send_loop.simps [simp del]

definition gfs_send :: "char list \<Rightarrow> sock \<Rightarrow> nat \<times> sock" where
  "gfs_send data s = gfs_send_loop data 0 s"

definition hdr_fnf :: string where "hdr_fnf = ''GETFILE FILE_NOT_FOUND '' @ CRLF2"
definition hdr_error :: string where "hdr_error = ''GETFILE ERROR '' @ CRLF2"
definition hdr_ok :: "size_t \<Rightarrow> string" where "hdr_ok n = ''GETFILE OK '' @ dec (unat n) @ [SP] @ CRLF2"
definition hdr_invalid :: string where "hdr_invalid = ''GETFILE INVALID'' @ CRLF2"

text \<open>One call of \<open>send\<close>, whose result is returned; a status without a case sends nothing.\<close>

definition gfs_sendheader :: "gfcontext \<Rightarrow> int \<Rightarrow> size_t \<Rightarrow> sock \<Rightarrow> int \<times> gfcontext \<times> sock" where
  "gfs_sendheader ctx st len s =
    (if st = S_GF_FILE_NOT_FOUND then case send hdr_fnf s of (r, s') \<Rightarrow> (r, ctx, s')
     else if st = S_GF_OK then
       case send (hdr_ok len) s of (r, s') \<Rightarrow> (r, ctx\<lparr>ctx_file_len := len\<rparr>, s')
     else if st = S_GF_ERROR then case send hdr_error s of (r, s') \<Rightarrow> (r, ctx, s')
     else (0, ctx, s))"

subsection \<open>The listening socket\<close>

text \<open>
  The loop over the address list: for every address the results of \<open>socket\<close>, \<open>setsockopt\<close> and \<open>bind\<close>.
  \<open>Inr (Some fd)\<close> is the descriptor the loop leaves in \<open>server_socket_fd\<close>, \<open>Inr None\<close> an
  uninitialised variable (an empty list).
\<close>

fun bind_loop :: "int option \<Rightarrow> (int \<times> int \<times> int) list \<Rightarrow> int option res" where
  "bind_loop cur [] = Inr cur"
| "bind_loop cur ((sk, opt, bnd) # rest) =
    (if sk < 0 then Inl (Exit 11)
     else if opt < 0 then Inl (Exit 14)
     else if bnd < 0 then bind_loop (Some sk) rest
     else Inr (Some sk))"

text \<open>Set-up up to \<open>listen\<close>; \<open>Inr None\<close> is the early return when \<open>getaddrinfo\<close> fails.\<close>

definition gfserver_listen :: "int \<Rightarrow> (int \<times> int \<times> int) list \<Rightarrow> (int \<Rightarrow> int) \<Rightarrow> int option res" where
  "gfserver_listen gai addrs listen_rc =
    (if gai \<noteq> 0 then Inr None
     else bindr (bind_loop None addrs) (\<lambda>fd.
       case fd of None \<Rightarrow> Inl (Ub Uninitialised)
       | Some fd \<Rightarrow> if listen_rc fd < 0 then Inl (Exit 1) else Inr (Some fd)))"

subsection \<open>One connection\<close>

text \<open>The test that rejects a request; \<open>strcmp\<close> with a null pointer is a fault.\<close>

definition strcmp_ptr :: "string option \<Rightarrow> string \<Rightarrow> int res" where
  "strcmp_ptr p s = (case p of None \<Rightarrow> Inl (Ub Null_Deref) | Some t \<Rightarrow> Inr (strcmp t s))"

definition request_invalid :: "string option \<Rightarrow> string option \<Rightarrow> string option \<Rightarrow> bool res" where
  "request_invalid sch mth pth =
    bindr (strcmp_ptr sch ''GETFILE'') (\<lambda>c1.
      if c1 \<noteq> 0 then Inr True
      else bindr (strcmp_ptr mth ''GET'') (\<lambda>c2.
        if c2 \<noteq> 0 then Inr True
        else case pth of None \<Rightarrow> Inr False | Some p \<Rightarrow> Inr (strcmp p ''/'' \<noteq> 0)))"

text \<open>
  The body of the accept loop for an accepted connection.  \<open>bytes_rcvd\<close> is unsigned, so an error of
  \<open>recv\<close> (-1) is not taken for the end of the stream; the buffer was cleared before.
\<close>

definition serve_conn :: "'a gfserver \<Rightarrow> int \<Rightarrow> gfcontext \<Rightarrow> sock \<Rightarrow> sock res" where
  "serve_conn g fd ctx s =
    (case recv 512 s of (r, d, s1) \<Rightarrow>
       if \<not> (size_of_int r > 0) then Inr s1
       else
         bindr (strtok [SP] (fill_buf 512 d)) (\<lambda>(sch, b1).
         bindr (strtok [SP] b1) (\<lambda>(mth, b2).
         bindr (strtok CRLF2 b2) (\<lambda>(pth, b3).
         bindr (request_invalid sch mth pth) (\<lambda>bad.
           if bad then Inr (snd (send hdr_invalid s1))
           else case handlerfunc g of
                  None \<Rightarrow> Inl (Ub Null_Deref)
                | Some h \<Rightarrow> Inr (h (ctx\<lparr>client_socket_fd := fd\<rparr>) pth (handlerarg g) s1))))))"

text \<open>
  The accept loop on the connections that arrive (\<open>Inl\<close> is a failed \<open>accept\<close>), each with the context
  that \<open>malloc\<close> returned for it: the connections after they were served, and the fault that ended
  the server, if any.
\<close>

fun serve_loop :: "'a gfserver \<Rightarrow> (gfcontext \<times> (unit + int \<times> sock)) list \<Rightarrow> sock list \<times> fault option" where
  "serve_loop g [] = ([], None)"
| "serve_loop g ((ctx, Inl _) # rest) = ([], Some (Exit 27))"
| "serve_loop g ((ctx, Inr (fd, s)) # rest) =
    (case serve_conn g fd ctx s of
       Inl e \<Rightarrow> ([], Some e)
     | Inr s' \<Rightarrow> case serve_loop g rest of (served, e) \<Rightarrow> (s' # served, e))"

text \<open>
  The whole of \<open>gfserver_serve\<close>: the listening socket, with \<open>listen_rc fd n\<close> the result of \<open>listen(fd, n)\<close>, and
  the accept loop, on the connections that arrive before the time of observation.
\<close>

definition gfserver_serve ::
  "'a gfserver \<Rightarrow> int \<Rightarrow> (int \<times> int \<times> int) list \<Rightarrow> (int \<Rightarrow> int \<Rightarrow> int) \<Rightarrow> (gfcontext \<times> (unit + int \<times> sock)) list \<Rightarrow>
   sock list \<times> fault option" where
  "gfserver_serve g gai addrs listen_rc conns =
    (case gfserver_listen gai addrs (\<lambda>fd. listen_rc fd (max_npending g)) of
       Inl e \<Rightarrow> ([], Some e)
     | Inr None \<Rightarrow> ([], None)
     | Inr (Some fd) \<Rightarrow> serve_loop g conns)"

text \<open>\<open>gfs_abort\<close> closes the connection: \<open>fds\<close> are the open descriptors.\<close>

definition gfs_abort :: "gfcontext \<Rightarrow> int set \<Rightarrow> int set" where
  "gfs_abort ctx fds = fds - {client_socket_fd ctx}"

subsection \<open>Lemmas\<close>

lemma gfs_send_loop_spec:
  "gfs_send_loop data n s = (m, s') \<Longrightarrow> n \<le> length data \<Longrightarrow>
    n \<le> m \<and> m \<le> length data \<and> tx s' = tx s @ take (m - n) (drop n data) \<and> rx s' = rx s \<and>
    (tx_good s \<longrightarrow> m = length data \<and> tx_good s')"
proof (induction data n s arbitrary: m s' rule: gfs_send_loop.induct)
  case (1 data n s)
  show ?case
  proof (cases "n < length data")
    case False
    with "1.prems" show ?thesis by (simp add: gfs_send_loop.simps [of data n s])
  next
    case True
    obtain r s1 where snd: "send (drop n data) s = (r, s1)" by (cases "send (drop n data) s")
    note sc = send_cases [OF snd]
    have good: "tx_good s \<Longrightarrow> 0 < r \<and> tx_good s1" using send_good [OF snd] True by simp
    show ?thesis
    proof (cases "r \<le> 0")
      case r: True
      with "1.prems" True snd have "m = n" "s' = s1" by (simp_all add: gfs_send_loop.simps [of data n s])
      moreover have "tx s1 = tx s" "rx s1 = rx s" "\<not> tx_good s" using sc r good by auto
      ultimately show ?thesis using True by simp
    next
      case r: False
      with "1.prems" True snd have e: "gfs_send_loop data (n + nat r) s1 = (m, s')"
        by (simp add: gfs_send_loop.simps [of data n s])
      have rl: "nat r \<le> length data - n" "tx s1 = tx s @ take (nat r) (drop n data)" "rx s1 = rx s"
        using sc r by auto
      then have le: "n + nat r \<le> length data" using True by simp
      have IH: "n + nat r \<le> m" "m \<le> length data"
        "tx s' = tx s1 @ take (m - (n + nat r)) (drop (n + nat r) data)" "rx s' = rx s1"
        "tx_good s1 \<longrightarrow> m = length data \<and> tx_good s'"
        using "1.IH" [OF True snd [symmetric] r e le] by simp_all
      have "take (nat r) (drop n data) @ take (m - (n + nat r)) (drop (n + nat r) data) =
          take (m - n) (drop n data)"
        using IH(1) take_add_drop [of "nat r" "drop n data" "m - (n + nat r)"] by (simp add: add.commute)
      with IH rl good show ?thesis by auto
    qed
  qed
qed

lemma gfs_send_spec:
  "gfs_send data s = (m, s') \<Longrightarrow>
    m \<le> length data \<and> tx s' = tx s @ take m data \<and> rx s' = rx s \<and>
    (tx_good s \<longrightarrow> m = length data \<and> tx_good s')"
  using gfs_send_loop_spec [of data 0 s m s'] by (simp add: gfs_send_def)

lemma size_of_int_pos: "0 < n \<Longrightarrow> n < 2 ^ 64 \<Longrightarrow> size_of_int n > 0"
  by (simp add: size_of_int_def word_less_alt uint_word_of_int)

definition req_text :: "string \<Rightarrow> string" where
  "req_text p = ''GETFILE GET '' @ p @ CRLF2"

lemma parse_request:
  assumes "p \<noteq> []" "set p \<inter> {NUL, CR, LF} = {}" "length (req_text p) \<le> 512"
  shows "\<exists>b1 b2 b3. strtok [SP] (fill_buf 512 (req_text p)) = Inr (Some ''GETFILE'', b1) \<and>
    strtok [SP] b1 = Inr (Some ''GET'', b2) \<and> strtok CRLF2 b2 = Inr (Some p, b3)"
proof -
  define tl where "tl = [LF, CR, LF] @ replicate (512 - length (req_text p)) NUL"
  have b: "fill_buf 512 (req_text p) = ''GETFILE'' @ SP # ''GET'' @ SP # p @ CR # tl"
    using fill_buf_eq [OF assms(3)] by (simp add: req_text_def tl_def)
  have "strtok [SP] (''GETFILE'' @ SP # ''GET'' @ SP # p @ CR # tl) =
      Inr (Some ''GETFILE'', ''GET'' @ SP # p @ CR # tl)"
    by (rule strtok_token) auto
  moreover have "strtok [SP] (''GET'' @ SP # p @ CR # tl) = Inr (Some ''GET'', p @ CR # tl)"
    by (rule strtok_token) auto
  moreover have "strtok CRLF2 (p @ CR # tl) = Inr (Some p, tl)"
    using assms(1,2) by (intro strtok_token) auto
  ultimately show ?thesis unfolding b by blast
qed

lemma serve_conn_parsed:
  assumes "p \<noteq> []" "set p \<inter> {NUL, CR, LF} = {}" "length (req_text p) \<le> 512"
    and "rx s = RxData (req_text p) # es" "handlerfunc g = Some h"
  shows "serve_conn g fd ctx s =
    (if p = ''/'' then Inr (h (ctx\<lparr>client_socket_fd := fd\<rparr>) (Some p) (handlerarg g) (s\<lparr>rx := es\<rparr>))
     else Inr (snd (send hdr_invalid (s\<lparr>rx := es\<rparr>))))"
proof -
  obtain b1 b2 b3 where t: "strtok [SP] (fill_buf 512 (req_text p)) = Inr (Some ''GETFILE'', b1)"
    "strtok [SP] b1 = Inr (Some ''GET'', b2)" "strtok CRLF2 b2 = Inr (Some p, b3)"
    using parse_request [OF assms(1-3)] by blast
  have ne: "req_text p \<noteq> []" by (simp add: req_text_def)
  then have rc: "recv 512 s = (int (length (req_text p)), req_text p, s\<lparr>rx := es\<rparr>)"
    using assms(3,4) rx_take_first [of "req_text p" 512 es] by (simp add: recv_def)
  have "size_of_int (int (length (req_text p))) > 0"
    using assms(3) ne by (intro size_of_int_pos) auto
  then show ?thesis
    using rc t assms(5) by (simp add: serve_conn_def request_invalid_def strcmp_ptr_def)
qed

subsection \<open>Properties\<close>

definition example_sock :: sock where
  "example_sock = \<lparr>rx = [], tx = [], txplan = [3, 2]\<rparr>"

text \<open>\<open>gfs_send\<close> against any kernel: what reaches the connection is a prefix of the data, of the
  returned length, and when the kernel always accepts something it is all of the data, however it is
  cut into pieces.\<close>

theorem gfs_send_complete:
  assumes "gfs_send data s = (n, s')"
  shows "n \<le> length data \<and> tx s' = tx s @ take n data \<and> (tx_good s \<longrightarrow> n = length data)"
  using gfs_send_spec [OF assms] by blast

theorem gfs_send_complete_witness:
  "(7::nat) \<le> length ''content'' \<and> tx (example_sock\<lparr>tx := ''content'', txplan := []\<rparr>) = tx example_sock @ take 7 ''content'' \<and>
    7 = length ''content''"
proof -
  have "gfs_send ''content'' example_sock = (7, example_sock\<lparr>tx := ''content'', txplan := []\<rparr>)"
    by (simp add: gfs_send_def gfs_send_loop.simps send_def example_sock_def Let_def)
  from gfs_send_complete [OF this] show ?thesis by (simp add: tx_good_def example_sock_def)
qed

text \<open>A well-formed request "GETFILE GET path" that arrives in one piece is rejected as INVALID,
  without a call of the handler, unless the path is the single character "/": the test compares the
  whole path with "/" although the protocol only asks it to start with one.\<close>

theorem serve_conn_rejects_paths:
  assumes "p \<noteq> []" "set p \<inter> {NUL, CR, LF} = {}" "length (req_text p) \<le> 512"
    and "rx s = RxData (req_text p) # es" "handlerfunc g = Some h" "txplan s = []"
  shows "\<exists>s'. serve_conn g fd ctx s = Inr s' \<and>
    (if p = ''/'' then s' = h (ctx\<lparr>client_socket_fd := fd\<rparr>) (Some p) (handlerarg g) (s\<lparr>rx := es\<rparr>)
     else tx s' = tx s @ ''GETFILE INVALID'' @ [CR, LF, CR, LF])"
  using serve_conn_parsed [OF assms(1-5), of fd ctx] assms(6)
  by (simp add: send_def hdr_invalid_def)

definition echo_handler :: "unit handler" where
  "echo_handler ctx p arg s = s\<lparr>tx := tx s @ the p\<rparr>"

definition example_server :: "unit gfserver" where
  "example_server = \<lparr>handlerfunc = Some echo_handler, portno = 10880, max_npending = 35, handlerarg = None\<rparr>"

theorem serve_conn_rejects_paths_witness:
  "\<exists>s'. serve_conn example_server 4 \<lparr>client_socket_fd = 0, ctx_file_len = 0\<rparr>
      \<lparr>rx = [RxData (req_text ''/road.jpg'')], tx = [], txplan = []\<rparr> = Inr s' \<and>
    (if ''/road.jpg'' = ''/'' then s' = echo_handler (\<lparr>client_socket_fd = 0, ctx_file_len = 0\<rparr>\<lparr>client_socket_fd := 4\<rparr>)
          (Some ''/road.jpg'') (handlerarg example_server)
          (\<lparr>rx = [RxData (req_text ''/road.jpg'')], tx = [], txplan = []\<rparr>\<lparr>rx := []\<rparr>)
     else tx s' = tx \<lparr>rx = [RxData (req_text ''/road.jpg'')], tx = [], txplan = []\<rparr> @ ''GETFILE INVALID'' @ [CR, LF, CR, LF])"
  by (rule serve_conn_rejects_paths) (simp_all add: req_text_def example_server_def)

text \<open>The byte count of \<open>recv\<close> is kept in an unsigned variable, so a receive error is treated as a
  request: the cleared buffer has no token and the server dereferences a null pointer, ending the
  whole accept loop (connections behind it are not served).\<close>

theorem serve_loop_recv_error:
  assumes "rx s = RxErr # es"
  shows "serve_loop g ((ctx, Inr (fd, s)) # rest) = ([], Some (Ub Null_Deref))"
proof -
  have "fill_buf 512 [] = NUL # replicate 511 NUL"
    using replicate_Suc [of 511 NUL] fill_buf_eq [of "[]" 512] by simp
  moreover have "size_of_int (-1) > 0" by (simp add: size_of_int_def word_gt_0)
  ultimately have "serve_conn g fd ctx s = Inl (Ub Null_Deref)"
    using assms by (simp add: serve_conn_def recv_def request_invalid_def strcmp_ptr_def)
  then show ?thesis by simp
qed

theorem serve_loop_recv_error_witness:
  "serve_loop example_server
      [(\<lparr>client_socket_fd = 0, ctx_file_len = 0\<rparr>, Inr (4, \<lparr>rx = [RxErr], tx = [], txplan = []\<rparr>)),
       (\<lparr>client_socket_fd = 0, ctx_file_len = 0\<rparr>, Inr (5, \<lparr>rx = [RxData (req_text ''/'')], tx = [], txplan = []\<rparr>))]
    = ([], Some (Ub Null_Deref))"
  by (rule serve_loop_recv_error) simp

end
