(* ===== verification/GFIO.thy ===== *)
theory GFIO
  imports GFServer
begin

section \<open>The interface of the Getfile server library that request handlers use\<close>

text \<open>
  The handlers of pr1/mtgf and pr3 call \<open>gfs_sendheader\<close> and \<open>gfs_send\<close>.  The library is linked into
  those programs as an object file; its contract (gfserver.h: the header with the status and length is
  sent, \<open>gfs_send\<close> returns once the data has been sent) is the locale \<open>gf_io\<close>, on an abstract
  connection state.  The handlers take the two functions as arguments; what is proved of them in the
  locale holds for every library that meets the contract, and the library of pr1/gflib does, on a
  connection that accepts at least 64 bytes per call: the interpretation \<open>gflib\<close>.
\<close>

type_synonym 's body_fn = "char list \<Rightarrow> 's \<Rightarrow> int \<times> 's"
type_synonym 's hdr_fn = "int \<Rightarrow> size_t \<Rightarrow> 's \<Rightarrow> int \<times> 's"

locale gf_io =
  fixes put :: "'s body_fn"
    and puthdr :: "'s hdr_fn"
    and sent :: "'s \<Rightarrow> char list"
    and hdr_text :: "int \<Rightarrow> size_t \<Rightarrow> char list"
    and healthy :: "'s \<Rightarrow> bool"
  assumes put_ok: "healthy s \<Longrightarrow>
      \<exists>s'. put d s = (int (length d), s') \<and> sent s' = sent s @ d \<and> healthy s'"
    and puthdr_ok: "healthy s \<Longrightarrow>
      \<exists>s'. puthdr st n s = (int (length (hdr_text st n)), s') \<and>
        sent s' = sent s @ hdr_text st n \<and> healthy s'"

type_synonym conn = "gfcontext \<times> sock"

definition gflib_put :: "conn body_fn" where
  "gflib_put d c = (case gfs_send d (snd c) of (n, s) \<Rightarrow> (int n, (fst c, s)))"

definition gflib_puthdr :: "conn hdr_fn" where
  "gflib_puthdr st n c = (case gfs_sendheader (fst c) st n (snd c) of (r, x, s) \<Rightarrow> (r, (x, s)))"

definition gflib_hdr :: "int \<Rightarrow> size_t \<Rightarrow> char list" where
  "gflib_hdr st n =
    (if st = S_GF_FILE_NOT_FOUND then hdr_fnf else if st = S_GF_OK then hdr_ok n
     else if st = S_GF_ERROR then hdr_error else [])"

definition gflib_healthy :: "conn \<Rightarrow> bool" where
  "gflib_healthy c \<longleftrightarrow> (\<forall>n\<in>set (txplan (snd c)). 64 \<le> n)"

definition gflib_sent :: "conn \<Rightarrow> char list" where
  "gflib_sent c = tx (snd c)"

lemma gflib_healthy_good: "gflib_healthy c \<Longrightarrow> tx_good (snd c)"
  by (force simp: gflib_healthy_def tx_good_def)

lemma length_hdr_ok: "length (hdr_ok n) \<le> 36"
proof -
  have "unat n < 10 ^ 20" using unsigned_less [of n] by (rule order.strict_trans2) simp
  then have "length (dec (unat n)) \<le> 20" by (rule length_dec_bound) simp
  then show ?thesis by (simp add: hdr_ok_def)
qed

lemma length_gflib_hdr: "length (gflib_hdr st n) \<le> 64"
  using length_hdr_ok [of n] by (simp add: gflib_hdr_def hdr_fnf_def hdr_error_def)

lemma send_small:
  "\<forall>n\<in>set (txplan s). 64 \<le> n \<Longrightarrow> length d \<le> 64 \<Longrightarrow>
   send d s = (int (length d), s\<lparr>tx := tx s @ d, txplan := tl (txplan s)\<rparr>)"
  by (cases "txplan s") (auto simp: send_def Let_def min_def)

lemma set_tl_subset: "x \<in> set (tl xs) \<Longrightarrow> x \<in> set xs"
  by (cases xs) auto

lemma gfs_send_loop_healthy:
  "\<forall>n\<in>set (txplan s). 64 \<le> n \<Longrightarrow> \<forall>n\<in>set (txplan (snd (gfs_send_loop data k s))). 64 \<le> n"
proof (induction data k s rule: gfs_send_loop.induct)
  case (1 data k s)
  obtain r s1 where snd: "send (drop k data) s = (r, s1)" by (cases "send (drop k data) s")
  then have "\<forall>n\<in>set (txplan s1). 64 \<le> n" using send_cases [OF snd] "1.prems" set_tl_subset by metis
  then show ?case using "1.IH" [OF _ snd [symmetric]] snd "1.prems"
    by (subst gfs_send_loop.simps) simp
qed

interpretation gflib: gf_io gflib_put gflib_puthdr gflib_sent gflib_hdr gflib_healthy
proof unfold_locales
  fix c :: conn and d
  assume h: "gflib_healthy c"
  obtain n s where r: "gfs_send d (snd c) = (n, s)" by (cases "gfs_send d (snd c)")
  have "gflib_healthy (fst c, s)"
    using gfs_send_loop_healthy [of "snd c" d 0] h r by (simp add: gflib_healthy_def gfs_send_def)
  with gfs_send_spec [OF r] gflib_healthy_good [OF h] r
  show "\<exists>c'. gflib_put d c = (int (length d), c') \<and> gflib_sent c' = gflib_sent c @ d \<and> gflib_healthy c'"
    by (simp add: gflib_put_def gflib_sent_def)
next
  fix c :: conn and st n
  assume h: "gflib_healthy c"
  then have p: "\<forall>k\<in>set (txplan (snd c)). 64 \<le> k" "\<forall>k\<in>set (tl (txplan (snd c))). 64 \<le> k"
    by (auto simp: gflib_healthy_def dest: set_tl_subset)
  show "\<exists>c'. gflib_puthdr st n c = (int (length (gflib_hdr st n)), c') \<and>
      gflib_sent c' = gflib_sent c @ gflib_hdr st n \<and> gflib_healthy c'"
    using send_small [OF p(1) length_gflib_hdr, of st n] p h
    by (cases c) (auto simp: gflib_puthdr_def gfs_sendheader_def gflib_hdr_def gflib_sent_def gflib_healthy_def
        gf_codes split: if_splits)
qed

end
