(* ===== verification/Files.thy ===== *)
theory Files
  imports CStr
begin

section \<open>Open files\<close>

text \<open>An open file: its bytes, its offset, and the most the next calls of \<open>read\<close> will deliver (or an error).\<close>

record rfile =
  fbytes :: "char list"
  foff :: nat
  rdplan :: "int list"

definition fread :: "nat \<Rightarrow> rfile \<Rightarrow> int \<times> char list \<times> rfile" where
  "fread n f =
    (case rdplan f of
       [] \<Rightarrow> let d = take n (drop (foff f) (fbytes f))
             in (int (length d), d, f\<lparr>foff := foff f + length d\<rparr>)
     | p # ps \<Rightarrow>
       if p < 0 then (-1, [], f\<lparr>rdplan := ps\<rparr>)
       else let d = take (min n (nat p)) (drop (foff f) (fbytes f))
            in (int (length d), d, f\<lparr>foff := foff f + length d, rdplan := ps\<rparr>))"

definition rd_good :: "rfile \<Rightarrow> bool" where
  "rd_good f \<longleftrightarrow> (\<forall>p\<in>set (rdplan f). 0 < p)"

lemma fread_cases:
  assumes "fread n f = (r, d, f')"
  shows "(r = -1 \<and> d = [] \<and> foff f' = foff f \<or>
      r = int (length d) \<and> length d \<le> n \<and> d = take (length d) (drop (foff f) (fbytes f)) \<and>
      foff f' = foff f + length d) \<and> fbytes f' = fbytes f \<and> length (rdplan f') \<le> length (rdplan f)"
  using assms by (auto simp: fread_def Let_def split: list.splits if_splits)

lemma fread_good:
  assumes "fread n f = (r, d, f')" "rd_good f" "0 < n" "foff f < length (fbytes f)"
  shows "0 < r \<and> rd_good f'"
  using assms by (auto simp: fread_def rd_good_def Let_def split: list.splits if_splits)

lemma fread_good_nonneg: "fread n f = (r, d, f') \<Longrightarrow> rd_good f \<Longrightarrow> 0 \<le> r"
  by (auto simp: fread_def rd_good_def Let_def split: list.splits if_splits)

subsection \<open>Files that are written\<close>

text \<open>
  A file opened for writing: its bytes, the offset, and what the next calls of \<open>write\<close> answer (a
  negative number is an error, another one the most it will take; everything when the plan is used up).
\<close>

record wfile =
  wbytes :: "char list"
  woff :: nat
  wrplan :: "int list"

definition overwrite :: "nat \<Rightarrow> char list \<Rightarrow> char list \<Rightarrow> char list" where
  "overwrite off d bs = take off (bs @ replicate (off - length bs) NUL) @ d @ drop (off + length d) bs"

definition fwrite :: "char list \<Rightarrow> wfile \<Rightarrow> int \<times> wfile" where
  "fwrite d f =
    (case wrplan f of
       [] \<Rightarrow> (int (length d), f\<lparr>wbytes := overwrite (woff f) d (wbytes f), woff := woff f + length d\<rparr>)
     | p # ps \<Rightarrow>
       if p < 0 then (-1, f\<lparr>wrplan := ps\<rparr>)
       else let w = take (nat p) d
            in (int (length w), f\<lparr>wbytes := overwrite (woff f) w (wbytes f), woff := woff f + length w, wrplan := ps\<rparr>))"

lemma overwrite_prefix: "overwrite (length p) d (p @ q) = p @ d @ drop (length d) q"
  by (simp add: overwrite_def)

end
