(* ===== verification/Options.thy ===== *)
theory Options
  imports CStr
begin

section \<open>Command lines\<close>

text \<open>
  All the programs read their options in a loop \<open>while ((c = getopt_long(...)) != -1) switch (c)\<close>.  The
  sequence of \<open>getopt_long\<close>'s results before the -1, each with \<open>optarg\<close>, is an argument (a \<open>?\<close> stands for
  an unknown option or a missing argument; the theory \<open>Getopt\<close> computes it from the words of the command line); the body of the switch is a function of every program.
\<close>

type_synonym opt = "char \<times> string option"

fun getopt_loop :: "('o \<Rightarrow> char \<Rightarrow> string option \<Rightarrow> 'o res) \<Rightarrow> 'o \<Rightarrow> opt list \<Rightarrow> 'o res" where
  "getopt_loop f o1 [] = Inr o1"
| "getopt_loop f o1 ((c, arg) # rest) = bindr (f o1 c arg) (\<lambda>o2. getopt_loop f o2 rest)"

definition atoi_arg :: "string option \<Rightarrow> int res" where
  "atoi_arg a = (case a of None \<Rightarrow> Inl (Ub Null_Deref) | Some s \<Rightarrow> atoi s)"

text \<open>The assignment of an \<open>int\<close> to an \<open>unsigned short\<close>.\<close>

definition to_ushort :: "int \<Rightarrow> ushort" where
  "to_ushort i = word_of_int i"

lemma uint_to_ushort: "uint (to_ushort i) = i mod 65536"
  by (simp add: to_ushort_def uint_word_of_int)

text \<open>The tests of the port, on an \<open>int\<close> and on an \<open>unsigned short\<close>.\<close>

definition port_bad :: "int \<Rightarrow> bool" where
  "port_bad p \<longleftrightarrow> p < 1025 \<or> p > 65535"

lemma port_bad_ushort: "port_bad (uint (p :: ushort)) \<longleftrightarrow> uint p < 1025"
  using uint_lt2p [of p] by (auto simp: port_bad_def)

lemma port_bad_mod: "port_bad (k mod 65536) \<longleftrightarrow> k mod 65536 < 1025"
  using pos_mod_bound [of 65536 k] by (auto simp: port_bad_def)

end
