(* ===== verification/ShmCache.thy ===== *)
theory ShmCache
  imports Steque Content GFIO Files Options
begin

section \<open>The shared-memory cache (pr3/cache: handle_with_cache.c, simplecached.c, webproxy.c)\<close>

text \<open>
  A proxy worker takes a shared-memory segment from a pool, sends the path and the name of the segment
  to the cache process through a message queue, and copies what the cache puts into the segment, block
  by block, to the client.  Three semaphores in the segment order the two.  One transfer is a step
  relation of the two threads (\<open>processResponse\<close> and \<open>sendResponse\<close>), whose steps are the code from one
  semaphore operation to the next.  \<open>shm_open\<close>, \<open>mmap\<close> and \<open>ftruncate\<close> are taken to succeed.  The size they are called with, the segment size
  and the size of the structure, wraps round only for sizes far above \<open>STACK_ROOM\<close>, for which the cache's buffer may be a fault (\<open>c_stack\<close>).
\<close>

subsection \<open>Segments and the pool\<close>

record shm_details =
  shm_id :: string
  segsize :: size_t

text \<open>\<open>snprintf(memName, 10, "Shm_%d", m)\<close>.\<close>

definition memName :: "nat \<Rightarrow> string" where
  "memName m = take 9 (''Shm_'' @ dec m)"

text \<open>The loop of \<open>initSharedMemory\<close>; \<open>mal m\<close> is the block \<open>malloc\<close> returns in the \<open>m\<close>th enqueue.\<close>

fun initSharedMemory_loop :: "(nat \<Rightarrow> addr option) \<Rightarrow> nat \<Rightarrow> nat \<Rightarrow> size_t \<Rightarrow> shm_details steque \<Rightarrow> shm_details steque res" where
  "initSharedMemory_loop mal m 0 sz q = Inr q"
| "initSharedMemory_loop mal m (Suc k) sz q =
    bindr (steque_enqueue (mal m) \<lparr>shm_id = memName m, segsize = sz\<rparr> q)
      (initSharedMemory_loop mal (Suc m) k sz)"

definition initSharedMemory :: "(nat \<Rightarrow> addr option) \<Rightarrow> nat \<Rightarrow> size_t \<Rightarrow> shm_details steque \<Rightarrow> shm_details steque res" where
  "initSharedMemory mal segments sz q = initSharedMemory_loop mal 0 segments sz (steque_init q)"

text \<open>
  The signal handler of webproxy.c: \<open>for (z = 0; z < steque_size(q); z++) shm_unlink(pop(q))\<close>, then
  \<open>steque_destroy\<close>.  The result is the list of names that were unlinked.
\<close>

lemma steque_pop_N: "steque_pop ec q = Inr (x, q') \<Longrightarrow> N q' = N q - 1"
  by (auto simp: steque_pop_def int_dec_def Let_def split: option.splits if_splits)

function sig_unlink :: "int \<Rightarrow> shm_details steque \<Rightarrow> (string list \<times> shm_details steque) res" where
  "sig_unlink z q =
    (if z < steque_size q then
       (case steque_pop (-1) q of
          Inl e \<Rightarrow> Inl e
        | Inr (shm, q') \<Rightarrow> bindr (sig_unlink (z + 1) q') (\<lambda>(us, q''). Inr (shm_id shm # us, q'')))
     else Inr ([], q))"
  by pat_completeness auto
termination
  by (relation "measure (\<lambda>(z, q). nat (N q - z))") (auto simp: steque_size_def dest!: steque_pop_N)

declare sig_unlink.simps [simp del]

definition sig_handler :: "shm_details steque \<Rightarrow> (string list \<times> shm_details steque) res option" where
  "sig_handler q =
    (case sig_unlink 0 q of
       Inl e \<Rightarrow> Some (Inl e)
     | Inr (us, q') \<Rightarrow> map_option (\<lambda>r. bindr r (\<lambda>q''. Inr (us, q''))) (steque_destroy (-1) q'))"

subsection \<open>The request message\<close>

text \<open>\<open>strncpy\<close> into an array of 128 bytes: no terminating NUL when the path does not fit.\<close>

record req_struct =
  rq_mqpath :: "char list"
  rq_shm_id :: string
  rq_segsize :: size_t

definition make_request :: "string \<Rightarrow> shm_details \<Rightarrow> req_struct" where
  "make_request path shm =
    \<lparr>rq_mqpath = take 128 path @ replicate (128 - length path) NUL, rq_shm_id = shm_id shm, rq_segsize = segsize shm\<rparr>"

text \<open>The first part of \<open>handle_with_cache\<close>: a segment from the pool, which is not empty, and the message.\<close>

definition handle_with_cache :: "string \<Rightarrow> shm_details steque \<Rightarrow> (req_struct \<times> shm_details \<times> shm_details steque) res" where
  "handle_with_cache path q =
    bindr (steque_pop (-1) q) (\<lambda>(shm, q'). Inr (make_request path shm, shm, q'))"

text \<open>
  What the cache reads as the path.  The array of the path is followed by that of the name of the segment, which \<open>strcpy\<close> has
  terminated: a path that fills its array runs on into the name.
\<close>

definition request_path :: "req_struct \<Rightarrow> string" where
  "request_path r = takeWhile (\<lambda>c. c \<noteq> NUL) (rq_mqpath r @ rq_shm_id r)"

text \<open>A turn of the cache's \<open>workerRoutine\<close> after \<open>mq_receive\<close>: the descriptor of the path in the message.\<close>

definition workerRoutine :: "entry list \<Rightarrow> req_struct \<Rightarrow> (int \<Rightarrow> nat) \<Rightarrow> (int \<times> (int \<Rightarrow> nat)) res" where
  "workerRoutine tab r offs = simplecache_get tab (request_path r) offs"

subsection \<open>One transfer\<close>

datatype proxy_pc = P_WaitLen | P_Test size_t | P_Sem size_t | P_Send size_t | P_Requeue size_t | P_Requeue404
  | P_Fnf | P_End size_t

datatype cache_pc = C_Start | C_Wait size_t | C_Copy size_t | C_End

text \<open>
  The semaphores and fields of the segment, the two threads, the connection, and whether the proxy
  has put the segment back into the pool.
\<close>

record 's shm =
  s_filelen :: nat
  s_proxy :: nat
  s_cache :: nat
  s_filesize :: size_t
  s_status :: int
  s_readlen :: size_t
  s_data :: "char list"
  s_px :: proxy_pc
  s_cx :: cache_pc
  s_conn :: 's
  s_file :: rfile
  s_requeued :: bool
  s_fault :: "fault option"

text \<open>After \<open>handle_with_cache\<close> has initialised the semaphores and sent the message.\<close>

definition shm_init :: "'s \<Rightarrow> rfile \<Rightarrow> int \<Rightarrow> size_t \<Rightarrow> 's shm" where
  "shm_init c f st0 rl0 = \<lparr>s_filelen = 0, s_proxy = 0, s_cache = 1, s_filesize = 0, s_status = st0, s_readlen = rl0,
    s_data = [], s_px = P_WaitLen, s_cx = C_Start, s_conn = c, s_file = f, s_requeued = False, s_fault = None\<rparr>"

text \<open>
  The cache worker, \<open>sendResponse\<close>.  \<open>found\<close>: the descriptor is not negative; \<open>sz\<close>: the segment size; \<open>flen\<close> is
  what \<open>lseek\<close> returns.  The number of bytes is unsigned, so a \<open>pread\<close> that fails passes the test for the
  end and becomes the size of the copies.  The buffer is an array of \<open>sz\<close> bytes on the stack of the thread, made after the first
  \<open>sem_post\<close>: up to \<open>STACK_ROOM\<close> bytes, half of the usual 8 MiB, it is taken to fit, a larger one may not (\<open>c_stack\<close>).
\<close>

definition STACK_ROOM :: nat where
  "STACK_ROOM = 4194304"

inductive sendResponse :: "bool \<Rightarrow> nat \<Rightarrow> size_t \<Rightarrow> 's shm \<Rightarrow> 's shm \<Rightarrow> bool" for found sz flen where
  c_start_404: "s_cx m = C_Start \<Longrightarrow> \<not> found \<Longrightarrow>
    sendResponse found sz flen m (m\<lparr>s_filesize := -1, s_status := 404, s_filelen := s_filelen m + 1, s_cx := C_End\<rparr>)"
| c_start: "s_cx m = C_Start \<Longrightarrow> found \<Longrightarrow>
    sendResponse found sz flen m (m\<lparr>s_filesize := flen, s_status := 200, s_filelen := s_filelen m + 1,
      s_cx := (if 0 < flen then C_Wait 0 else C_End)\<rparr>)"
| c_stack: "s_cx m = C_Start \<Longrightarrow> found \<Longrightarrow> STACK_ROOM < sz \<Longrightarrow>
    sendResponse found sz flen m (m\<lparr>s_filesize := flen, s_status := 200, s_filelen := s_filelen m + 1,
      s_fault := Some (Ub Out_Of_Bounds)\<rparr>)"
| c_wait: "s_cx m = C_Wait off \<Longrightarrow> 0 < s_cache m \<Longrightarrow>
    sendResponse found sz flen m (m\<lparr>s_cache := s_cache m - 1, s_cx := C_Copy off\<rparr>)"
| c_copy: "s_cx m = C_Copy off \<Longrightarrow> fread sz ((s_file m)\<lparr>foff := unat off\<rparr>) = (r, d, f') \<Longrightarrow> 0 < r \<Longrightarrow>
    sendResponse found sz flen m (m\<lparr>s_readlen := size_of_int r, s_data := d, s_proxy := s_proxy m + 1, s_file := f',
      s_cx := (if off + size_of_int r < flen then C_Wait (off + size_of_int r) else C_End)\<rparr>)"
| c_eof: "s_cx m = C_Copy off \<Longrightarrow> fread sz ((s_file m)\<lparr>foff := unat off\<rparr>) = (0, d, f') \<Longrightarrow>
    sendResponse found sz flen m (m\<lparr>s_file := f', s_cx := C_End\<rparr>)"
| c_fault: "s_cx m = C_Copy off \<Longrightarrow> fread sz ((s_file m)\<lparr>foff := unat off\<rparr>) = (r, d, f') \<Longrightarrow> r < 0 \<Longrightarrow>
    sendResponse found sz flen m (m\<lparr>s_fault := Some (Ub Out_Of_Bounds)\<rparr>)"

definition queueMemory :: "'s shm \<Rightarrow> 's shm" where
  "queueMemory m = m\<lparr>s_readlen := 0, s_filesize := 0, s_requeued := True\<rparr>"

text \<open>The proxy worker, \<open>processResponse\<close>; the missing file is reported after the segment was given back.\<close>

inductive processResponse :: "'s body_fn \<Rightarrow> 's hdr_fn \<Rightarrow> 's shm \<Rightarrow> 's shm \<Rightarrow> bool" for put puthdr where
  p_ok: "s_px m = P_WaitLen \<Longrightarrow> 0 < s_filelen m \<Longrightarrow> s_status m = 200 \<Longrightarrow> puthdr S_GF_OK (s_filesize m) (s_conn m) = (r, c) \<Longrightarrow>
    processResponse put puthdr m (m\<lparr>s_filelen := s_filelen m - 1, s_conn := c, s_px := P_Test 0\<rparr>)"
| p_404: "s_px m = P_WaitLen \<Longrightarrow> 0 < s_filelen m \<Longrightarrow> s_status m = 404 \<Longrightarrow>
    processResponse put puthdr m (m\<lparr>s_filelen := s_filelen m - 1, s_px := P_Requeue404\<rparr>)"
| p_other: "s_px m = P_WaitLen \<Longrightarrow> 0 < s_filelen m \<Longrightarrow> s_status m \<noteq> 200 \<Longrightarrow> s_status m \<noteq> 404 \<Longrightarrow>
    processResponse put puthdr m (m\<lparr>s_filelen := s_filelen m - 1, s_px := P_End 0\<rparr>)"
| p_test: "s_px m = P_Test tot \<Longrightarrow>
    processResponse put puthdr m (m\<lparr>s_px := (if tot < s_filesize m then P_Sem tot else P_Requeue tot)\<rparr>)"
| p_sem: "s_px m = P_Sem tot \<Longrightarrow> 0 < s_proxy m \<Longrightarrow>
    processResponse put puthdr m (m\<lparr>s_proxy := s_proxy m - 1, s_px := P_Send tot\<rparr>)"
| p_send: "s_px m = P_Send tot \<Longrightarrow> put (take (unat (s_readlen m)) (s_data m)) (s_conn m) = (w, c) \<Longrightarrow> size_of_int w \<noteq> 0 \<Longrightarrow>
    processResponse put puthdr m (m\<lparr>s_conn := c, s_cache := s_cache m + 1, s_px := P_Test (tot + size_of_int w)\<rparr>)"
| p_fail: "s_px m = P_Send tot \<Longrightarrow> put (take (unat (s_readlen m)) (s_data m)) (s_conn m) = (w, c) \<Longrightarrow> size_of_int w = 0 \<Longrightarrow>
    processResponse put puthdr m (m\<lparr>s_conn := c, s_px := P_Requeue tot\<rparr>)"
| p_requeue: "s_px m = P_Requeue tot \<Longrightarrow> processResponse put puthdr m ((queueMemory m)\<lparr>s_px := P_End tot\<rparr>)"
| p_requeue404: "s_px m = P_Requeue404 \<Longrightarrow> processResponse put puthdr m ((queueMemory m)\<lparr>s_px := P_Fnf\<rparr>)"
| p_fnf: "s_px m = P_Fnf \<Longrightarrow> puthdr S_GF_FILE_NOT_FOUND 0 (s_conn m) = (r, c) \<Longrightarrow>
    processResponse put puthdr m (m\<lparr>s_conn := c, s_px := P_End (size_of_int r)\<rparr>)"

text \<open>The two workers run in separate processes, in any interleaving.\<close>

definition shm_step :: "'s body_fn \<Rightarrow> 's hdr_fn \<Rightarrow> bool \<Rightarrow> nat \<Rightarrow> size_t \<Rightarrow> 's shm \<Rightarrow> 's shm \<Rightarrow> bool" where
  "shm_step put puthdr found sz flen m m' \<longleftrightarrow> sendResponse found sz flen m m' \<or> processResponse put puthdr m m'"

text \<open>\<open>k\<close> steps of the two threads.\<close>

inductive shm_run :: "'s body_fn \<Rightarrow> 's hdr_fn \<Rightarrow> bool \<Rightarrow> nat \<Rightarrow> size_t \<Rightarrow> 's shm \<Rightarrow> nat \<Rightarrow> 's shm \<Rightarrow> bool"
  for put puthdr found sz flen m0 where
  start: "shm_run put puthdr found sz flen m0 0 m0"
| step: "shm_run put puthdr found sz flen m0 k m \<Longrightarrow> s_fault m = None \<Longrightarrow> shm_step put puthdr found sz flen m m' \<Longrightarrow>
    shm_run put puthdr found sz flen m0 (Suc k) m'"

subsection \<open>The invariant of a transfer\<close>

fun c_off :: "nat \<Rightarrow> cache_pc \<Rightarrow> nat" where
  "c_off L C_Start = 0"
| "c_off L (C_Wait off) = unat off"
| "c_off L (C_Copy off) = unat off"
| "c_off L C_End = L"

fun p_tot :: "proxy_pc \<Rightarrow> nat" where
  "p_tot P_WaitLen = 0"
| "p_tot (P_Test t) = unat t"
| "p_tot (P_Sem t) = unat t"
| "p_tot (P_Send t) = unat t"
| "p_tot (P_Requeue t) = unat t"
| "p_tot P_Requeue404 = 0"
| "p_tot P_Fnf = 0"
| "p_tot (P_End t) = unat t"

definition is_copy :: "cache_pc \<Rightarrow> bool" where "is_copy c \<longleftrightarrow> (case c of C_Copy _ \<Rightarrow> True | _ \<Rightarrow> False)"
definition is_send :: "proxy_pc \<Rightarrow> bool" where "is_send p \<longleftrightarrow> (case p of P_Send _ \<Rightarrow> True | _ \<Rightarrow> False)"

lemma is_simps [simp]:
  "is_copy (C_Copy o1)" "\<not> is_copy C_Start" "\<not> is_copy (C_Wait o1)" "\<not> is_copy C_End"
  "is_send (P_Send t)" "\<not> is_send P_WaitLen" "\<not> is_send (P_Test t)" "\<not> is_send (P_Sem t)" "\<not> is_send (P_Requeue t)"
  "\<not> is_send P_Requeue404" "\<not> is_send P_Fnf" "\<not> is_send (P_End t)"
  by (simp_all add: is_copy_def is_send_def)

text \<open>
  One token goes round: the block belongs to the cache (\<open>s_cache\<close> or while it copies) or to the proxy
  (\<open>s_proxy\<close> or while it sends).  While it is the cache's, everything copied has been sent; while it is
  the proxy's, the block is what has been copied and not sent.
\<close>

definition shm_token :: "'s shm \<Rightarrow> bool" where
  "shm_token m \<longleftrightarrow> s_proxy m + s_cache m + of_bool (is_copy (s_cx m)) + of_bool (is_send (s_px m)) = 1"

definition shm_block :: "char list \<Rightarrow> 's shm \<Rightarrow> bool" where
  "shm_block body m \<longleftrightarrow>
    (if s_cache m = 1 \<or> is_copy (s_cx m) then p_tot (s_px m) = c_off (length body) (s_cx m)
     else s_data m = drop (p_tot (s_px m)) (take (c_off (length body) (s_cx m)) body) \<and>
       unat (s_readlen m) = length (s_data m) \<and> p_tot (s_px m) < c_off (length body) (s_cx m))"

definition shm_pcs :: "size_t \<Rightarrow> 's shm \<Rightarrow> bool" where
  "shm_pcs flen m \<longleftrightarrow>
    (case s_cx m of C_Start \<Rightarrow> s_filelen m = 0 \<and> s_px m = P_WaitLen \<and> s_cache m = 1
     | C_Wait o1 \<Rightarrow> o1 < flen | C_Copy o1 \<Rightarrow> o1 < flen | C_End \<Rightarrow> True) \<and>
    (s_cx m \<noteq> C_Start \<longrightarrow> s_status m = 200 \<and> s_filelen m = of_bool (s_px m = P_WaitLen)) \<and>
    (case s_px m of P_WaitLen \<Rightarrow> s_cx m \<noteq> C_Start \<longrightarrow> s_filesize m = flen
     | P_Test t \<Rightarrow> s_filesize m = flen | P_Sem t \<Rightarrow> t < flen \<and> s_filesize m = flen
     | P_Send t \<Rightarrow> t < flen \<and> s_filesize m = flen | P_Requeue t \<Rightarrow> t = flen | P_End t \<Rightarrow> t = flen
     | P_Requeue404 \<Rightarrow> False | P_Fnf \<Rightarrow> False) \<and>
    s_requeued m = (case s_px m of P_End t \<Rightarrow> True | _ \<Rightarrow> False)"

definition shm_data_ok :: "('s \<Rightarrow> char list) \<Rightarrow> char list \<Rightarrow> char list \<Rightarrow> char list \<Rightarrow> 's shm \<Rightarrow> bool" where
  "shm_data_ok sent base h body m \<longleftrightarrow>
    sent (s_conn m) = (if s_px m = P_WaitLen then base else base @ h @ take (p_tot (s_px m)) body) \<and>
    fbytes (s_file m) = body \<and> rd_good (s_file m) \<and> s_fault m = None"

lemma unat_add_size: "unat (o1 :: size_t) + n < 2 ^ 63 \<Longrightarrow> unat (o1 + size_of_int (int n)) = unat o1 + n"
proof -
  assume a: "unat o1 + n < 2 ^ 63"
  then have "unat (size_of_int (int n)) = n" by (simp add: unat_size_of_nat)
  then show ?thesis using a by (simp add: unat_word_ariths)
qed

text \<open>A block read by the cache.\<close>

lemma shm_read:
  assumes "fread sz (f\<lparr>foff := k\<rparr>) = (r, d, f')" "rd_good f" "0 < sz" "k < length (fbytes f)"
  shows "0 < r" "r = int (length d)" "k + length d \<le> length (fbytes f)" "d = drop k (take (k + length d) (fbytes f))"
    "fbytes f' = fbytes f" "rd_good f'"
proof -
  have g: "0 < r \<and> rd_good f'" using fread_good [OF assms(1)] assms(2-4) by (simp add: rd_good_def)
  then show "0 < r" "rd_good f'" by auto
  have c: "r = int (length d)" "d = take (length d) (drop k (fbytes f))" "fbytes f' = fbytes f"
    using fread_cases [OF assms(1)] g by auto
  then show "r = int (length d)" "fbytes f' = fbytes f" by auto
  have "length d \<le> length (fbytes f) - k" using c(2) by (metis length_drop length_take min.cobounded1 min.commute)
  then show "k + length d \<le> length (fbytes f)" using assms(4) by linarith
  show "d = drop k (take (k + length d) (fbytes f))" using c(2) by (simp add: take_drop add.commute)
qed

lemma take_drop_take: "t \<le> k \<Longrightarrow> take t xs @ drop t (take k xs) = take k xs"
  by (metis append_take_drop_id min.absorb1 take_take)

text \<open>Every step brings the end nearer.\<close>

definition shm_measure :: "nat \<Rightarrow> 's shm \<Rightarrow> nat" where
  "shm_measure L m =
    (case s_cx m of C_Start \<Rightarrow> 2 * L + 3 | C_Wait o1 \<Rightarrow> 2 * (L - unat o1) + 2 | C_Copy o1 \<Rightarrow> 2 * (L - unat o1) + 1 | C_End \<Rightarrow> 0) +
    (case s_px m of P_WaitLen \<Rightarrow> 3 * L + 6 | P_Test t \<Rightarrow> 3 * (L - unat t) + 4 | P_Sem t \<Rightarrow> 3 * (L - unat t) + 3
     | P_Send t \<Rightarrow> 3 * (L - unat t) + 2 | P_Requeue t \<Rightarrow> 1 | P_Requeue404 \<Rightarrow> 2 | P_Fnf \<Rightarrow> 1 | P_End t \<Rightarrow> 0)"

lemma shm_pcs_requeued: "shm_pcs flen m \<Longrightarrow> s_requeued m \<Longrightarrow> \<exists>t. s_px m = P_End t"
  by (cases "s_px m") (simp_all add: shm_pcs_def)

context gf_io
begin

lemma sendResponse_inv:
  assumes "sendResponse True sz flen m m'" "0 < sz \<and> sz \<le> STACK_ROOM" "flen = of_nat (length body)" "length body < 2 ^ 63"
    and "healthy (s_conn m)" "shm_token m" "shm_block body m" "shm_pcs flen m"
    and "shm_data_ok sent base (hdr_text S_GF_OK flen) body m"
  shows "healthy (s_conn m') \<and> shm_token m' \<and> shm_block body m' \<and> shm_pcs flen m' \<and>
    shm_data_ok sent base (hdr_text S_GF_OK flen) body m'"
proof -
  have L: "unat flen = length body" using assms(3,4) by (simp add: unat_of_nat take_bit_nat_eq_self_iff)
  then have lt: "\<And>o1. o1 < flen \<longleftrightarrow> unat o1 < length body" by (simp add: word_less_nat_alt)
  have L0: "0 < flen \<longleftrightarrow> 0 < length body" using lt [of 0] by simp
  note defs = shm_token_def shm_block_def shm_pcs_def shm_data_ok_def queueMemory_def
  have inv: "s_proxy m + s_cache m + of_bool (is_copy (s_cx m)) + of_bool (is_send (s_px m)) = 1" using assms(6) by (simp add: shm_token_def)
  show ?thesis
    using assms(1)
  proof (cases rule: sendResponse.cases)
    case c_start
    then show ?thesis using assms(5-9) L L0 by (auto simp: defs)
  next
    case c_stack
    then show ?thesis using assms(2) by simp
  next
    case (c_wait off)
    then show ?thesis using assms(5-9) by (auto simp: defs split: proxy_pc.splits)
  next
    case (c_copy off r d f')
    have f: "rd_good (s_file m)" "fbytes (s_file m) = body" "unat off < length body"
      using assms(8,9) c_copy(2) lt by (simp_all add: shm_data_ok_def shm_pcs_def)
    note rd = shm_read [OF c_copy(3) f(1) conjunct1 [OF assms(2)], unfolded f(2), OF f(3)]
    have u: "unat (off + size_of_int r) = unat off + length d"
      unfolding rd(2) using rd(3) assms(4) by (intro unat_add_size) linarith
    have rl: "unat (size_of_int r) = length d" unfolding rd(2) using rd(3) assms(4) by (intro unat_size_of_nat) simp
    have dpos: "0 < length d" using rd(1,2) by linarith
    have off: "c_off (length body) (if off + size_of_int r < flen then C_Wait (off + size_of_int r) else C_End) = unat off + length d"
      using u rd(3) lt by auto
    have px: "p_tot (s_px m) = unat off" using assms(7) c_copy(2) by (simp add: shm_block_def)
    have tk: "s_proxy m = 0" "s_cache m = 0" "\<not> is_send (s_px m)" using inv c_copy(2) by auto
    have ncp: "\<not> is_copy (if off + size_of_int r < flen then C_Wait (off + size_of_int r) else C_End)" by simp
    have "shm_block body m'" unfolding shm_block_def c_copy(1) using off rl rd(4) px dpos tk ncp by simp
    moreover have "shm_token m'" unfolding shm_token_def c_copy(1) using tk ncp by simp
    moreover have "shm_pcs flen m'" using assms(8) c_copy(1,2) by (auto simp: shm_pcs_def split: proxy_pc.splits)
    ultimately show ?thesis using assms(5,9) c_copy(1) rd(5,6) f(2) by (simp add: shm_data_ok_def)
  next
    case (c_eof off d f')
    have "rd_good (s_file m)" "fbytes (s_file m) = body" "unat off < length body"
      using assms(8,9) c_eof(2) lt by (simp_all add: shm_data_ok_def shm_pcs_def)
    then show ?thesis using shm_read(1) [OF c_eof(3) _ conjunct1 [OF assms(2)]] by simp
  next
    case (c_fault off r d f')
    have "rd_good (s_file m)" "fbytes (s_file m) = body" "unat off < length body"
      using assms(8,9) c_fault(2) lt by (simp_all add: shm_data_ok_def shm_pcs_def)
    then show ?thesis using shm_read(1) [OF c_fault(3) _ conjunct1 [OF assms(2)]] c_fault(4) by simp
  qed (use assms(8) in \<open>auto simp: shm_pcs_def\<close>)
qed

lemma processResponse_inv:
  assumes "processResponse put puthdr m m'" "0 < sz \<and> sz \<le> STACK_ROOM" "flen = of_nat (length body)" "length body < 2 ^ 63"
    and "healthy (s_conn m)" "shm_token m" "shm_block body m" "shm_pcs flen m"
    and "shm_data_ok sent base (hdr_text S_GF_OK flen) body m"
  shows "healthy (s_conn m') \<and> shm_token m' \<and> shm_block body m' \<and> shm_pcs flen m' \<and>
    shm_data_ok sent base (hdr_text S_GF_OK flen) body m'"
proof -
  have L: "unat flen = length body" using assms(3,4) by (simp add: unat_of_nat take_bit_nat_eq_self_iff)
  then have lt: "\<And>o1. o1 < flen \<longleftrightarrow> unat o1 < length body" by (simp add: word_less_nat_alt)
  have L0: "0 < flen \<longleftrightarrow> 0 < length body" using lt [of 0] by simp
  note defs = shm_token_def shm_block_def shm_pcs_def shm_data_ok_def queueMemory_def
  have inv: "s_proxy m + s_cache m + of_bool (is_copy (s_cx m)) + of_bool (is_send (s_px m)) = 1" using assms(6) by (simp add: shm_token_def)
  show ?thesis
    using assms(1)
  proof (cases rule: processResponse.cases)
    case (p_ok r c)
    have "s_cx m \<noteq> C_Start" using assms(8) p_ok(3) by (auto simp: shm_pcs_def)
    moreover from this have "s_filesize m = flen" using assms(8) p_ok(2) by (simp add: shm_pcs_def)
    moreover from this have "sent c = sent (s_conn m) @ hdr_text S_GF_OK flen" "healthy c"
      using puthdr_ok [OF assms(5)] p_ok(5) by (metis prod.inject)+
    ultimately show ?thesis using assms(6-9) p_ok by (auto simp: defs split: cache_pc.splits)
  next
    case p_404
    then show ?thesis using assms(8) by (auto simp: shm_pcs_def split: cache_pc.splits)
  next
    case p_other
    then show ?thesis using assms(8) by (auto simp: shm_pcs_def split: cache_pc.splits)
  next
    case (p_test tot)
    have fs: "s_filesize m = flen" using assms(8) p_test(2) by (simp add: shm_pcs_def)
    have le: "unat tot \<le> length body"
      using assms(7,8) p_test(2) lt less_imp_le_nat
      by (cases "s_cx m") (auto simp: shm_block_def shm_pcs_def split: if_splits)
    have "tot = flen" if "\<not> tot < flen" using that le lt L by (metis le_antisym not_less word_unat_eq_iff)
    then show ?thesis using assms(5-9) p_test fs by (auto simp: defs split: cache_pc.splits)
  next
    case (p_sem tot)
    then show ?thesis using assms(5-9) by (auto simp: defs split: cache_pc.splits)
  next
    case (p_send tot w c)
    have tk: "s_proxy m = 0" "s_cache m = 0" "\<not> is_copy (s_cx m)" using inv p_send(2) by auto
    let ?off = "c_off (length body) (s_cx m)"
    have bl: "s_data m = drop (unat tot) (take ?off body)" "unat (s_readlen m) = length (s_data m)" "unat tot < ?off"
      using assms(7) tk p_send(2) by (simp_all add: shm_block_def)
    have ol: "?off \<le> length body"
      using assms(8) lt less_imp_le_nat by (cases "s_cx m") (auto simp: shm_pcs_def)
    have w: "w = int (length (s_data m))" "sent c = sent (s_conn m) @ s_data m" "healthy c"
      using put_ok [OF assms(5), of "s_data m"] p_send(3) bl(2) by auto
    have len: "unat tot + length (s_data m) = ?off" using bl(1,3) ol by simp
    then have u: "unat (tot + size_of_int w) = ?off" unfolding w(1) using ol assms(4) by (simp add: unat_add_size)
    have "take (unat tot) body @ s_data m = take ?off body" unfolding bl(1) using bl(3) by (simp add: take_drop_take)
    then have "sent c = base @ hdr_text S_GF_OK flen @ take ?off body"
      using w(2) assms(9) p_send(2) by (simp add: shm_data_ok_def)
    then show ?thesis using assms(6-9) p_send(1,2) w(3) tk u by (auto simp: defs split: cache_pc.splits)
  next
    case (p_fail tot w c)
    have tk: "s_proxy m = 0" "s_cache m = 0" "\<not> is_copy (s_cx m)" using inv p_fail(2) by auto
    let ?off = "c_off (length body) (s_cx m)"
    have bl: "s_data m = drop (unat tot) (take ?off body)" "unat (s_readlen m) = length (s_data m)" "unat tot < ?off"
      using assms(7) tk p_fail(2) by (simp_all add: shm_block_def)
    have ol: "?off \<le> length body"
      using assms(8) lt less_imp_le_nat by (cases "s_cx m") (auto simp: shm_pcs_def)
    have w: "w = int (length (s_data m))"
      using put_ok [OF assms(5), of "s_data m"] p_fail(3) bl(2) by auto
    have "0 < length (s_data m)" "length (s_data m) < 2 ^ 64" using bl(1,3) ol assms(4) by simp_all
    then have "unat (size_of_int w) \<noteq> 0" unfolding w by (simp add: unat_size_of_nat)
    then show ?thesis using p_fail(4) by simp
  next
    case (p_requeue tot)
    have "tot = flen" using assms(8) p_requeue(2) by (simp add: shm_pcs_def)
    moreover have "s_cx m \<noteq> C_Start" using assms(8) p_requeue(2) by (auto simp: shm_pcs_def)
    moreover have "s_cache m = 1 \<or> is_copy (s_cx m)"
    proof (rule ccontr)
      assume n: "\<not> ?thesis"
      then have "unat tot < c_off (length body) (s_cx m)" using assms(7) p_requeue(2) by (simp add: shm_block_def)
      moreover have "c_off (length body) (s_cx m) \<le> length body"
        using assms(8) lt less_imp_le_nat by (cases "s_cx m") (auto simp: shm_pcs_def)
      ultimately show False using \<open>tot = flen\<close> L by simp
    qed
    ultimately show ?thesis using assms(5-9) p_requeue by (auto simp: defs split: cache_pc.splits)
  qed (use assms(8) in \<open>auto simp: shm_pcs_def\<close>)
qed

lemma shm_step_inv:
  assumes "shm_step put puthdr True sz flen m m'" "0 < sz \<and> sz \<le> STACK_ROOM" "flen = of_nat (length body)" "length body < 2 ^ 63"
    and "healthy (s_conn m)" "shm_token m" "shm_block body m" "shm_pcs flen m"
    and "shm_data_ok sent base (hdr_text S_GF_OK flen) body m"
  shows "healthy (s_conn m') \<and> shm_token m' \<and> shm_block body m' \<and> shm_pcs flen m' \<and>
    shm_data_ok sent base (hdr_text S_GF_OK flen) body m'"
  using assms(1) sendResponse_inv [OF _ assms(2-9)] processResponse_inv [OF _ assms(2-9)] by (auto simp: shm_step_def)

definition shm_inv :: "nat \<Rightarrow> size_t \<Rightarrow> char list \<Rightarrow> char list \<Rightarrow> 's shm \<Rightarrow> bool" where
  "shm_inv sz flen base body m \<longleftrightarrow>
    (0 < sz \<and> sz \<le> STACK_ROOM) \<and> flen = of_nat (length body) \<and> length body < 2 ^ 63 \<and> healthy (s_conn m) \<and> shm_token m \<and>
    shm_block body m \<and> shm_pcs flen m \<and> shm_data_ok sent base (hdr_text S_GF_OK flen) body m"

lemma shm_invD:
  assumes "shm_inv sz flen base body m"
  shows "shm_token m" "shm_block body m" "shm_pcs flen m" "shm_data_ok sent base (hdr_text S_GF_OK flen) body m"
  using assms unfolding shm_inv_def by blast+

lemma shm_inv_step: "shm_inv sz flen base body m \<Longrightarrow> shm_step put puthdr True sz flen m m' \<Longrightarrow> shm_inv sz flen base body m'"
  unfolding shm_inv_def using shm_step_inv by blast

lemma shm_inv_init:
  assumes "0 < sz" "sz \<le> STACK_ROOM" "flen = of_nat (length (fbytes f))" "length (fbytes f) < 2 ^ 63" "healthy c" "rd_good f"
  shows "shm_inv sz flen (sent c) (fbytes f) (shm_init c f st0 rl0)"
  using assms by (simp add: shm_inv_def shm_init_def shm_token_def shm_block_def shm_pcs_def shm_data_ok_def)

lemma shm_inv_facts:
  assumes "shm_inv sz flen base body m"
  shows "unat flen = length body" "c_off (length body) (s_cx m) \<le> length body"
    "p_tot (s_px m) \<le> c_off (length body) (s_cx m)" "o1 < flen \<longleftrightarrow> unat o1 < length body"
proof -
  show L: "unat flen = length body" using assms by (simp add: shm_inv_def unat_of_nat take_bit_nat_eq_self_iff)
  then show lt: "o1 < flen \<longleftrightarrow> unat o1 < length body" for o1 by (simp add: word_less_nat_alt)
  note shm_invD(3) [OF assms]
  then show "c_off (length body) (s_cx m) \<le> length body"
    using lt less_imp_le_nat by (cases "s_cx m") (auto simp: shm_pcs_def)
  show "p_tot (s_px m) \<le> c_off (length body) (s_cx m)"
    using shm_invD(2) [OF assms] by (auto simp: shm_block_def split: if_splits)
qed

text \<open>The segment goes back to the pool only when the cache does not touch it any more.\<close>

lemma shm_inv_end:
  assumes "shm_inv sz flen base body m" "s_px m = P_End t"
  shows "s_cx m = C_End \<and> t = flen \<and> sent (s_conn m) = base @ hdr_text S_GF_OK flen @ body"
proof -
  note f = shm_inv_facts [OF assms(1)]
  note p = shm_invD(3,4) [OF assms(1)]
  then have t: "t = flen" using assms(2) by (simp add: shm_pcs_def)
  then have "c_off (length body) (s_cx m) = length body" using f(1,2,3) assms(2) by simp
  then have "s_cx m = C_End" using p(1) f(4) assms(2) by (cases "s_cx m") (auto simp: shm_pcs_def)
  then show ?thesis using t p(2) f(1) assms(2) by (simp add: shm_data_ok_def)
qed

lemma shm_step_measure:
  assumes "shm_inv sz flen base body m" "shm_step put puthdr True sz flen m m'"
  shows "shm_measure (length body) m' < shm_measure (length body) m"
proof -
  note i' = shm_inv_step [OF assms]
  note f = shm_inv_facts [OF assms(1)] and f' = shm_inv_facts [OF i']
  note bl = shm_invD(2) [OF assms(1)] shm_invD(2) [OF i'] shm_invD(1) [OF assms(1)] shm_invD(1) [OF i']
  consider "sendResponse True sz flen m m'" | "processResponse put puthdr m m'" using assms(2) by (auto simp: shm_step_def)
  then show ?thesis
  proof cases
    case 1
    then show ?thesis
    proof (cases rule: sendResponse.cases)
      case (c_copy off r d f')
      have "s_cache m' = 0" "\<not> is_copy (s_cx m')" using bl(3) c_copy(1,2) by (auto simp: shm_token_def)
      then have "unat off < c_off (length body) (s_cx m')"
        using bl(1,2) c_copy(1,2) by (auto simp: shm_block_def split: if_splits)
      then show ?thesis using c_copy(1,2) f'(2) by (auto simp: shm_measure_def split: if_splits)
    next
      case (c_eof off d f')
      then show ?thesis by (simp add: shm_measure_def)
    next
      case (c_fault off r d f')
      then show ?thesis using shm_invD(4) [OF i'] by (simp add: shm_data_ok_def)
    next
      case c_stack
      then show ?thesis using shm_invD(4) [OF i'] by (simp add: shm_data_ok_def)
    qed (auto simp: shm_measure_def split: proxy_pc.splits)
  next
    case 2
    then show ?thesis
    proof (cases rule: processResponse.cases)
      case (p_send tot w c)
      have "s_cache m = 0" "\<not> is_copy (s_cx m)" "s_cache m' = 1" using bl(3) p_send(1,2) by (auto simp: shm_token_def)
      then have "unat tot < unat (tot + size_of_int w)" "unat (tot + size_of_int w) \<le> length body"
        using bl(1,2) p_send(1,2) f(2) by (auto simp: shm_block_def)
      then show ?thesis using p_send(1,2) by (auto simp: shm_measure_def)
    qed (auto simp: shm_measure_def queueMemory_def split: cache_pc.splits)
  qed
qed

lemma shm_run_inv:
  assumes "shm_run put puthdr True sz flen m0 k m" "shm_inv sz flen base body m0"
  shows "shm_inv sz flen base body m \<and> k + shm_measure (length body) m \<le> shm_measure (length body) m0"
  using assms(1)
proof (induction rule: shm_run.induct)
  case (step k m m')
  then show ?case using shm_inv_step shm_step_measure by fastforce
qed (use assms(2) in simp)

lemma shm_progress:
  assumes "shm_inv sz flen base body m" "\<nexists>m'. shm_step put puthdr True sz flen m m'"
  shows "s_px m = P_End flen \<and> s_cx m = C_End"
proof -
  have no: "\<nexists>m'. sendResponse True sz flen m m'" "\<nexists>m'. processResponse put puthdr m m'"
    using assms(2) by (auto simp: shm_step_def)
  note f = shm_inv_facts [OF assms(1)] and i = shm_invD(1-3) [OF assms(1)]
  have ncx: "s_cx m \<noteq> C_Start" "\<not> is_copy (s_cx m)"
  proof -
    show "s_cx m \<noteq> C_Start" using no sendResponse.c_start by metis
    show "\<not> is_copy (s_cx m)"
    proof
      assume "is_copy (s_cx m)"
      then obtain off where c: "s_cx m = C_Copy off" by (auto simp: is_copy_def split: cache_pc.splits)
      obtain r d f' where "fread sz ((s_file m)\<lparr>foff := unat off\<rparr>) = (r, d, f')" by (metis prod_cases3)
      then show False using no c sendResponse.c_copy sendResponse.c_eof sendResponse.c_fault by (metis linorder_neqE_linordered_idom)
    qed
  qed
  have nw: "s_cache m = 0 \<or> s_cx m = C_End"
    using no ncx sendResponse.c_wait by (cases "s_cx m") (auto, blast)
  show ?thesis
  proof (cases "s_px m")
    case P_WaitLen
    then have "0 < s_filelen m" "s_status m = 200" using i(3) ncx(1) by (simp_all add: shm_pcs_def)
    then show ?thesis using no P_WaitLen processResponse.p_ok by (metis surj_pair)
  next
    case (P_Test t)
    then show ?thesis using no processResponse.p_test by metis
  next
    case (P_Sem t)
    then have s: "s_proxy m = 0" using no processResponse.p_sem by (metis neq0_conv)
    then have c: "s_cache m = 1" using i(1) ncx(2) P_Sem by (simp add: shm_token_def)
    then have "unat t = c_off (length body) (s_cx m)" using i(2) P_Sem by (simp add: shm_block_def)
    moreover have "unat t < length body" using i(3) P_Sem f(4) by (simp add: shm_pcs_def)
    ultimately show ?thesis using nw c by auto
  next
    case (P_Send t)
    obtain w c where "put (take (unat (s_readlen m)) (s_data m)) (s_conn m) = (w, c)" by (metis surj_pair)
    then show ?thesis using no P_Send processResponse.p_send processResponse.p_fail by metis
  next
    case (P_Requeue t)
    then show ?thesis using no processResponse.p_requeue by metis
  next
    case P_Requeue404
    then show ?thesis using i(3) by (simp add: shm_pcs_def)
  next
    case P_Fnf
    then show ?thesis using i(3) by (simp add: shm_pcs_def)
  next
    case (P_End t)
    then show ?thesis using shm_inv_end [OF assms(1)] by blast
  qed
qed

lemma shm_can_finish:
  "shm_run put puthdr True sz flen m0 k m \<Longrightarrow> shm_inv sz flen base body m0 \<Longrightarrow>
   \<exists>k' m'. shm_run put puthdr True sz flen m0 k' m' \<and> s_px m' = P_End flen \<and> s_cx m' = C_End"
proof (induction "shm_measure (length body) m" arbitrary: k m rule: less_induct)
  case less
  note i = shm_run_inv [OF less.prems(1,2)]
  show ?case
  proof (cases "\<exists>m'. shm_step put puthdr True sz flen m m'")
    case False
    then show ?thesis using i shm_progress less.prems(1) by blast
  next
    case True
    then obtain m' where m': "shm_step put puthdr True sz flen m m'" by blast
    have "s_fault m = None" using shm_invD(4) i by (auto simp: shm_data_ok_def)
    then show ?thesis
      using less.hyps shm_step_measure m' i shm_run.step [OF less.prems(1) _ m'] less.prems(2) by blast
  qed
qed

end

subsection \<open>The pool of segments\<close>

lemma length_dec_5: "m < 100000 \<Longrightarrow> length (dec m) \<le> 5"
  by (rule length_dec_bound) simp_all

lemma memName_small: "m < 100000 \<Longrightarrow> memName m = ''Shm_'' @ dec m"
  using length_dec_5 [of m] by (simp add: memName_def)

lemma memName_collision: "memName 100000 = memName 10000"
proof -
  have "dec 100000 = dec 10000 @ [digit_char 0]" "length (dec 10000) = 5" by (simp_all add: dec.simps)
  then show ?thesis by (simp add: memName_def)
qed

lemma memNames_distinct: "distinct (map memName [0..<n]) \<longleftrightarrow> n \<le> 100000"
proof
  assume "n \<le> 100000"
  then show "distinct (map memName [0..<n])" by (auto simp: distinct_map inj_on_def memName_small)
next
  assume d: "distinct (map memName [0..<n])"
  show "n \<le> 100000"
  proof (rule ccontr)
    assume "\<not> n \<le> 100000"
    then have "(100000::nat) \<in> set [0..<n]" "(10000::nat) \<in> set [0..<n]" by auto
    then have "(100000::nat) = 10000" using d memName_collision unfolding distinct_map by (meson inj_onD)
    then show False by simp
  qed
qed

lemma initSharedMemory_loop_ok:
  "steque_wf q \<Longrightarrow> N q + int k \<le> INT_MAX \<Longrightarrow> \<forall>i<k. \<exists>a. mal (m + i) = Some a \<and> nodes q a = None \<Longrightarrow>
   \<forall>i<k. \<forall>j<k. mal (m + i) = mal (m + j) \<longrightarrow> i = j \<Longrightarrow>
   \<exists>q'. initSharedMemory_loop mal m k sz q = Inr q' \<and> steque_wf q' \<and>
     steque_abs q' = steque_abs q @ map (\<lambda>i. \<lparr>shm_id = memName i, segsize = sz\<rparr>) [m..<m + k] \<and>
     (finite (dom (nodes q)) \<longrightarrow> finite (dom (nodes q')))"
proof (induction k arbitrary: m q)
  case (Suc k)
  obtain a where a: "mal m = Some a" "nodes q a = None" using Suc.prems(3) by fastforce
  let ?x = "\<lparr>shm_id = memName m, segsize = sz\<rparr>"
  obtain q1 where q1: "steque_enqueue (Some a) ?x q = Inr q1" "steque_wf q1" "steque_abs q1 = steque_abs q @ [?x]"
      "dom (nodes q1) = insert a (dom (nodes q))" "N q1 = N q + 1"
    using steque_enqueue_fresh [OF Suc.prems(1) a(2), of ?x] Suc.prems(2) by auto
  have fr: "\<exists>b. mal (Suc m + i) = Some b \<and> nodes q1 b = None" if "i < k" for i
  proof -
    obtain b where b: "mal (m + Suc i) = Some b" "nodes q b = None" using Suc.prems(3) \<open>i < k\<close> by (meson Suc_less_eq)
    then have "b \<noteq> a" using Suc.prems(4) a(1) \<open>i < k\<close> by (metis Suc_less_eq add_0_right nat.distinct(1) zero_less_Suc)
    then have "nodes q1 b = None" using b(2) q1(4) by (metis domIff insert_iff)
    then show ?thesis using b(1) by simp
  qed
  have inj: "\<forall>i<k. \<forall>j<k. mal (Suc m + i) = mal (Suc m + j) \<longrightarrow> i = j"
    using Suc.prems(4) by (metis Suc_less_eq add_Suc_shift nat.inject)
  obtain q' where "initSharedMemory_loop mal (Suc m) k sz q1 = Inr q'" "steque_wf q'"
     "steque_abs q' = steque_abs q1 @ map (\<lambda>i. \<lparr>shm_id = memName i, segsize = sz\<rparr>) [Suc m..<Suc m + k]"
     "finite (dom (nodes q1)) \<longrightarrow> finite (dom (nodes q'))"
    using Suc.IH [OF q1(2), of "Suc m"] fr inj Suc.prems(2) q1(5) by auto
  moreover have "[m..<m + Suc k] = m # [Suc m..<Suc m + k]" by (simp add: upt_rec)
  ultimately show ?case using a(1) q1(1,3,4) by simp
qed simp

lemma sig_unlink_half:
  "steque_wf q \<Longrightarrow>
   \<exists>q'. sig_unlink (int z) q = Inr (map shm_id (take ((length (steque_abs q) - z + 1) div 2) (steque_abs q)), q') \<and> steque_wf q'"
proof (induction "length (steque_abs q)" arbitrary: q z rule: less_induct)
  case less
  have n: "steque_size q = int (length (steque_abs q))" using length_steque_abs [OF less.prems] by (simp add: steque_size_def)
  show ?case
  proof (cases "z < length (steque_abs q)")
    case False
    then show ?thesis using n less.prems by (simp add: sig_unlink.simps [of "int z"])
  next
    case True
    then obtain x xs where x: "steque_abs q = x # xs" by (cases "steque_abs q") auto
    obtain q1 where q1: "steque_pop (-1) q = Inr (x, q1)" "steque_wf q1" "steque_abs q1 = xs"
      using sq.deq_ok [OF less.prems x, of "-1"] by blast
    obtain q' where "sig_unlink (int (Suc z)) q1 = Inr (map shm_id (take ((length xs - Suc z + 1) div 2) xs), q')" "steque_wf q'"
      using less.hyps [of q1 "Suc z"] q1 x by auto
    moreover have "(length (x # xs) - z + 1) div 2 = Suc ((length xs - Suc z + 1) div 2)"
      using True x by simp presburger
    ultimately show ?thesis
      using True n q1(1) x by (simp add: sig_unlink.simps [of "int z"] add.commute)
  qed
qed

subsection \<open>Properties\<close>

definition example_cached :: rfile where
  "example_cached = \<lparr>fbytes = ''cached'', foff = 0, rdplan = [2]\<rparr>"

definition example_client :: conn where
  "example_client = (\<lparr>client_socket_fd = 5, ctx_file_len = 0\<rparr>, \<lparr>rx = [], tx = [], txplan = [64, 70]\<rparr>)"

lemma example_cached_run:
  "\<exists>k m. shm_run gflib_put gflib_puthdr True 4 (of_nat (length (fbytes example_cached))) (shm_init example_client example_cached 0 0) k m \<and>
    s_requeued m"
proof -
  have i: "gflib.shm_inv 4 (of_nat (length (fbytes example_cached))) (gflib_sent example_client) (fbytes example_cached)
      (shm_init example_client example_cached 0 0)"
    by (rule gflib.shm_inv_init) (simp_all add: example_cached_def example_client_def gflib_healthy_def rd_good_def STACK_ROOM_def)
  obtain k m where r: "shm_run gflib_put gflib_puthdr True 4 (of_nat (length (fbytes example_cached)))
      (shm_init example_client example_cached 0 0) k m" "s_px m = P_End (of_nat (length (fbytes example_cached)))"
    using gflib.shm_can_finish [OF shm_run.start i] by blast
  have "shm_pcs (of_nat (length (fbytes example_cached))) m" using gflib.shm_run_inv [OF r(1) i] gflib.shm_invD(3) by blast
  then show ?thesis using r by (auto simp: shm_pcs_def)
qed

lemma example_cached_ok:
  "0 < (4::nat)" "4 \<le> STACK_ROOM" "length (fbytes example_cached) < 2 ^ 63" "gflib_healthy example_client" "rd_good example_cached"
  by (simp_all add: example_cached_def example_client_def gflib_healthy_def rd_good_def STACK_ROOM_def)

text \<open>C7. A cached file through shared memory, on a healthy connection of the client (no send fails, and each takes at least 64 bytes of what
  it is given).  In every interleaving of the proxy worker and the cache worker, for every segment size from 1 byte to 4 MiB
  and whatever pieces \<open>pread\<close> delivers (it does not fail): when the proxy has put the segment back into the pool, the client's
  connection has got the header with the size and exactly the bytes of the file, and the cache worker does not touch the segment any
  more.\<close>

theorem shm_transfer_delivers:
  assumes "shm_run gflib_put gflib_puthdr True sz (of_nat (length (fbytes f))) (shm_init c f st0 rl0) k m"
    and "0 < sz" "sz \<le> STACK_ROOM" "length (fbytes f) < 2 ^ 63" "gflib_healthy c" "rd_good f" "s_requeued m"
  shows "tx (snd (s_conn m)) = tx (snd c) @ hdr_ok (of_nat (length (fbytes f))) @ fbytes f \<and> s_cx m = C_End"
proof -
  note i = gflib.shm_run_inv [OF assms(1) gflib.shm_inv_init [OF assms(2,3) refl assms(4-6)]]
  then obtain t where "s_px m = P_End t"
    using assms(7) gflib.shm_invD(3) shm_pcs_requeued by blast
  then show ?thesis
    using gflib.shm_inv_end i by (fastforce simp: gflib_sent_def gflib_hdr_def gf_codes)
qed

theorem shm_transfer_delivers_witness:
  "\<exists>m :: conn shm. tx (snd (s_conn m)) = tx (snd example_client) @ hdr_ok (of_nat (length (fbytes example_cached))) @ fbytes example_cached \<and>
    s_cx m = C_End \<and> s_requeued m"
proof -
  obtain k m where "shm_run gflib_put gflib_puthdr True 4 (of_nat (length (fbytes example_cached)))
      (shm_init example_client example_cached 0 0) k m" "s_requeued m"
    using example_cached_run by blast
  then show ?thesis using shm_transfer_delivers [OF _ example_cached_ok] by meson
qed

text \<open>C8. On a healthy connection (no send fails, and each takes at least 64 bytes of what it is given), with a segment of 1 byte to 4 MiB and
  a file that can be read, the two workers do not wait for each other for ever: every run has at most \<open>5 * L + 9\<close> steps for a
  file of \<open>L\<close> bytes, no run meets a fault, and a run that cannot go on has ended for both of them.\<close>

theorem shm_transfer_ends:
  assumes "shm_run gflib_put gflib_puthdr True sz (of_nat (length (fbytes f))) (shm_init c f st0 rl0) k m"
    and "0 < sz" "sz \<le> STACK_ROOM" "length (fbytes f) < 2 ^ 63" "gflib_healthy c" "rd_good f"
  shows "k \<le> 5 * length (fbytes f) + 9 \<and> s_fault m = None \<and>
    ((\<nexists>m'. shm_step gflib_put gflib_puthdr True sz (of_nat (length (fbytes f))) m m') \<longrightarrow>
      s_px m = P_End (of_nat (length (fbytes f))) \<and> s_cx m = C_End)"
proof -
  note i = gflib.shm_run_inv [OF assms(1) gflib.shm_inv_init [OF assms(2,3) refl assms(4-6)]]
  have "shm_measure (length (fbytes f)) (shm_init c f st0 rl0) = 5 * length (fbytes f) + 9"
    by (simp add: shm_measure_def shm_init_def)
  then show ?thesis using i gflib.shm_progress gflib.shm_invD(4) by (auto simp: shm_data_ok_def)
qed

theorem shm_transfer_ends_witness:
  "\<exists>k (m :: conn shm). k \<le> 5 * length (fbytes example_cached) + 9 \<and> s_fault m = None \<and> s_requeued m"
proof -
  obtain k m where "shm_run gflib_put gflib_puthdr True 4 (of_nat (length (fbytes example_cached)))
      (shm_init example_client example_cached 0 0) k m" "s_requeued m"
    using example_cached_run by blast
  then show ?thesis using shm_transfer_ends [OF _ example_cached_ok] by meson
qed

text \<open>The signal handler of the proxy compares its counter with a size that shrinks while it pops: of \<open>n\<close>
  segments in the pool it unlinks the first \<open>(n + 1) div 2\<close>; the names of the others stay behind.\<close>

theorem sig_handler_unlinks_half:
  assumes "steque_wf q"
  shows "\<exists>q'. sig_handler q = Some (Inr (map shm_id (take ((length (steque_abs q) + 1) div 2) (steque_abs q)), q')) \<and>
    steque_abs q' = []"
proof -
  obtain q1 where q1: "sig_unlink 0 q = Inr (map shm_id (take ((length (steque_abs q) + 1) div 2) (steque_abs q)), q1)" "steque_wf q1"
    using sig_unlink_half [OF assms, of 0] by auto
  obtain as where r: "steque_rep q1 as" using q1(2) by (auto simp: steque_wf_iff)
  obtain q' where "steque_destroy (-1) q1 = Some (Inr q')" "steque_rep q' []" using steque_destroy_rep [OF r] by blast
  then show ?thesis using q1(1) steque_repI by (fastforce simp: sig_handler_def)
qed

definition example_pool :: "shm_details steque" where
  "example_pool = \<lparr>nodes = [1 \<mapsto> \<lparr>item = \<lparr>shm_id = ''Shm_0'', segsize = 5014\<rparr>, nextp = Some 2\<rparr>,
      2 \<mapsto> \<lparr>item = \<lparr>shm_id = ''Shm_1'', segsize = 5014\<rparr>, nextp = None\<rparr>],
    frontp = Some 1, backp = Some 2, N = 2\<rparr>"

theorem sig_handler_unlinks_half_witness:
  "\<exists>q'. sig_handler example_pool = Some (Inr (map shm_id (take ((length (steque_abs example_pool) + 1) div 2) (steque_abs example_pool)), q')) \<and>
    steque_abs q' = []"
proof (rule sig_handler_unlinks_half)
  have "steque_rep example_pool [1, 2]" by (simp add: example_pool_def steque_rep_def INT_MAX_def)
  then show "steque_wf example_pool" by (auto simp: steque_wf_iff)
qed

text \<open>\<open>initSharedMemory\<close> fills the pool with the segments \<open>Shm_0\<close>, \<open>Shm_1\<close>, ... in order; the names,
  printed into 10 bytes, are different from each other exactly when there are at most 100000.\<close>

theorem initSharedMemory_pool:
  assumes "int n \<le> INT_MAX" "\<forall>i<n. \<exists>a. mal i = Some a \<and> nodes q a = None" "\<forall>i<n. \<forall>j<n. mal i = mal j \<longrightarrow> i = j"
  shows "\<exists>q'. initSharedMemory mal n sz q = Inr q' \<and> steque_wf q' \<and>
    steque_abs q' = map (\<lambda>i. \<lparr>shm_id = memName i, segsize = sz\<rparr>) [0..<n] \<and>
    (distinct (map shm_id (steque_abs q')) \<longleftrightarrow> n \<le> 100000)"
proof -
  have w: "steque_wf (steque_init q)" "steque_abs (steque_init q) = []"
    using steque_repI [OF steque_init_rep [of q]] by auto
  have "N (steque_init q) = 0" "nodes (steque_init q) = nodes q" by (simp_all add: steque_init_def)
  then obtain q' where "initSharedMemory mal n sz q = Inr q'" "steque_wf q'"
     "steque_abs q' = map (\<lambda>i. \<lparr>shm_id = memName i, segsize = sz\<rparr>) [0..<n]"
    using initSharedMemory_loop_ok [OF w(1), of n mal 0 sz] w(2) assms by (auto simp: initSharedMemory_def)
  note q' = this
  have "map shm_id (steque_abs q') = map memName [0..<n]" unfolding q'(3) by simp
  then show ?thesis using q' memNames_distinct [of n] by metis
qed

theorem initSharedMemory_pool_witness:
  "\<exists>q'. initSharedMemory Some 4 5014 \<lparr>nodes = Map.empty, frontp = None, backp = None, N = 0\<rparr> = Inr q' \<and> steque_wf q' \<and>
    steque_abs q' = map (\<lambda>i. \<lparr>shm_id = memName i, segsize = 5014\<rparr>) [0..<4] \<and>
    (distinct (map shm_id (steque_abs q')) \<longleftrightarrow> 4 \<le> (100000::nat))"
  by (rule initSharedMemory_pool) (simp_all add: INT_MAX_def)

end
