(* ===== verification/SegmentPool.thy ===== *)
theory SegmentPool
  imports ShmCache "HOL-Library.Multiset"
begin

section \<open>The workers of the cache proxy and the pool of segments (pr3/cache/handle_with_cache.c)\<close>

text \<open>
  All worker threads of the proxy share \<open>shm_queue\<close> under \<open>shm_mutex\<close>, and wait on \<open>shm_cond\<close> while it is
  empty.  A step of a worker is the code from one operation on the mutex or the condition variable to the next,
  so a critical section is one step; between its end and the broadcast that follows it another worker may
  run.  The transfer itself is the step relation of \<open>ShmCache\<close> and one step here.
\<close>

subsection \<open>States and steps\<close>

text \<open>
  Where a worker is: about to lock the mutex in \<open>handle_with_cache\<close> (also after it was woken), asleep in
  \<open>pthread_cond_wait\<close>, before the broadcast of \<open>handle_with_cache\<close>, in \<open>processResponse\<close>, about to lock in
  \<open>queueMemory\<close>, before the broadcast of \<open>queueMemory\<close>.
\<close>

datatype worker = K_Enter | K_Sleep | K_Took shm_details | K_Use shm_details | K_Put shm_details | K_Back

record pool =
  pl_queue :: "shm_details steque"
  pl_pc :: "nat \<Rightarrow> worker"

definition wake :: "(nat \<Rightarrow> worker) \<Rightarrow> nat \<Rightarrow> worker" where
  "wake pc = (\<lambda>j. if pc j = K_Sleep then K_Enter else pc j)"

text \<open>
  \<open>W\<close> workers, each with an endless supply of requests (any path at any time); \<open>malloc\<close> gives \<open>steque_enqueue\<close> any block that is
  not in use.  A worker may also wake without a broadcast (\<open>pool_spurious\<close>).  First the steps in \<open>handle_with_cache\<close>.
\<close>

inductive acquire_segment :: "nat \<Rightarrow> pool \<Rightarrow> pool \<Rightarrow> bool" for W where
  k_sleep: "i < W \<Longrightarrow> pl_pc m i = K_Enter \<Longrightarrow> steque_isempty (pl_queue m) \<Longrightarrow>
    acquire_segment W m (m\<lparr>pl_pc := (pl_pc m)(i := K_Sleep)\<rparr>)"
| k_take: "i < W \<Longrightarrow> pl_pc m i = K_Enter \<Longrightarrow> \<not> steque_isempty (pl_queue m) \<Longrightarrow>
    handle_with_cache path (pl_queue m) = Inr (r, shm, q') \<Longrightarrow>
    acquire_segment W m \<lparr>pl_queue = q', pl_pc = (pl_pc m)(i := K_Took shm)\<rparr>"
| k_broadcast: "i < W \<Longrightarrow> pl_pc m i = K_Took shm \<Longrightarrow>
    acquire_segment W m (m\<lparr>pl_pc := (wake (pl_pc m))(i := K_Use shm)\<rparr>)"

text \<open>In \<open>queueMemory\<close>.  After it the worker is done with its request and takes the next one.\<close>

inductive release_segment :: "nat \<Rightarrow> pool \<Rightarrow> pool \<Rightarrow> bool" for W where
  k_put: "i < W \<Longrightarrow> pl_pc m i = K_Put shm \<Longrightarrow> nodes (pl_queue m) a = None \<Longrightarrow>
    steque_enqueue (Some a) shm (pl_queue m) = Inr q' \<Longrightarrow>
    release_segment W m \<lparr>pl_queue = q', pl_pc = (pl_pc m)(i := K_Back)\<rparr>"
| k_next: "i < W \<Longrightarrow> pl_pc m i = K_Back \<Longrightarrow>
    release_segment W m (m\<lparr>pl_pc := (wake (pl_pc m))(i := K_Enter)\<rparr>)"

text \<open>A step of the workers; the transfer is between the two.\<close>

inductive pool_step :: "nat \<Rightarrow> pool \<Rightarrow> pool \<Rightarrow> bool" for W where
  k_acquire: "acquire_segment W m m' \<Longrightarrow> pool_step W m m'"
| k_transfer: "i < W \<Longrightarrow> pl_pc m i = K_Use shm \<Longrightarrow>
    pool_step W m (m\<lparr>pl_pc := (pl_pc m)(i := K_Put shm)\<rparr>)"
| k_release: "release_segment W m m' \<Longrightarrow> pool_step W m m'"

inductive pool_spurious :: "nat \<Rightarrow> pool \<Rightarrow> pool \<Rightarrow> bool" for W where
  k_spurious: "i < W \<Longrightarrow> pl_pc m i = K_Sleep \<Longrightarrow> pool_spurious W m (m\<lparr>pl_pc := (pl_pc m)(i := K_Enter)\<rparr>)"

inductive pool_reach :: "nat \<Rightarrow> shm_details steque \<Rightarrow> pool \<Rightarrow> bool" for W q0 where
  pool_start: "pool_reach W q0 \<lparr>pl_queue = q0, pl_pc = \<lambda>_. K_Enter\<rparr>"
| pool_next: "pool_reach W q0 m \<Longrightarrow> pool_step W m m' \<or> pool_spurious W m m' \<Longrightarrow> pool_reach W q0 m'"

lemmas pool_steps = pool_step.k_transfer acquire_segment.intros [THEN pool_step.k_acquire]
  release_segment.intros [THEN pool_step.k_release]

subsection \<open>The invariant\<close>

text \<open>
  The segments of the pool and of the workers are together always the same, and a worker sleeps only while
  the pool is empty or a broadcast is still to come.
\<close>

fun held :: "worker \<Rightarrow> shm_details multiset" where
  "held (K_Took s) = {#s#}" | "held (K_Use s) = {#s#}" | "held (K_Put s) = {#s#}"
| "held K_Enter = {#}" | "held K_Sleep = {#}" | "held K_Back = {#}"

fun pending :: "worker \<Rightarrow> bool" where
  "pending (K_Took s) = True" | "pending K_Back = True"
| "pending K_Enter = False" | "pending K_Sleep = False" | "pending (K_Use s) = False" | "pending (K_Put s) = False"

definition pool_inv :: "nat \<Rightarrow> shm_details multiset \<Rightarrow> pool \<Rightarrow> bool" where
  "pool_inv W segs m \<longleftrightarrow> steque_wf (pl_queue m) \<and> finite (dom (nodes (pl_queue m))) \<and>
    mset (steque_abs (pl_queue m)) + (\<Sum>i<W. held (pl_pc m i)) = segs \<and>
    ((\<exists>i<W. pl_pc m i = K_Sleep) \<longrightarrow> steque_abs (pl_queue m) = [] \<or> (\<exists>i<W. pending (pl_pc m i)))"

lemma held_wake [simp]: "held (wake pc i) = held (pc i)"
  by (simp add: wake_def)

lemma wake_simps [simp]: "wake pc i \<noteq> K_Sleep" "pending (wake pc i) \<longleftrightarrow> pending (pc i)"
  by (simp_all add: wake_def)

lemmas sum_held_upd = sum_upd [where f = held]

text \<open>A change of the place of one worker that holds the same before and after.\<close>

lemmas sum_held_same = sum_upd_same [where f = held]

lemma held_in_sum: "(i :: nat) < W \<Longrightarrow> held (pc i) \<subseteq># (\<Sum>j<W. held (pc j))"
  by (subst sum.remove [of _ i]) auto

lemma ex_pending_same:
  assumes "\<not> pending (pc i)" "\<not> pending v"
  shows "(\<exists>j<W. pending ((pc(i := v)) j)) \<longleftrightarrow> (\<exists>j<(W :: nat). pending (pc j))"
proof -
  have "pending ((pc(i := v)) j) \<longleftrightarrow> pending (pc j)" for j using assms by auto
  then show ?thesis by simp
qed

lemma steque_pop_dom: "steque_pop ec q = Inr (x, q') \<Longrightarrow> dom (nodes q') \<subseteq> dom (nodes q)"
  by (auto simp: steque_pop_def Let_def bindr_eq_Inr_iff split: option.splits if_splits)

lemma steque_enqueue_dom:
  assumes "steque_wf q" "nodes q a = None" "steque_enqueue (Some a) x q = Inr q'"
  shows "dom (nodes q') = insert a (dom (nodes q))"
proof -
  obtain as where r: "steque_rep q as" using assms(1) by (auto simp: steque_wf_iff)
  have "N q < INT_MAX"
  proof (rule ccontr)
    assume "\<not> N q < INT_MAX"
    then have "\<not> steque_room q" by (simp add: steque_room_def)
    moreover have "steque_place (Some a) q" using assms(2) by (simp add: steque_place_def)
    ultimately show False using sq.enq_full [OF assms(1)] assms(3) by simp
  qed
  then show ?thesis using steque_enqueue_rep [OF r assms(2), of x] assms(3) by auto
qed

lemma handle_with_cache_pop:
  assumes "steque_wf q" "\<not> steque_isempty q"
  shows "\<exists>shm q'. handle_with_cache path q = Inr (make_request path shm, shm, q') \<and> steque_wf q' \<and> steque_abs q = shm # steque_abs q'"
  using sq.deq_nonempty [OF assms, of "-1"] by (auto simp: handle_with_cache_def)

lemma pool_inv_acquire:
  assumes "pool_inv W segs m" "acquire_segment W m m'"
  shows "pool_inv W segs m'"
proof -
  have wf: "steque_wf (pl_queue m)" "finite (dom (nodes (pl_queue m)))"
    and sum: "mset (steque_abs (pl_queue m)) + (\<Sum>i<W. held (pl_pc m i)) = segs"
    using assms(1) by (simp_all add: pool_inv_def)
  show ?thesis
    using assms(2)
  proof (cases rule: acquire_segment.cases)
    case (k_sleep i)
    then have "steque_abs (pl_queue m) = []" using sq.isempty_iff [OF wf(1)] by simp
    then show ?thesis using k_sleep wf sum sum_held_same [of i W K_Sleep "pl_pc m"] by (simp add: pool_inv_def)
  next
    case (k_take i path r shm q')
    then have q: "steque_wf q'" "steque_abs (pl_queue m) = shm # steque_abs q'"
      using handle_with_cache_pop [OF wf(1) k_take(4), of path] by auto
    have "(\<Sum>j<W. held (((pl_pc m)(i := K_Took shm)) j)) = (\<Sum>j<W. held (pl_pc m j)) + {#shm#}"
      using sum_held_upd [of i W "pl_pc m" "K_Took shm"] k_take(2,3) by simp
    moreover have "\<exists>j<W. pending (((pl_pc m)(i := K_Took shm)) j)" using k_take(2) by (intro exI [of _ i]) simp
    moreover have "finite (dom (nodes q'))"
      using k_take(5) by (auto simp: handle_with_cache_def bindr_eq_Inr_iff intro: finite_subset [OF steque_pop_dom wf(2)])
    ultimately show ?thesis using k_take(1) q sum by (simp add: pool_inv_def)
  next
    case (k_broadcast i shm)
    then show ?thesis using wf sum sum_held_same [of i W "K_Use shm" "wake (pl_pc m)"] by (simp add: pool_inv_def)
  qed
qed

lemma pool_inv_release:
  assumes "pool_inv W segs m" "release_segment W m m'"
  shows "pool_inv W segs m'"
proof -
  have wf: "steque_wf (pl_queue m)" "finite (dom (nodes (pl_queue m)))"
    and sum: "mset (steque_abs (pl_queue m)) + (\<Sum>i<W. held (pl_pc m i)) = segs"
    using assms(1) by (simp_all add: pool_inv_def)
  show ?thesis
    using assms(2)
  proof (cases rule: release_segment.cases)
    case (k_put i shm a q')
    have room: "steque_place (Some a) (pl_queue m)" using k_put(4) by (simp add: steque_place_def)
    have q: "steque_wf q'" "steque_abs q' = steque_abs (pl_queue m) @ [shm]"
      using sq.enq_Inr [OF wf(1) room k_put(5)] by simp_all
    let ?rest = "\<Sum>j<W. held (((pl_pc m)(i := K_Back)) j)"
    have e: "?rest + {#shm#} = (\<Sum>j<W. held (pl_pc m j))"
      using sum_held_upd [of i W "pl_pc m" K_Back] k_put(2,3) by (simp del: fun_upd_apply)
    have "mset (steque_abs q') + ?rest = mset (steque_abs (pl_queue m)) + (?rest + {#shm#})"
      unfolding q(2) by (simp del: fun_upd_apply)
    then have "mset (steque_abs q') + ?rest = segs" using sum unfolding e by (simp del: fun_upd_apply)
    moreover have "\<exists>j<W. pending (((pl_pc m)(i := K_Back)) j)" using k_put(2) by (intro exI [of _ i]) simp
    moreover have "finite (dom (nodes q'))" using steque_enqueue_dom [OF wf(1) k_put(4,5)] wf(2) by simp
    ultimately show ?thesis using q(1) by (simp add: pool_inv_def k_put(1) del: fun_upd_apply)
  next
    case (k_next i)
    then show ?thesis using wf sum sum_held_same [of i W K_Enter "wake (pl_pc m)"] by (simp add: pool_inv_def)
  qed
qed

lemma pool_inv_move:
  assumes "pool_inv W segs m" "i < W" "held v = held (pl_pc m i)" "\<not> pending v" "\<not> pending (pl_pc m i)" "v \<noteq> K_Sleep"
  shows "pool_inv W segs (m\<lparr>pl_pc := (pl_pc m)(i := v)\<rparr>)"
proof -
  have "(\<exists>j<W. pending (((pl_pc m)(i := v)) j)) \<longleftrightarrow> (\<exists>j<W. pending (pl_pc m j))"
    using assms(4,5) by (intro ex_pending_same)
  moreover have "(\<Sum>j<W. held (((pl_pc m)(i := v)) j)) = (\<Sum>j<W. held (pl_pc m j))"
    using assms(2,3) by (intro sum_held_same)
  moreover have "\<exists>j<W. pl_pc m j = K_Sleep" if "\<exists>j<W. ((pl_pc m)(i := v)) j = K_Sleep"
    using that assms(6) by (auto split: if_splits)
  ultimately show ?thesis using assms(1) by (simp add: pool_inv_def del: fun_upd_apply)
qed

lemma pool_inv_step:
  assumes "pool_inv W segs m" "pool_step W m m' \<or> pool_spurious W m m'"
  shows "pool_inv W segs m'"
  using assms(2)
proof
  assume "pool_step W m m'"
  then show ?thesis
  proof (cases rule: pool_step.cases)
    case (k_transfer i shm)
    then show ?thesis using pool_inv_move [OF assms(1), of i "K_Put shm"] by simp
  qed (use assms(1) pool_inv_acquire pool_inv_release in blast)+
next
  assume "pool_spurious W m m'"
  then show ?thesis
  proof (cases rule: pool_spurious.cases)
    case (k_spurious i)
    then show ?thesis using pool_inv_move [OF assms(1), of i K_Enter] by simp
  qed
qed

lemma pool_reach_inv: "pool_reach W q0 m \<Longrightarrow> steque_wf q0 \<Longrightarrow> finite (dom (nodes q0)) \<Longrightarrow> pool_inv W (mset (steque_abs q0)) m"
proof (induction rule: pool_reach.induct)
  case pool_start
  then show ?case by (simp add: pool_inv_def)
next
  case (pool_next m m')
  then show ?case using pool_inv_step by blast
qed

text \<open>There is always room for a segment that is given back.\<close>

lemma pool_put_room:
  assumes "pool_inv W segs m" "i < W" "pl_pc m i = K_Put s" "int (size segs) \<le> INT_MAX"
  shows "\<exists>a q'. nodes (pl_queue m) a = None \<and> steque_enqueue (Some a) s (pl_queue m) = Inr q'"
proof -
  have wf: "steque_wf (pl_queue m)" "finite (dom (nodes (pl_queue m)))"
    and sum: "mset (steque_abs (pl_queue m)) + (\<Sum>j<W. held (pl_pc m j)) = segs"
    using assms(1) by (simp_all add: pool_inv_def)
  have "1 \<le> size (\<Sum>j<W. held (pl_pc m j))" using size_mset_mono [OF held_in_sum [OF assms(2), of "pl_pc m"]] assms(3) by simp
  moreover have "length (steque_abs (pl_queue m)) + size (\<Sum>j<W. held (pl_pc m j)) = size segs"
    using sum by (metis size_mset size_union)
  ultimately have "int (length (steque_abs (pl_queue m))) < INT_MAX" using assms(4) by linarith
  then have room: "steque_room (pl_queue m)" by (rule sq.room_ok [OF wf(1)])
  obtain a where a: "nodes (pl_queue m) a = None" using ex_new_if_finite [OF infinite_UNIV_nat wf(2)] by (metis domIff)
  then have "steque_place (Some a) (pl_queue m)" by (simp add: steque_place_def)
  then obtain q' where "steque_enqueue (Some a) s (pl_queue m) = Inr q'" using sq.enq_ok [OF wf(1) _ room] by blast
  then show ?thesis using a by blast
qed

text \<open>Whatever worker is not asleep can go on.\<close>

lemma pool_awake_step:
  assumes "pool_inv W segs m" "i < W" "pl_pc m i \<noteq> K_Sleep" "int (size segs) \<le> INT_MAX"
  shows "\<exists>m'. pool_step W m m'"
proof (cases "pl_pc m i")
  case K_Enter
  have wf: "steque_wf (pl_queue m)" "finite (dom (nodes (pl_queue m)))" using assms(1) by (simp_all add: pool_inv_def)
  show ?thesis
  proof (cases "steque_isempty (pl_queue m)")
    case True
    then show ?thesis using pool_steps(2) assms(2) K_Enter by blast
  next
    case False
    then show ?thesis using pool_steps(3) [OF assms(2) K_Enter False] handle_with_cache_pop [OF wf(1) False] by blast
  qed
next
  case (K_Put s)
  then show ?thesis using pool_put_room [OF assms(1,2) _ assms(4)] pool_steps(5) [OF assms(2) K_Put] by blast
next
  case (K_Took s)
  then show ?thesis using pool_steps(4) [OF assms(2)] by blast
next
  case (K_Use s)
  then show ?thesis using pool_step.k_transfer [OF assms(2)] by blast
next
  case K_Back
  then show ?thesis using pool_steps(6) [OF assms(2)] by blast
qed (use assms(3) in simp)


text \<open>An empty pool stays empty: the workers go to sleep.\<close>

lemma pool_empty_reach:
  "pool_reach W q0 m \<Longrightarrow> steque_isempty q0 \<Longrightarrow> pl_pc m i = K_Enter \<or> pl_pc m i = K_Sleep"
proof -
  have "pool_reach W q0 m \<Longrightarrow> steque_isempty q0 \<Longrightarrow> pl_queue m = q0 \<and> (\<forall>i. pl_pc m i = K_Enter \<or> pl_pc m i = K_Sleep)"
  proof (induction rule: pool_reach.induct)
    case (pool_next m m')
    then have IH: "pl_queue m = q0" "pl_pc m i = K_Enter \<or> pl_pc m i = K_Sleep" for i by auto
    show ?case using pool_next.hyps(2)
    proof
      assume "pool_step W m m'"
      then show ?thesis using IH pool_next.prems
        by (cases rule: pool_step.cases) (auto elim!: acquire_segment.cases release_segment.cases, (metis worker.distinct)+)
    next
      assume "pool_spurious W m m'"
      then show ?thesis using IH by (cases rule: pool_spurious.cases) fastforce
    qed
  qed simp
  then show "pool_reach W q0 m \<Longrightarrow> steque_isempty q0 \<Longrightarrow> pl_pc m i = K_Enter \<or> pl_pc m i = K_Sleep" by blast
qed

subsection \<open>Properties\<close>

lemma count_sum_two:
  assumes "i < (W :: nat)" "j < W" "i \<noteq> j" "s \<in># held (pc i)" "s \<in># held (pc j)"
  shows "2 \<le> count (\<Sum>k<W. held (pc k)) s"
proof -
  let ?rest = "\<Sum>k\<in>{..<W} - {i} - {j}. held (pc k)"
  have "(\<Sum>k<W. held (pc k)) = held (pc i) + (held (pc j) + ?rest)"
    using assms(1-3) by (simp add: sum.remove [of "{..<W}" i] sum.remove [of "{..<W} - {i}" j])
  then have "count (\<Sum>k<W. held (pc k)) s = count (held (pc i)) s + (count (held (pc j)) s + count ?rest s)"
    by (simp only: count_union)
  moreover have "1 \<le> count (held (pc i)) s" "1 \<le> count (held (pc j)) s" using assms(4,5) by simp_all
  ultimately show ?thesis by linarith
qed

text \<open>C10. No segment is used twice: in every state the workers can reach, in any interleaving and with any wake-ups, a
  segment that one worker holds is neither held by another one nor in the pool, if the names in the pool were different
  at the start.\<close>

theorem pool_segments_exclusive:
  assumes "pool_reach W q0 m" "steque_wf q0" "finite (dom (nodes q0))" "distinct (steque_abs q0)"
    and "i < W" "j < W" "i \<noteq> j" "s \<in># held (pl_pc m i)"
  shows "s \<notin># held (pl_pc m j) \<and> s \<notin> set (steque_abs (pl_queue m))"
proof -
  have sum: "mset (steque_abs (pl_queue m)) + (\<Sum>k<W. held (pl_pc m k)) = mset (steque_abs q0)"
    using pool_reach_inv [OF assms(1-3)] by (simp add: pool_inv_def)
  have "count (mset (steque_abs q0)) s \<le> 1" using assms(4) by (simp add: distinct_count_atmost_1)
  then have c: "count (mset (steque_abs (pl_queue m))) s + count (\<Sum>k<W. held (pl_pc m k)) s \<le> 1"
    unfolding sum [symmetric] by simp
  have "1 \<le> count (held (pl_pc m i)) s" using assms(8) by simp
  then have "1 \<le> count (\<Sum>k<W. held (pl_pc m k)) s"
    using mset_subset_eq_count [OF held_in_sum [OF assms(5)], of "pl_pc m" s] by linarith
  then have "count (mset (steque_abs (pl_queue m))) s = 0" using c by linarith
  then have "s \<notin># mset (steque_abs (pl_queue m))" by (simp only: not_in_iff)
  moreover have "s \<notin># held (pl_pc m j)"
    using count_sum_two [OF assms(5-7), of s "pl_pc m"] assms(8) c by auto
  ultimately show ?thesis by simp
qed

lemma example_pool_wf:
  "steque_wf example_pool" "finite (dom (nodes example_pool))"
  "steque_abs example_pool = [\<lparr>shm_id = ''Shm_0'', segsize = 5014\<rparr>, \<lparr>shm_id = ''Shm_1'', segsize = 5014\<rparr>]"
proof -
  have r: "steque_rep example_pool [1, 2]" by (simp add: example_pool_def steque_rep_def INT_MAX_def)
  show "steque_wf example_pool" using r by (auto simp: steque_wf_iff)
  show "finite (dom (nodes example_pool))" by (simp add: example_pool_def)
  show "steque_abs example_pool = [\<lparr>shm_id = ''Shm_0'', segsize = 5014\<rparr>, \<lparr>shm_id = ''Shm_1'', segsize = 5014\<rparr>]"
    using steque_rep_addrs [OF r] by (simp add: steque_abs_def) (simp add: example_pool_def)
qed

lemma example_pool_take:
  "\<exists>m. pool_reach 2 example_pool m \<and> pl_pc m 0 = K_Took \<lparr>shm_id = ''Shm_0'', segsize = 5014\<rparr>"
proof -
  let ?m = "\<lparr>pl_queue = example_pool, pl_pc = \<lambda>_. K_Enter\<rparr>"
  have ne: "\<not> steque_isempty example_pool" by (simp add: example_pool_def steque_isempty_def)
  obtain shm q' where h: "handle_with_cache [] example_pool = Inr (make_request [] shm, shm, q')"
      "steque_abs example_pool = shm # steque_abs q'"
    using handle_with_cache_pop [OF example_pool_wf(1) ne] by blast
  have "pool_step 2 ?m \<lparr>pl_queue = q', pl_pc = (pl_pc ?m)(0 := K_Took shm)\<rparr>"
    by (rule pool_steps(3)) (use ne h in auto)
  then have "pool_reach 2 example_pool \<lparr>pl_queue = q', pl_pc = (pl_pc ?m)(0 := K_Took shm)\<rparr>"
    using pool_reach.intros by blast
  moreover have "shm = \<lparr>shm_id = ''Shm_0'', segsize = 5014\<rparr>" using h(2) unfolding example_pool_wf(3) by simp
  ultimately show ?thesis by fastforce
qed

theorem pool_segments_exclusive_witness:
  "\<exists>m. pool_reach 2 example_pool m \<and> \<lparr>shm_id = ''Shm_0'', segsize = 5014\<rparr> \<in># held (pl_pc m 0) \<and>
    \<lparr>shm_id = ''Shm_0'', segsize = 5014\<rparr> \<notin># held (pl_pc m 1) \<and>
    \<lparr>shm_id = ''Shm_0'', segsize = 5014\<rparr> \<notin> set (steque_abs (pl_queue m))"
proof -
  obtain m where m: "pool_reach 2 example_pool m" "pl_pc m 0 = K_Took \<lparr>shm_id = ''Shm_0'', segsize = 5014\<rparr>"
    using example_pool_take by blast
  have d: "distinct (steque_abs example_pool)" by (simp add: example_pool_wf(3))
  show ?thesis
    using pool_segments_exclusive [OF m(1) example_pool_wf(1,2) d, of 0 1 "\<lparr>shm_id = ''Shm_0'', segsize = 5014\<rparr>"] m by auto
qed

text \<open>C9. The workers of the proxy do not block each other: as long as there is a segment at all, some worker can always go on
  (without a spurious wake-up), and when a worker sleeps although the pool is not empty, the broadcast that wakes it
  is still to come.\<close>

theorem pool_never_stuck:
  assumes "pool_reach W q0 m" "steque_wf q0" "finite (dom (nodes q0))" "steque_abs q0 \<noteq> []" "int (length (steque_abs q0)) \<le> INT_MAX" "0 < W"
  shows "(\<exists>m'. pool_step W m m') \<and>
    (\<forall>i<W. pl_pc m i = K_Sleep \<longrightarrow> steque_abs (pl_queue m) \<noteq> [] \<longrightarrow> (\<exists>j<W. pending (pl_pc m j)))"
proof -
  have inv: "pool_inv W (mset (steque_abs q0)) m" by (rule pool_reach_inv [OF assms(1-3)])
  have "\<exists>i<W. pl_pc m i \<noteq> K_Sleep"
  proof (rule ccontr)
    assume "\<not> (\<exists>i<W. pl_pc m i \<noteq> K_Sleep)"
    then have all: "pl_pc m i = K_Sleep" if "i < W" for i using that by blast
    then have "(\<Sum>i<W. held (pl_pc m i)) = {#}" "\<not> (\<exists>i<W. pending (pl_pc m i))" by auto
    then have "steque_abs (pl_queue m) = []" "mset (steque_abs (pl_queue m)) = mset (steque_abs q0)"
      using inv all [OF assms(6)] assms(6) by (auto simp: pool_inv_def)
    then show False using assms(4) by simp
  qed
  then have "\<exists>m'. pool_step W m m'" using pool_awake_step [OF inv] assms(5) by auto
  then show ?thesis using inv by (auto simp: pool_inv_def)
qed

theorem pool_never_stuck_witness: "\<exists>m m'. pool_reach 2 example_pool m \<and> pool_step 2 m m'"
proof -
  obtain m where m: "pool_reach 2 example_pool m" using example_pool_take by blast
  then show ?thesis using pool_never_stuck [OF m example_pool_wf(1,2)] by (auto simp: example_pool_wf(3) INT_MAX_def)
qed


subsection \<open>A segment that is given back too early\<close>

text \<open>C31. When the client's connection breaks at the first block (\<open>gfs_send\<close> returns -1), the unsigned sum of the bytes
  wraps round and ends the proxy's loop: the segment goes back into the pool while the cache worker is waiting to put
  the next block of the old file into it, and its semaphore lets it do so.\<close>

theorem shm_requeued_too_early:
  assumes "\<And>d c. put d c = (-1, c)" "fread sz (f\<lparr>foff := 0\<rparr>) = (r, d, f')" "0 < r" "size_of_int r < flen"
  shows "\<exists>k m m'. shm_run put puthdr True sz flen (shm_init c f st0 rl0) k m \<and> s_requeued m \<and> s_px m = P_End (- 1) \<and>
    s_cx m = C_Wait (size_of_int r) \<and> sendResponse True sz flen m m' \<and> s_cx m' = C_Copy (size_of_int r)"
proof -
  let ?run = "shm_run put puthdr True sz flen (shm_init c f st0 rl0)"
  let ?m0 = "shm_init c f st0 rl0"
  obtain rh ch where h: "puthdr S_GF_OK flen c = (rh, ch)" by (metis surj_pair)
  have pos: "0 < flen" using assms(4) by (metis word_not_simps(1) word_gt_0)
  define m1 where "m1 = ?m0\<lparr>s_filesize := flen, s_status := 200, s_filelen := 1, s_cx := C_Wait 0\<rparr>"
  define m2 where "m2 = m1\<lparr>s_filelen := 0, s_conn := ch, s_px := P_Test 0\<rparr>"
  define m3 where "m3 = m2\<lparr>s_px := P_Sem 0\<rparr>"
  define m4 where "m4 = m3\<lparr>s_cache := 0, s_cx := C_Copy 0\<rparr>"
  define m5 where "m5 = m4\<lparr>s_readlen := size_of_int r, s_data := d, s_proxy := 1, s_file := f', s_cx := C_Wait (size_of_int r)\<rparr>"
  define m6 where "m6 = m5\<lparr>s_proxy := 0, s_px := P_Send 0\<rparr>"
  define m7 where "m7 = m6\<lparr>s_conn := ch, s_cache := 1, s_px := P_Test (0 + size_of_int (-1))\<rparr>"
  define m8 where "m8 = m7\<lparr>s_px := P_Requeue (-1)\<rparr>"
  define m9 where "m9 = (queueMemory m8)\<lparr>s_px := P_End (-1)\<rparr>"
  note ms = m1_def m2_def m3_def m4_def m5_def m6_def m7_def m8_def m9_def shm_init_def queueMemory_def
  have c1: "sendResponse True sz flen ?m0 m1"
    using sendResponse.c_start [of ?m0 True sz flen] pos by (simp add: ms)
  have c2: "processResponse put puthdr m1 m2"
    using processResponse.p_ok [of m1 puthdr rh ch put] h by (simp add: ms)
  have c3: "processResponse put puthdr m2 m3"
    using processResponse.p_test [of m2 0 put puthdr] pos by (simp add: ms)
  have c4: "sendResponse True sz flen m3 m4"
    using sendResponse.c_wait [of m3 0 True sz flen] by (simp add: ms)
  have c5: "sendResponse True sz flen m4 m5"
    using sendResponse.c_copy [of m4 0 sz r d f' True flen] assms(2-4) by (simp add: ms)
  have c6: "processResponse put puthdr m5 m6"
    using processResponse.p_sem [of m5 0 put puthdr] by (simp add: ms)
  have c7: "processResponse put puthdr m6 m7"
    using processResponse.p_send [of m6 0 put "-1" ch puthdr] assms(1) by (simp add: ms size_of_int_neg1)
  have c8: "processResponse put puthdr m7 m8"
    using processResponse.p_test [of m7 "-1" put puthdr] by (simp add: ms size_of_int_neg1 word_order.extremum_strict)
  have c9: "processResponse put puthdr m8 m9"
    using processResponse.p_requeue [of m8 "-1" put puthdr] by (simp add: ms)
  have f: "s_fault m = None" if "m \<in> {?m0, m1, m2, m3, m4, m5, m6, m7, m8}" for m
    using that by (auto simp: ms)
  have st: "?run (Suc k) m'" if "?run k m" "m \<in> {?m0, m1, m2, m3, m4, m5, m6, m7, m8}"
      "sendResponse True sz flen m m' \<or> processResponse put puthdr m m'" for k m m'
    using shm_run.step [OF that(1) f [OF that(2)]] that(3) by (simp add: shm_step_def)
  have "?run 1 m1" using st [OF shm_run.start] c1 by simp
  then have "?run 2 m2" using st [of 1 m1 m2] c2 by (simp add: numeral_2_eq_2)
  then have "?run 3 m3" using st [of 2 m2 m3] c3 by simp
  then have "?run 4 m4" using st [of 3 m3 m4] c4 by simp
  then have "?run 5 m5" using st [of 4 m4 m5] c5 by simp
  then have "?run 6 m6" using st [of 5 m5 m6] c6 by simp
  then have "?run 7 m7" using st [of 6 m6 m7] c7 by simp
  then have "?run 8 m8" using st [of 7 m7 m8] c8 by simp
  then have "?run 9 m9" using st [of 8 m8 m9] c9 by simp
  moreover have "sendResponse True sz flen m9 (m9\<lparr>s_cache := s_cache m9 - 1, s_cx := C_Copy (size_of_int r)\<rparr>)"
    by (rule sendResponse.c_wait) (simp_all add: ms)
  moreover have "s_requeued m9 \<and> s_px m9 = P_End (-1) \<and> s_cx m9 = C_Wait (size_of_int r)" by (simp add: ms)
  ultimately show ?thesis by fastforce
qed

theorem shm_requeued_too_early_witness:
  "\<exists>k m. shm_run (\<lambda>d c. (-1, c)) (\<lambda>st n c. (0, c)) True 4 6 (shm_init () example_cached 0 0) k m \<and>
    s_requeued m \<and> s_cx m = C_Wait 2"
proof -
  have "fread 4 (example_cached\<lparr>foff := 0\<rparr>) = (2, ''ca'', \<lparr>fbytes = ''cached'', foff = 2, rdplan = []\<rparr>)"
    by (simp add: fread_def example_cached_def Let_def numeral_eq_Suc)
  then show ?thesis
    using shm_requeued_too_early [of "\<lambda>d c. (-1, c)" 4 example_cached 2 _ _ 6 "\<lambda>st n c. (0, c)" "()" 0 0]
    by (fastforce simp: size_of_int_def)
qed

end
