(* ===== verification/CacheSystem.thy ===== *)
theory CacheSystem
  imports SegmentPool
begin

section \<open>The cache proxy and the cache process as one system (pr3/cache)\<close>

text \<open>
  All worker threads of the proxy, the pool of segments, the message queue and all worker threads of the cache,
  in any interleaving, each serving request after request.  A proxy worker runs \<open>handle_with_cache\<close>: the
  wait for a segment is that of \<open>SegmentPool\<close>, the transfer is \<open>processResponse\<close> and \<open>sendResponse\<close> of
  \<open>ShmCache\<close> on the segment's memory; a cache worker runs \<open>workerRoutine\<close>.
\<close>

subsection \<open>States\<close>

text \<open>
  Where a proxy worker is, with the path and the connection (as it was at the start) of its request: idle; before
  the lock of the mutex; asleep on the condition variable; before the first broadcast; before the
  initialisation of the semaphores; before \<open>mq_send\<close>; in \<open>processResponse\<close>; before the lock in \<open>queueMemory\<close>; before
  the second broadcast, with the connection and whether the file is missing; before the header of a missing file.
\<close>

datatype 's pw = W_Idle | W_Enter string 's | W_Sleep string 's | W_Took string 's shm_details | W_Init string 's shm_details
  | W_Mq string 's shm_details | W_Run string 's shm_details | W_Put string 's shm_details | W_Back string 's 's bool | W_Reply string 's 's

text \<open>
  The segments are known by their names.  A cache worker is in \<open>mq_receive\<close> (\<open>None\<close>) or answers a message with the descriptor it
  has found.  \<open>cs_todo\<close> are the connections that the server library has accepted, \<open>cs_done\<close> the answered ones with the
  connection before and after.
\<close>

record 's csys =
  cs_queue :: "shm_details steque"
  cs_pw :: "nat \<Rightarrow> 's pw"
  cs_mem :: "string \<Rightarrow> 's shm"
  cs_mq :: "req_struct list"
  cs_cw :: "nat \<Rightarrow> (req_struct \<times> int) option"
  cs_offs :: "int \<Rightarrow> nat"
  cs_todo :: "(string \<times> 's) list"
  cs_done :: "(string \<times> 's \<times> 's) list"
  cs_fault :: "fault option"

text \<open>What does not change: the table of the cache, the contents behind its descriptors, the numbers of workers, and whether the queue could be
  opened (the cache must have been started first).\<close>

record cache_env =
  ce_tab :: "entry list"
  ce_files :: "int \<Rightarrow> char list"
  ce_proxies :: nat
  ce_caches :: nat
  ce_mq :: bool

definition wake_pw :: "(nat \<Rightarrow> 's pw) \<Rightarrow> nat \<Rightarrow> 's pw" where
  "wake_pw pw = (\<lambda>j. case pw j of W_Sleep p c \<Rightarrow> W_Enter p c | w \<Rightarrow> w)"

text \<open>\<open>sem_init\<close> of the three semaphores; the rest of the segment is as the last request has left it.\<close>

definition sem_inits :: "'s \<Rightarrow> 's shm \<Rightarrow> 's shm" where
  "sem_inits c m = m\<lparr>s_filelen := 0, s_proxy := 0, s_cache := 1, s_px := P_WaitLen, s_cx := C_Start, s_conn := c, s_requeued := False,
    s_fault := None\<rparr>"

text \<open>Where the worker is after a step of \<open>processResponse\<close>: a status that is neither 200 nor 404 ends the request
  and keeps the segment.\<close>

fun after_process :: "string \<Rightarrow> 's \<Rightarrow> shm_details \<Rightarrow> proxy_pc \<Rightarrow> 's pw" where
  "after_process p c shm (P_Requeue t) = W_Put p c shm"
| "after_process p c shm P_Requeue404 = W_Put p c shm"
| "after_process p c shm (P_End t) = W_Idle"
| "after_process p c shm px = W_Run p c shm"

definition done_after :: "string \<Rightarrow> 's \<Rightarrow> 's shm \<Rightarrow> (string \<times> 's \<times> 's) list" where
  "done_after p c m = (case s_px m of P_End t \<Rightarrow> [(p, c, s_conn m)] | _ \<Rightarrow> [])"

subsection \<open>Steps\<close>

text \<open>The proxy: \<open>handle_with_cache\<close> up to the transfer.  The message queue takes ten messages (\<open>attr\<close> of simplecached.c); \<open>mq_send\<close> waits while
  it is full, and fails, which is only printed, when it could not be opened.\<close>

inductive hwc_step :: "cache_env \<Rightarrow> 's csys \<Rightarrow> 's csys \<Rightarrow> bool" for e where
  y_accept: "i < ce_proxies e \<Longrightarrow> cs_pw y i = W_Idle \<Longrightarrow> cs_todo y = (p, c) # rest \<Longrightarrow>
    hwc_step e y (y\<lparr>cs_pw := (cs_pw y)(i := W_Enter p c), cs_todo := rest\<rparr>)"
| y_sleep: "i < ce_proxies e \<Longrightarrow> cs_pw y i = W_Enter p c \<Longrightarrow> steque_isempty (cs_queue y) \<Longrightarrow>
    hwc_step e y (y\<lparr>cs_pw := (cs_pw y)(i := W_Sleep p c)\<rparr>)"
| y_take: "i < ce_proxies e \<Longrightarrow> cs_pw y i = W_Enter p c \<Longrightarrow> \<not> steque_isempty (cs_queue y) \<Longrightarrow>
    handle_with_cache p (cs_queue y) = Inr (r, shm, q') \<Longrightarrow>
    hwc_step e y (y\<lparr>cs_queue := q', cs_pw := (cs_pw y)(i := W_Took p c shm)\<rparr>)"
| y_broadcast: "i < ce_proxies e \<Longrightarrow> cs_pw y i = W_Took p c shm \<Longrightarrow>
    hwc_step e y (y\<lparr>cs_pw := (wake_pw (cs_pw y))(i := W_Init p c shm)\<rparr>)"
| y_init: "i < ce_proxies e \<Longrightarrow> cs_pw y i = W_Init p c shm \<Longrightarrow>
    hwc_step e y (y\<lparr>cs_pw := (cs_pw y)(i := W_Mq p c shm),
      cs_mem := (cs_mem y)(shm_id shm := sem_inits c (cs_mem y (shm_id shm)))\<rparr>)"
| y_send: "i < ce_proxies e \<Longrightarrow> cs_pw y i = W_Mq p c shm \<Longrightarrow> ce_mq e \<Longrightarrow> length (cs_mq y) < 10 \<Longrightarrow>
    hwc_step e y (y\<lparr>cs_pw := (cs_pw y)(i := W_Run p c shm), cs_mq := cs_mq y @ [make_request p shm]\<rparr>)"
| y_send_fails: "i < ce_proxies e \<Longrightarrow> cs_pw y i = W_Mq p c shm \<Longrightarrow> \<not> ce_mq e \<Longrightarrow>
    hwc_step e y (y\<lparr>cs_pw := (cs_pw y)(i := W_Run p c shm)\<rparr>)"

text \<open>The proxy: \<open>processResponse\<close> and \<open>queueMemory\<close>.\<close>

inductive reply_step :: "'s body_fn \<Rightarrow> 's hdr_fn \<Rightarrow> cache_env \<Rightarrow> 's csys \<Rightarrow> 's csys \<Rightarrow> bool" for put puthdr e where
  y_process: "i < ce_proxies e \<Longrightarrow> cs_pw y i = W_Run p c shm \<Longrightarrow> processResponse put puthdr (cs_mem y (shm_id shm)) m' \<Longrightarrow>
    reply_step put puthdr e y (y\<lparr>cs_pw := (cs_pw y)(i := after_process p c shm (s_px m')),
      cs_mem := (cs_mem y)(shm_id shm := m'), cs_done := cs_done y @ done_after p c m'\<rparr>)"
| y_put: "i < ce_proxies e \<Longrightarrow> cs_pw y i = W_Put p c shm \<Longrightarrow> cs_mem y (shm_id shm) = m \<Longrightarrow> nodes (cs_queue y) a = None \<Longrightarrow>
    steque_enqueue (Some a) shm (cs_queue y) = Inr q' \<Longrightarrow>
    reply_step put puthdr e y (y\<lparr>cs_queue := q', cs_mem := (cs_mem y)(shm_id shm := queueMemory m),
      cs_pw := (cs_pw y)(i := W_Back p c (s_conn m) (s_px m = P_Requeue404))\<rparr>)"
| y_back: "i < ce_proxies e \<Longrightarrow> cs_pw y i = W_Back p c c' missing \<Longrightarrow>
    reply_step put puthdr e y (y\<lparr>cs_pw := (wake_pw (cs_pw y))(i := if missing then W_Reply p c c' else W_Idle),
      cs_done := cs_done y @ (if missing then [] else [(p, c, c')])\<rparr>)"
| y_reply: "i < ce_proxies e \<Longrightarrow> cs_pw y i = W_Reply p c c' \<Longrightarrow> puthdr S_GF_FILE_NOT_FOUND 0 c' = (r, c'') \<Longrightarrow>
    reply_step put puthdr e y (y\<lparr>cs_pw := (cs_pw y)(i := W_Idle), cs_done := cs_done y @ [(p, c, c'')]\<rparr>)"

text \<open>The cache: \<open>mq_receive\<close> with the lookup, and the steps of \<open>sendResponse\<close>.  The pieces that \<open>pread\<close> will deliver are not known before.
  The worker is back in \<open>mq_receive\<close> when \<open>sendResponse\<close> has ended.\<close>

inductive cache_step :: "cache_env \<Rightarrow> 's csys \<Rightarrow> 's csys \<Rightarrow> bool" for e where
  y_receive: "j < ce_caches e \<Longrightarrow> cs_cw y j = None \<Longrightarrow> cs_mq y = r # rest \<Longrightarrow> workerRoutine (ce_tab e) r (cs_offs y) = Inr (fd, offs') \<Longrightarrow>
    fbytes f = ce_files e fd \<Longrightarrow> rd_good f \<Longrightarrow>
    cache_step e y (y\<lparr>cs_cw := (cs_cw y)(j := Some (r, fd)), cs_mq := rest, cs_offs := offs',
      cs_mem := (cs_mem y)(rq_shm_id r := (cs_mem y (rq_shm_id r))\<lparr>s_file := f\<rparr>)\<rparr>)"
| y_receive_fault: "j < ce_caches e \<Longrightarrow> cs_cw y j = None \<Longrightarrow> cs_mq y = r # rest \<Longrightarrow> workerRoutine (ce_tab e) r (cs_offs y) = Inl x \<Longrightarrow>
    cache_step e y (y\<lparr>cs_mq := rest, cs_fault := Some x\<rparr>)"
| y_respond: "j < ce_caches e \<Longrightarrow> cs_cw y j = Some (r, fd) \<Longrightarrow>
    sendResponse (0 \<le> fd) (unat (rq_segsize r)) (of_nat (length (ce_files e fd))) (cs_mem y (rq_shm_id r)) m' \<Longrightarrow>
    cache_step e y (y\<lparr>cs_cw := (cs_cw y)(j := if s_cx m' = C_End then None else Some (r, fd)),
      cs_mem := (cs_mem y)(rq_shm_id r := m'), cs_fault := (case s_fault m' of None \<Rightarrow> cs_fault y | Some x \<Rightarrow> Some x)\<rparr>)"

definition csys_step :: "'s body_fn \<Rightarrow> 's hdr_fn \<Rightarrow> cache_env \<Rightarrow> 's csys \<Rightarrow> 's csys \<Rightarrow> bool" where
  "csys_step put puthdr e y y' \<longleftrightarrow> hwc_step e y y' \<or> reply_step put puthdr e y y' \<or> cache_step e y y'"

text \<open>A wake-up without a broadcast.\<close>

inductive csys_spurious :: "cache_env \<Rightarrow> 's csys \<Rightarrow> 's csys \<Rightarrow> bool" for e where
  y_spurious: "i < ce_proxies e \<Longrightarrow> cs_pw y i = W_Sleep p c \<Longrightarrow> csys_spurious e y (y\<lparr>cs_pw := (cs_pw y)(i := W_Enter p c)\<rparr>)"

text \<open>The start: a pool, requests, whatever is in the segments.\<close>

definition csys_start :: "shm_details steque \<Rightarrow> (string \<times> 's) list \<Rightarrow> (string \<Rightarrow> 's shm) \<Rightarrow> (int \<Rightarrow> nat) \<Rightarrow> 's csys" where
  "csys_start q reqs mem offs = \<lparr>cs_queue = q, cs_pw = \<lambda>_. W_Idle, cs_mem = mem, cs_mq = [], cs_cw = \<lambda>_. None, cs_offs = offs,
    cs_todo = reqs, cs_done = [], cs_fault = None\<rparr>"

inductive csys_run :: "'s body_fn \<Rightarrow> 's hdr_fn \<Rightarrow> cache_env \<Rightarrow> 's csys \<Rightarrow> nat \<Rightarrow> 's csys \<Rightarrow> bool" for put puthdr e y0 where
  run_start: "csys_run put puthdr e y0 0 y0"
| run_step: "csys_run put puthdr e y0 k y \<Longrightarrow> cs_fault y = None \<Longrightarrow> csys_step put puthdr e y y' \<Longrightarrow> csys_run put puthdr e y0 (Suc k) y'"

inductive csys_reach :: "'s body_fn \<Rightarrow> 's hdr_fn \<Rightarrow> cache_env \<Rightarrow> 's csys \<Rightarrow> 's csys \<Rightarrow> bool" for put puthdr e y0 where
  reach_start: "csys_reach put puthdr e y0 y0"
| reach_step: "csys_reach put puthdr e y0 y \<Longrightarrow> cs_fault y = None \<Longrightarrow> csys_step put puthdr e y y' \<or> csys_spurious e y y' \<Longrightarrow>
    csys_reach put puthdr e y0 y'"

end
