(* ===== verification/CacheInv.thy ===== *)
theory CacheInv
  imports CacheSystem
begin

section \<open>An invariant of the cache proxy and the cache process as one system\<close>

text \<open>
  The pool of the system is the pool of \<open>SegmentPool\<close> (\<open>abs_pool\<close>, a refinement), so that its invariant holds of it and no two workers use the
  segment of one name; each worker's transfer then keeps the invariant of \<open>ShmCache\<close>, whatever the others do.  The requests in
  the queue and at the cache workers are those of the workers that wait for the cache.
\<close>

subsection \<open>The pool\<close>

fun k_of :: "'s pw \<Rightarrow> worker" where
  "k_of W_Idle = K_Enter" | "k_of (W_Enter p c) = K_Enter" | "k_of (W_Reply p c c') = K_Enter"
| "k_of (W_Sleep p c) = K_Sleep" | "k_of (W_Took p c s) = K_Took s"
| "k_of (W_Init p c s) = K_Use s" | "k_of (W_Mq p c s) = K_Use s" | "k_of (W_Run p c s) = K_Use s"
| "k_of (W_Put p c s) = K_Put s" | "k_of (W_Back p c c' missing) = K_Back"

definition abs_pool :: "'s csys \<Rightarrow> pool" where
  "abs_pool y = \<lparr>pl_queue = cs_queue y, pl_pc = \<lambda>i. k_of (cs_pw y i)\<rparr>"

text \<open>The segment a worker uses, and its request.\<close>

definition pw_seg :: "'s pw \<Rightarrow> shm_details option" where
  "pw_seg w = (case k_of w of K_Took s \<Rightarrow> Some s | K_Use s \<Rightarrow> Some s | K_Put s \<Rightarrow> Some s | _ \<Rightarrow> None)"

fun pw_job :: "'s pw \<Rightarrow> (string \<times> 's) multiset" where
  "pw_job W_Idle = {#}" | "pw_job (W_Enter p c) = {#(p, c)#}" | "pw_job (W_Sleep p c) = {#(p, c)#}"
| "pw_job (W_Took p c s) = {#(p, c)#}" | "pw_job (W_Init p c s) = {#(p, c)#}" | "pw_job (W_Mq p c s) = {#(p, c)#}"
| "pw_job (W_Run p c s) = {#(p, c)#}" | "pw_job (W_Put p c s) = {#(p, c)#}"
| "pw_job (W_Back p c c' missing) = {#(p, c)#}" | "pw_job (W_Reply p c c') = {#(p, c)#}"

lemma pw_seg_simps [simp]:
  "pw_seg W_Idle = None" "pw_seg (W_Enter p c) = None" "pw_seg (W_Reply p c c') = None" "pw_seg (W_Sleep p c) = None"
  "pw_seg (W_Took p c s) = Some s" "pw_seg (W_Init p c s) = Some s" "pw_seg (W_Mq p c s) = Some s" "pw_seg (W_Run p c s) = Some s"
  "pw_seg (W_Put p c s) = Some s" "pw_seg (W_Back p c c' missing) = None"
  by (simp_all add: pw_seg_def)

lemma held_seg: "held (k_of w) = (case pw_seg w of None \<Rightarrow> {#} | Some s \<Rightarrow> {#s#})"
  by (cases w) simp_all

lemma wake_pw_simps [simp]:
  "pw_seg (wake_pw pw j) = pw_seg (pw j)" "pw_job (wake_pw pw j) = pw_job (pw j)"
  "k_of (wake_pw pw j) = wake (\<lambda>i. k_of (pw i)) j"
  by (cases "pw j"; simp add: wake_pw_def wake_def)+

lemma k_of_upd: "(\<lambda>j. k_of ((pw(i := v)) j)) = (\<lambda>j. k_of (pw j))(i := k_of v)"
  by (simp add: fun_eq_iff)

lemma k_of_wake_upd: "(\<lambda>j. k_of (((wake_pw pw)(i := v)) j)) = (wake (\<lambda>j. k_of (pw j)))(i := k_of v)"
  by (simp add: fun_eq_iff)

text \<open>The steps of the system are steps of the pool, or do not concern it.  A transfer that ends with neither status
  does not occur (\<open>reply_ok\<close>); here it is excluded.\<close>

lemma hwc_step_pool:
  assumes "hwc_step e y y'"
  shows "abs_pool y' = abs_pool y \<or> pool_step (ce_proxies e) (abs_pool y) (abs_pool y')"
  using assms
proof (cases rule: hwc_step.cases)
  case (y_accept i p c rest)
  then show ?thesis by (auto simp: abs_pool_def k_of_upd)
next
  case (y_sleep i p c)
  then show ?thesis using pool_steps(2) [of i "ce_proxies e" "abs_pool y"] by (simp add: abs_pool_def k_of_upd del: fun_upd_apply)
next
  case (y_take i p c r shm q')
  then show ?thesis using pool_steps(3) [of i "ce_proxies e" "abs_pool y" p r shm q'] by (simp add: abs_pool_def k_of_upd del: fun_upd_apply)
next
  case (y_broadcast i p c shm)
  then show ?thesis using pool_steps(4) [of i "ce_proxies e" "abs_pool y" shm] by (simp add: abs_pool_def k_of_wake_upd del: fun_upd_apply)
next
  case (y_init i p c shm)
  then show ?thesis by (auto simp: abs_pool_def k_of_upd)
next
  case (y_send i p c shm)
  then show ?thesis by (auto simp: abs_pool_def k_of_upd)
next
  case (y_send_fails i p c shm)
  then show ?thesis by (auto simp: abs_pool_def k_of_upd)
qed

lemma reply_step_pool:
  assumes "reply_step put puthdr e y y'"
    and "\<And>i p c s m'. i < ce_proxies e \<Longrightarrow> cs_pw y i = W_Run p c s \<Longrightarrow> processResponse put puthdr (cs_mem y (shm_id s)) m' \<Longrightarrow>
      after_process p c s (s_px m') \<noteq> W_Idle"
  shows "abs_pool y' = abs_pool y \<or> pool_step (ce_proxies e) (abs_pool y) (abs_pool y')"
  using assms(1)
proof (cases rule: reply_step.cases)
  case (y_process i p c shm m')
  have "after_process p c shm (s_px m') \<noteq> W_Idle" using assms(2) [OF y_process(2,3,4)] .
  then consider "after_process p c shm (s_px m') = W_Put p c shm" | "after_process p c shm (s_px m') = W_Run p c shm"
    by (cases "s_px m'") auto
  then show ?thesis
  proof cases
    case 1
    then show ?thesis using y_process pool_step.k_transfer [of i "ce_proxies e" "abs_pool y" shm] by (simp add: abs_pool_def k_of_upd del: fun_upd_apply)
  qed (use y_process in \<open>auto simp: abs_pool_def k_of_upd\<close>)
next
  case (y_put i p c shm m a q')
  then show ?thesis using pool_steps(5) [of i "ce_proxies e" "abs_pool y" shm a q'] by (simp add: abs_pool_def k_of_upd del: fun_upd_apply)
next
  case (y_back i p c c' missing)
  then show ?thesis using pool_steps(6) [of i "ce_proxies e" "abs_pool y"] by (cases missing) (simp_all add: abs_pool_def k_of_wake_upd del: fun_upd_apply)
next
  case (y_reply i p c c' r c'')
  then show ?thesis by (auto simp: abs_pool_def k_of_upd)
qed

lemma cache_step_pool: "cache_step e y y' \<Longrightarrow> abs_pool y' = abs_pool y"
  by (cases rule: cache_step.cases) (auto simp: abs_pool_def)

lemma spurious_pool:
  assumes "csys_spurious e y y'"
  shows "pool_spurious (ce_proxies e) (abs_pool y) (abs_pool y')"
  using assms
proof (cases rule: csys_spurious.cases)
  case (y_spurious i p c)
  then show ?thesis using pool_spurious.k_spurious [of i "ce_proxies e" "abs_pool y"] by (simp add: abs_pool_def k_of_upd del: fun_upd_apply)
qed

subsection \<open>What holds of each worker\<close>

text \<open>
  The line of the list for a path, and what is behind its descriptor; and what the cache answers with: a path of 128 and more
  characters does not fit into the message, and is not found (\<open>path_ok\<close>).
\<close>

definition cache_fd :: "cache_env \<Rightarrow> string \<Rightarrow> int" where
  "cache_fd e p = (case find (\<lambda>x. key x = p) (ce_tab e) of None \<Rightarrow> -1 | Some x \<Rightarrow> fildes x)"

definition cache_body :: "cache_env \<Rightarrow> string \<Rightarrow> char list" where
  "cache_body e p = ce_files e (cache_fd e p)"

definition served_fd :: "cache_env \<Rightarrow> string \<Rightarrow> int" where
  "served_fd e p = (if length p < 128 then cache_fd e p else -1)"

definition served_body :: "cache_env \<Rightarrow> string \<Rightarrow> char list" where
  "served_body e p = ce_files e (served_fd e p)"

text \<open>A segment after the semaphores were initialised.\<close>

definition fresh :: "'s \<Rightarrow> 's shm \<Rightarrow> bool" where
  "fresh c m \<longleftrightarrow> s_filelen m = 0 \<and> s_proxy m = 0 \<and> s_cache m = 1 \<and> s_px m = P_WaitLen \<and> s_cx m = C_Start \<and>
    s_conn m = c \<and> \<not> s_requeued m \<and> s_fault m = None"

text \<open>
  The paths of the requests are strings of C; one of 128 and more characters must not become a key of the list by the name of the
  segment that is read as its end.
\<close>

definition path_ok :: "cache_env \<Rightarrow> shm_details steque \<Rightarrow> string \<Rightarrow> bool" where
  "path_ok e q0 p \<longleftrightarrow> NUL \<notin> set p \<and>
    (128 \<le> length p \<longrightarrow> (\<forall>s\<in>set (steque_abs q0). request_path (make_request p s) \<notin> key ` set (ce_tab e)))"

text \<open>So it is when the path or all the keys are shorter.\<close>

definition path_fits :: "cache_env \<Rightarrow> string \<Rightarrow> bool" where
  "path_fits e p \<longleftrightarrow> NUL \<notin> set p \<and> (length p < 128 \<or> (\<forall>x\<in>set (ce_tab e). length (key x) < 128))"

lemma take_not_NUL: "NUL \<notin> set p \<Longrightarrow> takeWhile (\<lambda>c. c \<noteq> NUL) (take n p @ xs) = take n p @ takeWhile (\<lambda>c. c \<noteq> NUL) xs"
  by (rule takeWhile_append2) (auto dest: in_set_takeD)

lemma until_NUL: "NUL \<notin> set p \<Longrightarrow> takeWhile (\<lambda>c. c \<noteq> NUL) (p @ NUL # xs) = p"
  using take_not_NUL [of p "length p" "NUL # xs"] by simp

lemma request_path_make: "NUL \<notin> set p \<Longrightarrow> request_path (make_request p s) =
    (if length p < 128 then p else take 128 p @ takeWhile (\<lambda>c. c \<noteq> NUL) (shm_id s))"
  by (cases "128 - length p") (auto simp: request_path_def make_request_def take_not_NUL until_NUL)

lemma cache_fd_absent: "p \<notin> key ` set (ce_tab e) \<Longrightarrow> cache_fd e p = -1"
  by (auto simp: cache_fd_def find_Some_iff split: option.splits)

lemma path_served:
  assumes "path_ok e q0 p" "s \<in> set (steque_abs q0)"
  shows "cache_fd e (request_path (make_request p s)) = served_fd e p" "cache_body e (request_path (make_request p s)) = served_body e p"
proof -
  show "cache_fd e (request_path (make_request p s)) = served_fd e p"
    using assms by (auto simp: path_ok_def served_fd_def cache_fd_absent request_path_make)
  then show "cache_body e (request_path (make_request p s)) = served_body e p" by (simp add: cache_body_def served_body_def)
qed

lemma long_absent: "\<forall>x\<in>set (ce_tab e). length (key x) < 128 \<Longrightarrow> 128 \<le> length p \<Longrightarrow> p \<notin> key ` set (ce_tab e)"
  by auto

lemma path_fits_ok: "path_fits e p \<Longrightarrow> path_ok e q0 p"
  using long_absent [of e "request_path (make_request p s)" for s] by (fastforce simp: path_fits_def path_ok_def request_path_make)

lemma path_fits_served:
  assumes "path_fits e p"
  shows "served_fd e p = cache_fd e p" "served_body e p = cache_body e p"
proof -
  show "served_fd e p = cache_fd e p" using assms by (auto simp: served_fd_def path_fits_def cache_fd_absent [OF long_absent])
  then show "served_body e p = cache_body e p" by (simp add: cache_body_def served_body_def)
qed

lemma workerRoutine_request:
  assumes "sorted_items (ce_tab e)" "distinct (map key (ce_tab e))" "path_ok e q0 p" "s \<in> set (steque_abs q0)"
  shows "\<exists>offs'. workerRoutine (ce_tab e) (make_request p s) offs = Inr (served_fd e p, offs')"
  using content_get_find [OF assms(1,2), of "request_path (make_request p s)" offs]
  by (simp add: workerRoutine_def simplecache_get_eq path_served(1) [OF assms(3,4), symmetric] cache_fd_def split: option.splits)

context gf_io
begin

definition answer :: "cache_env \<Rightarrow> string \<Rightarrow> char list" where
  "answer e p = (if 0 \<le> served_fd e p then hdr_text S_GF_OK (of_nat (length (served_body e p))) @ served_body e p
    else hdr_text S_GF_FILE_NOT_FOUND 0)"

definition run_ok :: "cache_env \<Rightarrow> string \<Rightarrow> 's \<Rightarrow> shm_details \<Rightarrow> 's shm \<Rightarrow> bool" where
  "run_ok e p c s m \<longleftrightarrow>
    (if s_cx m = C_Start then fresh c m
     else if 0 \<le> served_fd e p
     then shm_inv (unat (segsize s)) (of_nat (length (served_body e p))) (sent c) (served_body e p) m
     else s_cx m = C_End \<and> s_filelen m = 1 \<and> s_status m = 404 \<and> s_px m = P_WaitLen \<and> s_conn m = c) \<and>
    after_process p c s (s_px m) = W_Run p c s"

definition put_ok :: "cache_env \<Rightarrow> string \<Rightarrow> 's \<Rightarrow> 's shm \<Rightarrow> bool" where
  "put_ok e p c m \<longleftrightarrow> s_cx m = C_End \<and> healthy (s_conn m) \<and>
    (if s_px m = P_Requeue404 then served_fd e p < 0 \<and> s_conn m = c else sent (s_conn m) = sent c @ answer e p)"

fun pw_ok :: "cache_env \<Rightarrow> (string \<Rightarrow> 's shm) \<Rightarrow> 's pw \<Rightarrow> bool" where
  "pw_ok e mem (W_Mq p c s) = fresh c (mem (shm_id s))"
| "pw_ok e mem (W_Run p c s) = run_ok e p c s (mem (shm_id s))"
| "pw_ok e mem (W_Put p c s) = put_ok e p c (mem (shm_id s))"
| "pw_ok e mem (W_Back p c c' missing) =
    (healthy c' \<and> (if missing then served_fd e p < 0 \<and> c' = c else sent c' = sent c @ answer e p))"
| "pw_ok e mem (W_Reply p c c') = (served_fd e p < 0 \<and> c' = c)"
| "pw_ok e mem w = True"

lemma pw_ok_frame:
  "(\<And>s. pw_seg w = Some s \<Longrightarrow> mem' (shm_id s) = mem (shm_id s)) \<Longrightarrow> pw_ok e mem' w = pw_ok e mem w"
  by (cases w) simp_all

lemma pw_ok_wake [simp]: "pw_ok e mem (wake_pw pw j) = pw_ok e mem (pw j)"
  by (cases "pw j") (simp_all add: wake_pw_def)

lemma shm_inv_start:
  assumes "fresh c m" "0 < sz \<and> sz \<le> STACK_ROOM" "fbytes (s_file m) = body" "length body < 2 ^ 63" "healthy c" "rd_good (s_file m)"
  shows "shm_inv sz (of_nat (length body)) (sent c) body m"
  using assms by (simp add: fresh_def shm_inv_def shm_token_def shm_block_def shm_pcs_def shm_data_ok_def)

lemma shm_inv_requeue:
  assumes "shm_inv sz flen base body m" "s_px m = P_Requeue t"
  shows "s_cx m = C_End \<and> healthy (s_conn m) \<and> sent (s_conn m) = base @ hdr_text S_GF_OK flen @ body"
proof -
  note f = shm_inv_facts [OF assms(1)]
  note p = shm_invD(3,4) [OF assms(1)]
  then have t: "t = flen" using assms(2) by (simp add: shm_pcs_def)
  then have "c_off (length body) (s_cx m) = length body" using f(1,2,3) assms(2) by simp
  then have "s_cx m = C_End" using p(1) f(4) assms(2) by (cases "s_cx m") (auto simp: shm_pcs_def)
  then show ?thesis using t p(2) f(1) assms by (simp add: shm_data_ok_def shm_inv_def)
qed

lemma after_process_run: "after_process p c s px = W_Run p c s \<longleftrightarrow> (\<forall>t. px \<noteq> P_Requeue t \<and> px \<noteq> P_End t) \<and> px \<noteq> P_Requeue404"
  by (cases px) auto

text \<open>A step of \<open>processResponse\<close> in a worker.\<close>

lemma process_cx: "processResponse put puthdr m m' \<Longrightarrow> s_cx m' = s_cx m \<and> s_file m' = s_file m \<and> s_fault m' = s_fault m"
  by (cases rule: processResponse.cases) (auto simp: queueMemory_def)

lemma run_process:
  assumes "run_ok e p c s m" "processResponse put puthdr m m'" "healthy c"
  shows "after_process p c s (s_px m') = W_Run p c s \<and> run_ok e p c s m' \<or>
    after_process p c s (s_px m') = W_Put p c s \<and> put_ok e p c m'"
    and "done_after p c m' = []"
    and "shm_measure (if 0 \<le> served_fd e p then length (served_body e p) else 0) m' <
      shm_measure (if 0 \<le> served_fd e p then length (served_body e p) else 0) m"
proof -
  let ?L = "if 0 \<le> served_fd e p then length (served_body e p) else 0"
  have ns: "s_cx m \<noteq> C_Start" using assms(1,2) by (auto simp: run_ok_def fresh_def elim!: processResponse.cases)
  have px: "\<And>t. s_px m \<noteq> P_Requeue t" "s_px m \<noteq> P_Requeue404" using assms(1) by (auto simp: run_ok_def)
  have "(after_process p c s (s_px m') = W_Run p c s \<and> run_ok e p c s m' \<or>
    after_process p c s (s_px m') = W_Put p c s \<and> put_ok e p c m') \<and> done_after p c m' = [] \<and>
    shm_measure ?L m' < shm_measure ?L m"
  proof (cases "0 \<le> served_fd e p")
    case True
    let ?inv = "shm_inv (unat (segsize s)) (of_nat (length (served_body e p))) (sent c) (served_body e p)"
    have i: "?inv m" using assms(1) ns True by (simp add: run_ok_def)
    have st: "shm_step put puthdr True (unat (segsize s)) (of_nat (length (served_body e p))) m m'" using assms(2) by (simp add: shm_step_def)
    note i' = shm_inv_step [OF i st] and ms = shm_step_measure [OF i st]
    have cx: "s_cx m' \<noteq> C_Start" using process_cx [OF assms(2)] ns by simp
    have ne: "s_px m' \<noteq> P_End t" for t
      using assms(2) px i by (auto simp: shm_inv_def shm_pcs_def elim!: processResponse.cases split: if_splits)
    have n4: "s_px m' \<noteq> P_Requeue404" using shm_invD(3) [OF i'] by (auto simp: shm_pcs_def)
    then show ?thesis
      using True i' ms cx ne shm_inv_requeue [OF i']
      by (cases "s_px m'") (auto simp: run_ok_def put_ok_def done_after_def answer_def)
  next
    case False
    then have "s_cx m = C_End" "s_filelen m = 1" "s_status m = 404" "s_px m = P_WaitLen" "s_conn m = c"
      using assms(1) ns by (simp_all add: run_ok_def)
    then show ?thesis
      using assms(2,3) False by (auto elim!: processResponse.cases simp: put_ok_def done_after_def shm_measure_def)
  qed
  then show "after_process p c s (s_px m') = W_Run p c s \<and> run_ok e p c s m' \<or>
    after_process p c s (s_px m') = W_Put p c s \<and> put_ok e p c m'"
    and "done_after p c m' = []" and "shm_measure ?L m' < shm_measure ?L m" by blast+
qed

text \<open>A step of \<open>sendResponse\<close> for a worker that waits for the cache.\<close>

lemma run_respond:
  assumes "run_ok e p c s m" "s_cx m \<noteq> C_End" "healthy c" "0 < unat (segsize s) \<and> unat (segsize s) \<le> STACK_ROOM" "length (served_body e p) < 2 ^ 63"
    and "fbytes (s_file m) = served_body e p" "rd_good (s_file m)"
    and "sendResponse (0 \<le> served_fd e p) (unat (segsize s)) (of_nat (length (served_body e p))) m m'"
  shows "run_ok e p c s m' \<and> s_fault m' = None \<and> fbytes (s_file m') = served_body e p \<and> rd_good (s_file m') \<and> s_cx m' \<noteq> C_Start \<and>
    shm_measure (if 0 \<le> served_fd e p then length (served_body e p) else 0) m' <
    shm_measure (if 0 \<le> served_fd e p then length (served_body e p) else 0) m"
proof (cases "0 \<le> served_fd e p")
  case True
  let ?inv = "shm_inv (unat (segsize s)) (of_nat (length (served_body e p))) (sent c) (served_body e p)"
  have i: "?inv m"
    using assms(1) True shm_inv_start [OF _ assms(4,6,5,3,7)] by (auto simp: run_ok_def split: if_splits)
  have st: "shm_step put puthdr True (unat (segsize s)) (of_nat (length (served_body e p))) m m'"
    using assms(8) True by (simp add: shm_step_def)
  note i' = shm_inv_step [OF i st] and ms = shm_step_measure [OF i st]
  have "s_px m' = s_px m" "s_cx m' \<noteq> C_Start" using assms(4,8) by (auto elim!: sendResponse.cases split: if_splits)
  then show ?thesis using assms(1) True i' ms shm_invD(4) [OF i'] by (simp add: run_ok_def shm_data_ok_def)
next
  case False
  then have "fresh c m" using assms(1,2) by (auto simp: run_ok_def split: if_splits)
  then show ?thesis
    using assms(1,6-8) False by (auto simp: run_ok_def fresh_def shm_measure_def elim!: sendResponse.cases)
qed

text \<open>A worker that waits can go on, or its cache worker can.\<close>

lemma run_progress:
  assumes "run_ok e p c s m"
    and "\<nexists>m'. processResponse put puthdr m m'"
    and "s_cx m \<noteq> C_End \<Longrightarrow> \<nexists>m'. sendResponse (0 \<le> served_fd e p) (unat (segsize s)) (of_nat (length (served_body e p))) m m'"
  shows False
proof (cases "s_cx m = C_Start")
  case True
  then show False using assms(3) sendResponse.c_start sendResponse.c_start_404 by (metis cache_pc.distinct(5))
next
  case cx: False
  show False
  proof (cases "0 \<le> served_fd e p")
    case True
    then have i: "shm_inv (unat (segsize s)) (of_nat (length (served_body e p))) (sent c) (served_body e p) m"
      using assms(1) cx by (simp add: run_ok_def)
    have "\<nexists>m'. sendResponse True (unat (segsize s)) (of_nat (length (served_body e p))) m m'"
    proof (cases "s_cx m = C_End")
      case True
      then show ?thesis by (auto elim!: sendResponse.cases)
    qed (use assms(3) True in simp)
    then have "s_px m = P_End (of_nat (length (served_body e p)))" using shm_progress [OF i] assms(2) by (auto simp: shm_step_def)
    then show False using assms(1) by (simp add: run_ok_def)
  next
    case False
    then have "0 < s_filelen m" "s_status m = 404" "s_px m = P_WaitLen" using assms(1) cx by (simp_all add: run_ok_def)
    then show False using assms(2) processResponse.p_404 by blast
  qed
qed

end

subsection \<open>The invariant of the system\<close>

text \<open>The requests at the cache, and those of the workers that wait for it.\<close>

definition cw_req :: "(req_struct \<times> int) option \<Rightarrow> req_struct multiset" where
  "cw_req w = (case w of None \<Rightarrow> {#} | Some (r, fd) \<Rightarrow> {#r#})"

definition pw_req :: "(string \<Rightarrow> 's shm) \<Rightarrow> 's pw \<Rightarrow> req_struct multiset" where
  "pw_req mem w = (case w of W_Run p c s \<Rightarrow> if s_cx (mem (shm_id s)) \<noteq> C_End then {#make_request p s#} else {#} | _ \<Rightarrow> {#})"

definition cw_ok :: "cache_env \<Rightarrow> (string \<Rightarrow> 's shm) \<Rightarrow> (req_struct \<times> int) option \<Rightarrow> bool" where
  "cw_ok e mem w = (case w of None \<Rightarrow> True
    | Some (r, fd) \<Rightarrow> fd = cache_fd e (request_path r) \<and>
        fbytes (s_file (mem (rq_shm_id r))) = cache_body e (request_path r) \<and> rd_good (s_file (mem (rq_shm_id r))))"

lemma req_simps [simp]:
  "cw_req None = {#}" "cw_req (Some (r, fd)) = {#r#}"
  "pw_req mem W_Idle = {#}" "pw_req mem (W_Enter p c) = {#}" "pw_req mem (W_Sleep p c) = {#}" "pw_req mem (W_Took p c s) = {#}"
  "pw_req mem (W_Init p c s) = {#}" "pw_req mem (W_Mq p c s) = {#}" "pw_req mem (W_Put p c s) = {#}"
  "pw_req mem (W_Back p c c' missing) = {#}" "pw_req mem (W_Reply p c c') = {#}"
  "pw_req mem (W_Run p c s) = (if s_cx (mem (shm_id s)) \<noteq> C_End then {#make_request p s#} else {#})"
  "pw_req mem (wake_pw pw j) = pw_req mem (pw j)" "cw_ok e mem None"
  by (simp_all add: cw_req_def pw_req_def cw_ok_def wake_pw_def split: pw.splits)

lemma make_request_id [simp]: "rq_shm_id (make_request p s) = shm_id s" "rq_segsize (make_request p s) = segsize s"
  by (simp_all add: make_request_def)

lemma pw_req_frame:
  "(\<And>s. pw_seg w = Some s \<Longrightarrow> mem' (shm_id s) = mem (shm_id s)) \<Longrightarrow> pw_req mem' w = pw_req mem w"
  by (cases w) simp_all

lemma pw_req_seg: "r \<in># pw_req mem w \<Longrightarrow> \<exists>p c s. w = W_Run p c s \<and> r = make_request p s \<and> s_cx (mem (shm_id s)) \<noteq> C_End"
  by (cases w) (auto split: if_splits)

text \<open>What the system is started with.\<close>

definition cache_setup :: "cache_env \<Rightarrow> shm_details steque \<Rightarrow> bool" where
  "cache_setup e q0 \<longleftrightarrow> steque_wf q0 \<and> finite (dom (nodes q0)) \<and> steque_abs q0 \<noteq> [] \<and> int (length (steque_abs q0)) \<le> INT_MAX \<and>
    distinct (map shm_id (steque_abs q0)) \<and> (\<forall>s\<in>set (steque_abs q0). 0 < segsize s \<and> unat (segsize s) \<le> STACK_ROOM) \<and>
    sorted_items (ce_tab e) \<and> distinct (map key (ce_tab e)) \<and> (\<forall>fd. length (ce_files e fd) < 2 ^ 63) \<and>
    0 < ce_proxies e \<and> 0 < ce_caches e \<and> ce_mq e"

lemma cache_setupD:
  assumes "cache_setup e q0"
  shows "steque_wf q0" "finite (dom (nodes q0))" "steque_abs q0 \<noteq> []" "int (length (steque_abs q0)) \<le> INT_MAX"
    "distinct (map shm_id (steque_abs q0))" "\<forall>s\<in>set (steque_abs q0). 0 < segsize s \<and> unat (segsize s) \<le> STACK_ROOM"
    "sorted_items (ce_tab e)" "distinct (map key (ce_tab e))" "length (served_body e p) < 2 ^ 63" "0 < ce_proxies e" "0 < ce_caches e" "ce_mq e"
  using assms unfolding cache_setup_def served_body_def by blast+

lemma sum_subset_mono: "(\<And>k. F k \<subseteq># G k) \<Longrightarrow> (\<Sum>k<W. F k) \<subseteq># (\<Sum>k<(W :: nat). G k)"
  by (induction W) (auto intro: subset_mset.add_mono)

lemma image_mset_sum_less: "image_mset f (\<Sum>k<W. F k) = (\<Sum>k<(W :: nat). image_mset f (F k))"
  by (induction W) simp_all

lemma distinct_pair:
  assumes "{#a, b#} \<subseteq># mset xs" "distinct xs"
  shows "a \<noteq> b"
proof
  assume "a = b"
  then have "2 \<le> count (mset xs) a" using mset_subset_eq_count [OF assms(1), of a] by (simp add: numeral_2_eq_2)
  moreover have "count (mset xs) a \<le> 1" using assms(2) by (simp add: distinct_count_atmost_1)
  ultimately show False by linarith
qed

text \<open>No two workers use a segment of the same name.\<close>

lemma names_exclusive:
  assumes "cache_setup e q0" "pool_reach (ce_proxies e) q0 (abs_pool y)"
    and "i < ce_proxies e" "j < ce_proxies e" "i \<noteq> j" "pw_seg (cs_pw y i) = Some s" "pw_seg (cs_pw y j) = Some t"
  shows "shm_id s \<noteq> shm_id t"
proof -
  note st = cache_setupD [OF assms(1)]
  have sum: "mset (steque_abs (cs_queue y)) + (\<Sum>k<ce_proxies e. held (k_of (cs_pw y k))) = mset (steque_abs q0)"
    using pool_reach_inv [OF assms(2) st(1,2)] by (simp add: pool_inv_def abs_pool_def)
  have h: "held (k_of (cs_pw y i)) = {#s#}" "held (k_of (cs_pw y j)) = {#t#}" using assms(6,7) by (simp_all add: held_seg)
  have "held (k_of (cs_pw y i)) + held (k_of (cs_pw y j)) \<subseteq># (\<Sum>k<ce_proxies e. held (k_of (cs_pw y k)))"
    using assms(3-5) by (simp add: sum.remove [of "{..<ce_proxies e}" i] sum.remove [of "{..<ce_proxies e} - {i}" j])
  then have "{#s, t#} \<subseteq># mset (steque_abs q0)" unfolding h sum [symmetric]
    by (simp add: subset_mset.add_increasing add_mset_commute [of s t])
  then have "{#shm_id s, shm_id t#} \<subseteq># mset (map shm_id (steque_abs q0))" using image_mset_subseteq_mono [of "{#s, t#}" _ shm_id] by simp
  then show ?thesis using st(5) by (rule distinct_pair)
qed

lemma seg_in_pool:
  assumes "cache_setup e q0" "pool_reach (ce_proxies e) q0 (abs_pool y)" "i < ce_proxies e" "pw_seg (cs_pw y i) = Some s"
  shows "s \<in> set (steque_abs q0)" "0 < unat (segsize s) \<and> unat (segsize s) \<le> STACK_ROOM"
proof -
  note st = cache_setupD [OF assms(1)]
  have sum: "mset (steque_abs (cs_queue y)) + (\<Sum>k<ce_proxies e. held (k_of (cs_pw y k))) = mset (steque_abs q0)"
    using pool_reach_inv [OF assms(2) st(1,2)] by (simp add: pool_inv_def abs_pool_def)
  have "s \<in># (\<Sum>k<ce_proxies e. held (k_of (cs_pw y k)))"
    using held_in_sum [OF assms(3), of "\<lambda>k. k_of (cs_pw y k)"] assms(4) by (simp add: held_seg)
  then have "s \<in># mset (steque_abs q0)" unfolding sum [symmetric] by simp
  then show "s \<in> set (steque_abs q0)" by simp
  then show "0 < unat (segsize s) \<and> unat (segsize s) \<le> STACK_ROOM" using st(6) by (auto simp: word_less_nat_alt)
qed


context gf_io
begin

definition done_ok :: "cache_env \<Rightarrow> string \<times> 's \<times> 's \<Rightarrow> bool" where
  "done_ok e d \<longleftrightarrow> (case d of (p, c, c') \<Rightarrow> healthy c' \<and> sent c' = sent c @ answer e p)"

definition reqs_ok :: "cache_env \<Rightarrow> shm_details steque \<Rightarrow> (string \<times> 's) list \<Rightarrow> bool" where
  "reqs_ok e q0 reqs \<longleftrightarrow> (\<forall>x\<in>set reqs. path_ok e q0 (fst x) \<and> healthy (snd x))"

definition jobs :: "cache_env \<Rightarrow> 's csys \<Rightarrow> (string \<times> 's) multiset" where
  "jobs e y = mset (cs_todo y) + (\<Sum>i<ce_proxies e. pw_job (cs_pw y i)) + mset (map (\<lambda>(p, c, c'). (p, c)) (cs_done y))"

definition sys_inv :: "cache_env \<Rightarrow> shm_details steque \<Rightarrow> (string \<times> 's) list \<Rightarrow> 's csys \<Rightarrow> bool" where
  "sys_inv e q0 reqs y \<longleftrightarrow> cs_fault y = None \<and> pool_reach (ce_proxies e) q0 (abs_pool y) \<and>
    (\<forall>i<ce_proxies e. pw_ok e (cs_mem y) (cs_pw y i)) \<and>
    mset (cs_mq y) + (\<Sum>j<ce_caches e. cw_req (cs_cw y j)) = (\<Sum>i<ce_proxies e. pw_req (cs_mem y) (cs_pw y i)) \<and>
    (\<forall>r\<in>set (cs_mq y). s_cx (cs_mem y (rq_shm_id r)) = C_Start) \<and>
    (\<forall>j<ce_caches e. cw_ok e (cs_mem y) (cs_cw y j)) \<and> jobs e y = mset reqs \<and> (\<forall>d\<in>set (cs_done y). done_ok e d)"

lemma sys_invD:
  assumes "sys_inv e q0 reqs y"
  shows "cs_fault y = None" "pool_reach (ce_proxies e) q0 (abs_pool y)" "i < ce_proxies e \<Longrightarrow> pw_ok e (cs_mem y) (cs_pw y i)"
    "mset (cs_mq y) + (\<Sum>j<ce_caches e. cw_req (cs_cw y j)) = (\<Sum>i<ce_proxies e. pw_req (cs_mem y) (cs_pw y i))"
    "r \<in> set (cs_mq y) \<Longrightarrow> s_cx (cs_mem y (rq_shm_id r)) = C_Start" "j < ce_caches e \<Longrightarrow> cw_ok e (cs_mem y) (cs_cw y j)"
    "jobs e y = mset reqs" "d \<in> set (cs_done y) \<Longrightarrow> done_ok e d"
  using assms unfolding sys_inv_def by blast+

text \<open>The worker behind a request at the cache.\<close>

lemma request_worker:
  assumes "sys_inv e q0 reqs y" "r \<in> set (cs_mq y) \<or> (\<exists>j<ce_caches e. \<exists>fd. cs_cw y j = Some (r, fd))"
  shows "\<exists>i<ce_proxies e. \<exists>p c s. cs_pw y i = W_Run p c s \<and> r = make_request p s \<and> s_cx (cs_mem y (shm_id s)) \<noteq> C_End"
proof -
  have "r \<in># mset (cs_mq y) + (\<Sum>j<ce_caches e. cw_req (cs_cw y j))"
    using assms(2) by (auto simp: set_mset_sum) (metis lessThan_iff req_simps(2) set_mset_single singletonI)
  then have "\<exists>i<ce_proxies e. r \<in># pw_req (cs_mem y) (cs_pw y i)"
    unfolding sys_invD(4) [OF assms(1)] by (auto simp: set_mset_sum)
  then show ?thesis using pw_req_seg by metis
qed

lemma job_ok:
  assumes "sys_inv e q0 reqs y" "reqs_ok e q0 reqs" "i < ce_proxies e" "(p, c) \<in># pw_job (cs_pw y i)"
  shows "path_ok e q0 p \<and> healthy c"
proof -
  have "(p, c) \<in># jobs e y" using assms(3,4) by (auto simp: jobs_def set_mset_sum)
  then show ?thesis using assms(2) unfolding sys_invD(7) [OF assms(1)] by (auto simp: reqs_ok_def)
qed

text \<open>A step of one worker of the proxy, with or without a broadcast.\<close>

lemma sys_inv_worker:
  assumes "cache_setup e q0" "sys_inv e q0 reqs y" "i < ce_proxies e"
    and pw: "\<And>j. j \<noteq> i \<Longrightarrow> cs_pw y' j = cs_pw y j \<or> cs_pw y' j = wake_pw (cs_pw y) j"
    and pool: "pool_reach (ce_proxies e) q0 (abs_pool y')"
    and mem: "\<And>n. (\<And>s. pw_seg (cs_pw y i) = Some s \<Longrightarrow> n \<noteq> shm_id s) \<Longrightarrow> cs_mem y' n = cs_mem y n"
    and files: "\<And>n. s_file (cs_mem y' n) = s_file (cs_mem y n)"
    and cx: "\<And>p c s. cs_pw y i = W_Run p c s \<Longrightarrow> s_cx (cs_mem y' (shm_id s)) = s_cx (cs_mem y (shm_id s))"
    and ok: "pw_ok e (cs_mem y') (cs_pw y' i)"
    and req: "mset (cs_mq y') + pw_req (cs_mem y) (cs_pw y i) = mset (cs_mq y) + pw_req (cs_mem y') (cs_pw y' i)"
    and new: "\<And>r. r \<in> set (cs_mq y') \<Longrightarrow> r \<in> set (cs_mq y) \<or> s_cx (cs_mem y' (rq_shm_id r)) = C_Start"
    and cw: "cs_cw y' = cs_cw y" "cs_fault y' = cs_fault y"
    and job: "mset (cs_todo y') + pw_job (cs_pw y' i) + mset (map (\<lambda>(p, c, c'). (p, c)) (cs_done y')) =
      mset (cs_todo y) + pw_job (cs_pw y i) + mset (map (\<lambda>(p, c, c'). (p, c)) (cs_done y))"
    and dn: "\<And>d. d \<in> set (cs_done y') \<Longrightarrow> d \<in> set (cs_done y) \<or> done_ok e d"
  shows "sys_inv e q0 reqs y'"
proof -
  note I = sys_invD [OF assms(2)]
  have fr: "cs_mem y' (shm_id t) = cs_mem y (shm_id t)" if "j < ce_proxies e" "j \<noteq> i" "pw_seg (cs_pw y j) = Some t" for j t
    using mem names_exclusive [OF assms(1) I(2) assms(3) that(1)] that(2,3) by metis
  have seg: "pw_seg (cs_pw y' j) = pw_seg (cs_pw y j)" "pw_job (cs_pw y' j) = pw_job (cs_pw y j)"
    "pw_req m (cs_pw y' j) = pw_req m (cs_pw y j)" "pw_ok e m (cs_pw y' j) = pw_ok e m (cs_pw y j)" if "j \<noteq> i" for j m
    using pw [OF that] by auto
  have okj: "pw_ok e (cs_mem y') (cs_pw y' j)" if "j < ce_proxies e" for j
  proof (cases "j = i")
    case False
    then show ?thesis using seg(4) I(3) [OF that] pw_ok_frame [of "cs_pw y j"] fr [OF that] by metis
  qed (use ok in simp)
  have rj: "pw_req (cs_mem y') (cs_pw y' j) = pw_req (cs_mem y) (cs_pw y j)" if "j < ce_proxies e" "j \<noteq> i" for j
    using seg(3) [OF that(2)] pw_req_frame [of "cs_pw y j"] fr [OF that] by metis
  note sr = sum_change [OF assms(3), where F' = "\<lambda>j. pw_req (cs_mem y') (cs_pw y' j)" and F = "\<lambda>j. pw_req (cs_mem y) (cs_pw y j)", OF rj]
  have "mset (cs_mq y') + (\<Sum>j<ce_caches e. cw_req (cs_cw y' j)) = (\<Sum>i<ce_proxies e. pw_req (cs_mem y') (cs_pw y' i))"
  proof -
    let ?C = "\<Sum>j<ce_caches e. cw_req (cs_cw y j)"
    have "mset (cs_mq y') + ?C + pw_req (cs_mem y) (cs_pw y i) = (mset (cs_mq y') + pw_req (cs_mem y) (cs_pw y i)) + ?C"
      by (simp only: ac_simps)
    also have "\<dots> = mset (cs_mq y) + ?C + pw_req (cs_mem y') (cs_pw y' i)" unfolding req by (simp only: ac_simps)
    also have "\<dots> = (\<Sum>i<ce_proxies e. pw_req (cs_mem y') (cs_pw y' i)) + pw_req (cs_mem y) (cs_pw y i)"
      unfolding I(4) by (rule sr [symmetric])
    finally show ?thesis unfolding cw by simp
  qed
  moreover have "s_cx (cs_mem y' (rq_shm_id r)) = C_Start" if "r \<in> set (cs_mq y')" for r
  proof (cases "r \<in> set (cs_mq y)")
    case True
    then obtain k p c s where k: "k < ce_proxies e" "cs_pw y k = W_Run p c s" "r = make_request p s"
      using request_worker [OF assms(2)] by blast
    then have "s_cx (cs_mem y' (shm_id s)) = s_cx (cs_mem y (shm_id s))" using cx fr [OF k(1)] by (cases "k = i") auto
    then show ?thesis using I(5) [OF True] k(3) by simp
  qed (use new that in blast)
  moreover have "jobs e y' = mset reqs"
  proof -
    let ?D = "\<lambda>y. mset (map (\<lambda>(p, c, c'). (p, c)) (cs_done y))"
    have sj: "(\<Sum>j<ce_proxies e. pw_job (cs_pw y' j)) + pw_job (cs_pw y i) = (\<Sum>j<ce_proxies e. pw_job (cs_pw y j)) + pw_job (cs_pw y' i)"
      using assms(3) seg(2) by (rule sum_change)
    have "jobs e y' + pw_job (cs_pw y i) =
        mset (cs_todo y') + ((\<Sum>j<ce_proxies e. pw_job (cs_pw y' j)) + pw_job (cs_pw y i)) + ?D y'"
      unfolding jobs_def by (simp only: ac_simps)
    also have "\<dots> = (mset (cs_todo y') + pw_job (cs_pw y' i) + ?D y') + (\<Sum>j<ce_proxies e. pw_job (cs_pw y j))"
      unfolding sj by (simp only: ac_simps)
    also have "\<dots> = jobs e y + pw_job (cs_pw y i)" unfolding job jobs_def by (simp only: ac_simps)
    finally have "jobs e y' = jobs e y" by simp
    then show ?thesis using I(7) by simp
  qed
  moreover have "cw_ok e (cs_mem y') (cs_cw y' j)" if "j < ce_caches e" for j
    using I(6) [OF that] files unfolding cw by (auto simp: cw_ok_def split: option.splits)
  moreover have "\<forall>d\<in>set (cs_done y'). done_ok e d" using dn I(8) by blast
  ultimately show ?thesis using okj pool I(1) cw(2) by (auto simp: sys_inv_def)
qed

lemma hwc_inv:
  assumes "cache_setup e q0" "sys_inv e q0 reqs y" "hwc_step e y y'"
  shows "sys_inv e q0 reqs y'"
proof -
  have pool: "pool_reach (ce_proxies e) q0 (abs_pool y')"
    using hwc_step_pool [OF assms(3)] sys_invD(2) [OF assms(2)] pool_reach.pool_next by metis
  note mq = cache_setupD(12) [OF assms(1)] and I = sys_invD [OF assms(2)]
  show ?thesis
    using assms(3)
  proof (cases rule: hwc_step.cases)
    case (y_accept i p c rest)
    then show ?thesis using sys_inv_worker [OF assms(1,2) y_accept(2) _ pool] by simp
  next
    case (y_sleep i p c)
    then show ?thesis using sys_inv_worker [OF assms(1,2) y_sleep(2) _ pool] by simp
  next
    case (y_take i p c r shm q')
    then show ?thesis using sys_inv_worker [OF assms(1,2) y_take(2) _ pool] by simp
  next
    case (y_broadcast i p c shm)
    then show ?thesis using sys_inv_worker [OF assms(1,2) y_broadcast(2) _ pool] by simp
  next
    case (y_init i p c shm)
    then show ?thesis using sys_inv_worker [OF assms(1,2) y_init(2) _ pool] by (simp add: fresh_def sem_inits_def)
  next
    case (y_send i p c shm)
    have "fresh c (cs_mem y (shm_id shm))" using I(3) [OF y_send(2)] y_send(3) by simp
    then have "s_cx (cs_mem y (shm_id shm)) = C_Start" "run_ok e p c shm (cs_mem y (shm_id shm))" by (auto simp: run_ok_def fresh_def)
    then show ?thesis by (intro sys_inv_worker [OF assms(1,2) y_send(2) _ pool]) (use y_send in auto)
  next
    case (y_send_fails i p c shm)
    then show ?thesis using mq by simp
  qed
qed

lemma reply_inv:
  assumes "cache_setup e q0" "reqs_ok e q0 reqs" "sys_inv e q0 reqs y" "reply_step put puthdr e y y'"
  shows "sys_inv e q0 reqs y'"
proof -
  note I = sys_invD [OF assms(3)]
  have run: "run_ok e p c s (cs_mem y (shm_id s))" "healthy c" if "i < ce_proxies e" "cs_pw y i = W_Run p c s" for i p c s
    using I(3) [OF that(1)] that job_ok [OF assms(3,2) that(1), of p c] by auto
  have early: "after_process p c s (s_px m') \<noteq> W_Idle"
    if "i < ce_proxies e" "cs_pw y i = W_Run p c s" "processResponse put puthdr (cs_mem y (shm_id s)) m'" for i p c s m'
    using run_process(1) [OF run(1) [OF that(1,2)] that(3) run(2) [OF that(1,2)]] by auto
  have "abs_pool y' = abs_pool y \<or> pool_step (ce_proxies e) (abs_pool y) (abs_pool y')"
    by (rule reply_step_pool [OF assms(4)]) (rule early)
  then have pool: "pool_reach (ce_proxies e) q0 (abs_pool y')" using I(2) pool_reach.pool_next by metis
  show ?thesis
    using assms(4)
  proof (cases rule: reply_step.cases)
    case (y_process i p c shm m')
    note r = run_process [OF run(1) [OF y_process(2,3)] y_process(4) run(2) [OF y_process(2,3)]]
    note cx = process_cx [OF y_process(4)]
    from r(1) show ?thesis
    proof
      assume "after_process p c shm (s_px m') = W_Run p c shm \<and> run_ok e p c shm m'"
      then show ?thesis using sys_inv_worker [OF assms(1,3) y_process(2) _ pool] y_process r(2) cx by simp
    next
      assume a: "after_process p c shm (s_px m') = W_Put p c shm \<and> put_ok e p c m'"
      then have "s_cx (cs_mem y (shm_id shm)) = C_End" using cx by (simp add: put_ok_def)
      then show ?thesis using a sys_inv_worker [OF assms(1,3) y_process(2) _ pool] y_process r(2) cx by simp
    qed
  next
    case (y_put i p c shm m a q')
    then have "put_ok e p c m" using I(3) [OF y_put(2)] by simp
    then have "pw_ok e (cs_mem y') (W_Back p c (s_conn m) (s_px m = P_Requeue404))" by (simp add: put_ok_def)
    then show ?thesis using sys_inv_worker [OF assms(1,3) y_put(2) _ pool] y_put by (simp add: queueMemory_def)
  next
    case (y_back i p c c' missing)
    then have b: "pw_ok e (cs_mem y) (W_Back p c c' missing)" using I(3) [OF y_back(2)] by simp
    then have "\<not> missing \<Longrightarrow> done_ok e (p, c, c')" by (simp add: done_ok_def)
    then show ?thesis by (intro sys_inv_worker [OF assms(1,3) y_back(2) _ pool]) (use y_back b in \<open>auto split: if_splits\<close>)
  next
    case (y_reply i p c c' r c'')
    then have "served_fd e p < 0" "c' = c" "healthy c" using I(3) [OF y_reply(2)] job_ok [OF assms(3,2) y_reply(2), of p c] by auto
    then have "done_ok e (p, c, c'')" using puthdr_ok [of c S_GF_FILE_NOT_FOUND 0] y_reply(4) by (auto simp: done_ok_def answer_def)
    then show ?thesis by (intro sys_inv_worker [OF assms(1,3) y_reply(2) _ pool]) (use y_reply in auto)
  qed
qed

text \<open>The requests at the cache name different segments.\<close>

lemma request_names:
  assumes "cache_setup e q0" "sys_inv e q0 reqs y"
    and "{#r, r'#} \<subseteq># mset (cs_mq y) + (\<Sum>j<ce_caches e. cw_req (cs_cw y j))"
  shows "rq_shm_id r \<noteq> rq_shm_id r'"
proof -
  note st = cache_setupD [OF assms(1)] and I = sys_invD [OF assms(2)]
  have sum: "mset (steque_abs (cs_queue y)) + (\<Sum>k<ce_proxies e. held (k_of (cs_pw y k))) = mset (steque_abs q0)"
    using pool_reach_inv [OF I(2) st(1,2)] by (simp add: pool_inv_def abs_pool_def)
  have "image_mset rq_shm_id (pw_req m w) \<subseteq># image_mset shm_id (held (k_of w))" for m and w :: "'s pw" by (cases w) simp_all
  then have "(\<Sum>k<ce_proxies e. image_mset rq_shm_id (pw_req (cs_mem y) (cs_pw y k))) \<subseteq>#
      (\<Sum>k<ce_proxies e. image_mset shm_id (held (k_of (cs_pw y k))))"
    by (rule sum_subset_mono)
  then have "image_mset rq_shm_id (\<Sum>k<ce_proxies e. pw_req (cs_mem y) (cs_pw y k)) \<subseteq>#
      image_mset shm_id (\<Sum>k<ce_proxies e. held (k_of (cs_pw y k)))" unfolding image_mset_sum_less .
  moreover have "image_mset shm_id (\<Sum>k<ce_proxies e. held (k_of (cs_pw y k))) \<subseteq># mset (map shm_id (steque_abs q0))"
    unfolding mset_map sum [symmetric] by simp
  moreover have "{#rq_shm_id r, rq_shm_id r'#} \<subseteq># image_mset rq_shm_id (\<Sum>k<ce_proxies e. pw_req (cs_mem y) (cs_pw y k))"
    using image_mset_subseteq_mono [OF assms(3), of rq_shm_id] unfolding I(4) by simp
  ultimately have "{#rq_shm_id r, rq_shm_id r'#} \<subseteq># mset (map shm_id (steque_abs q0))" by (meson subset_mset.order_trans)
  then show ?thesis using st(5) by (rule distinct_pair)
qed

lemma cache_req_other:
  assumes "cache_setup e q0" "sys_inv e q0 reqs y" "j < ce_caches e" "cs_cw y j = Some (r, fd)"
  shows "r' \<in> set (cs_mq y) \<Longrightarrow> rq_shm_id r' \<noteq> rq_shm_id r"
    and "k < ce_caches e \<Longrightarrow> k \<noteq> j \<Longrightarrow> cs_cw y k = Some (r', fd') \<Longrightarrow> rq_shm_id r' \<noteq> rq_shm_id r"
proof -
  let ?S = "\<Sum>k<ce_caches e. cw_req (cs_cw y k)"
  have j: "{#r#} \<subseteq># ?S" using assms(3,4) by (simp add: sum.remove [of "{..<ce_caches e}" j])
  show "rq_shm_id r' \<noteq> rq_shm_id r" if "r' \<in> set (cs_mq y)"
  proof -
    have "{#r'#} + {#r#} \<subseteq># mset (cs_mq y) + ?S" using j that by (intro subset_mset.add_mono) simp_all
    then show ?thesis by (intro request_names [OF assms(1,2)]) (simp add: add_mset_commute)
  qed
  show "rq_shm_id r' \<noteq> rq_shm_id r" if "k < ce_caches e" "k \<noteq> j" "cs_cw y k = Some (r', fd')"
  proof -
    have "{#r', r#} \<subseteq># ?S"
      using assms(3,4) that by (simp add: sum.remove [of "{..<ce_caches e}" j] sum.remove [of "{..<ce_caches e} - {j}" k])
    then have "{#r', r#} \<subseteq># mset (cs_mq y) + ?S" by (rule subset_mset.add_increasing [OF empty_le])
    then show ?thesis by (rule request_names [OF assms(1,2)])
  qed
qed

text \<open>A step of a cache worker changes the segment of one worker \<open>i\<close> of the proxy.\<close>

lemma sys_inv_cache:
  assumes "cache_setup e q0" "sys_inv e q0 reqs y" "i < ce_proxies e" "cs_pw y i = W_Run p c s"
    and same: "cs_queue y' = cs_queue y" "cs_pw y' = cs_pw y" "cs_todo y' = cs_todo y" "cs_done y' = cs_done y" "cs_fault y' = None"
    and mem: "cs_mem y' = (cs_mem y)(shm_id s := m')"
    and ok: "run_ok e p c s m'"
    and req: "mset (cs_mq y') + (\<Sum>k<ce_caches e. cw_req (cs_cw y' k)) + pw_req (cs_mem y) (cs_pw y i) =
      mset (cs_mq y) + (\<Sum>k<ce_caches e. cw_req (cs_cw y k)) + pw_req (cs_mem y') (cs_pw y i)"
    and mq: "\<And>r. r \<in> set (cs_mq y') \<Longrightarrow> s_cx (cs_mem y' (rq_shm_id r)) = C_Start"
    and cw: "\<And>k. k < ce_caches e \<Longrightarrow> cw_ok e (cs_mem y') (cs_cw y' k)"
  shows "sys_inv e q0 reqs y'"
proof -
  note I = sys_invD [OF assms(2)]
  have fr: "cs_mem y' (shm_id t) = cs_mem y (shm_id t)" if "j < ce_proxies e" "j \<noteq> i" "pw_seg (cs_pw y j) = Some t" for j t
    using names_exclusive [OF assms(1) I(2) that(1) assms(3) that(2,3), of s] assms(4) unfolding mem by simp
  have okj: "pw_ok e (cs_mem y') (cs_pw y j)" if "j < ce_proxies e" for j
  proof (cases "j = i")
    case False
    then show ?thesis using I(3) [OF that] pw_ok_frame [of "cs_pw y j"] fr [OF that] by metis
  qed (use ok assms(4) mem in simp)
  have rj: "pw_req (cs_mem y') (cs_pw y j) = pw_req (cs_mem y) (cs_pw y j)" if "j < ce_proxies e" "j \<noteq> i" for j
    using pw_req_frame [of "cs_pw y j"] fr [OF that] by metis
  have sr: "(\<Sum>j<ce_proxies e. pw_req (cs_mem y') (cs_pw y j)) + pw_req (cs_mem y) (cs_pw y i) =
      (\<Sum>j<ce_proxies e. pw_req (cs_mem y) (cs_pw y j)) + pw_req (cs_mem y') (cs_pw y i)"
    using assms(3) rj by (rule sum_change)
  have "mset (cs_mq y') + (\<Sum>k<ce_caches e. cw_req (cs_cw y' k)) = (\<Sum>j<ce_proxies e. pw_req (cs_mem y') (cs_pw y j))"
    using req unfolding I(4) sr [symmetric] by simp
  moreover have "abs_pool y' = abs_pool y" by (simp add: abs_pool_def same)
  moreover have "jobs e y' = jobs e y" by (simp add: jobs_def same)
  ultimately show ?thesis using okj mq cw I(2,7,8) by (simp add: sys_inv_def same del: fun_upd_apply)
qed

lemma cw_ok_frame: "(\<And>r fd. w = Some (r, fd) \<Longrightarrow> mem' (rq_shm_id r) = mem (rq_shm_id r)) \<Longrightarrow> cw_ok e mem' w = cw_ok e mem w"
  by (auto simp: cw_ok_def split: option.splits)

lemma receive_inv:
  assumes "cache_setup e q0" "reqs_ok e q0 reqs" "sys_inv e q0 reqs y"
    and j: "j < ce_caches e" "cs_cw y j = None" "cs_mq y = r # rest" "workerRoutine (ce_tab e) r (cs_offs y) = Inr (fd, offs')"
    and f: "fbytes f = ce_files e fd" "rd_good f"
    and y': "y' = y\<lparr>cs_cw := (cs_cw y)(j := Some (r, fd)), cs_mq := rest, cs_offs := offs',
      cs_mem := (cs_mem y)(rq_shm_id r := (cs_mem y (rq_shm_id r))\<lparr>s_file := f\<rparr>)\<rparr>"
  shows "sys_inv e q0 reqs y'"
proof -
  note st = cache_setupD [OF assms(1)] and I = sys_invD [OF assms(3)]
  obtain i p c s where i: "i < ce_proxies e" "cs_pw y i = W_Run p c s" "r = make_request p s"
    using request_worker [OF assms(3), of r] j(3) by auto
  have p: "path_ok e q0 p" using job_ok [OF assms(3,2) i(1), of p c] i(2) by simp
  have s: "s \<in> set (steque_abs q0)" using seg_in_pool(1) [OF assms(1) I(2) i(1)] i(2) by simp
  have fd: "fd = served_fd e p" using workerRoutine_request [OF st(7,8) p s, of "cs_offs y"] j(4) i(3) by auto
  have cx: "s_cx (cs_mem y (shm_id s)) = C_Start" using I(5) [of r] j(3) i(3) by simp
  have ok: "run_ok e p c s ((cs_mem y (shm_id s))\<lparr>s_file := f\<rparr>)"
    using I(3) [OF i(1)] i(2) cx by (simp add: run_ok_def fresh_def)
  have sum: "(\<Sum>k<ce_caches e. cw_req (cs_cw y' k)) = (\<Sum>k<ce_caches e. cw_req (cs_cw y k)) + {#r#}"
    using sum_change [OF j(1), of "\<lambda>k. cw_req (cs_cw y' k)" "\<lambda>k. cw_req (cs_cw y k)"] j(2) by (simp add: y')
  have oth: "rq_shm_id q \<noteq> rq_shm_id r" if "k < ce_caches e" "cs_cw y k = Some (q, fd')" for k q fd'
    using cache_req_other(1) [OF assms(1,3) that, of r] j(3) by (metis list.set_intros(1))
  show ?thesis
  proof (rule sys_inv_cache [OF assms(1,3) i(1,2), where m' = "(cs_mem y (shm_id s))\<lparr>s_file := f\<rparr>"])
    show "cw_ok e (cs_mem y') (cs_cw y' k)" if "k < ce_caches e" for k
    proof (cases "k = j")
      case True
      then show ?thesis using f fd path_served [OF p s] i(3) by (simp add: y' cw_ok_def served_body_def)
    next
      case False
      then have "cw_ok e (cs_mem y') (cs_cw y k)" using I(6) [OF that] oth [OF that] cw_ok_frame [of "cs_cw y k" "cs_mem y'" "cs_mem y" e]
        by (simp add: y')
      then show ?thesis using False by (simp add: y')
    qed
    show "s_cx (cs_mem y' (rq_shm_id q)) = C_Start" if "q \<in> set (cs_mq y')" for q
      using I(5) [of q] that j(3) cx i(3) by (simp add: y')
    show "mset (cs_mq y') + (\<Sum>k<ce_caches e. cw_req (cs_cw y' k)) + pw_req (cs_mem y) (cs_pw y i) =
      mset (cs_mq y) + (\<Sum>k<ce_caches e. cw_req (cs_cw y k)) + pw_req (cs_mem y') (cs_pw y i)"
      unfolding sum using j(3) i(2,3) cx by (simp add: y')
  qed (use I(1) ok i(3) in \<open>simp_all add: y'\<close>)
qed

text \<open>The worker whose segment a step of \<open>sendResponse\<close> changes.\<close>

lemma respond_worker:
  assumes "cache_setup e q0" "reqs_ok e q0 reqs" "sys_inv e q0 reqs y"
    and j: "j < ce_caches e" "cs_cw y j = Some (r, fd)"
      "sendResponse (0 \<le> fd) (unat (rq_segsize r)) (of_nat (length (ce_files e fd))) (cs_mem y (rq_shm_id r)) m'"
  shows "\<exists>i<ce_proxies e. \<exists>p c s. cs_pw y i = W_Run p c s \<and> r = make_request p s \<and> s_cx (cs_mem y (shm_id s)) \<noteq> C_End \<and>
    s \<in> set (steque_abs q0) \<and> path_ok e q0 p \<and> fd = served_fd e p \<and> run_ok e p c s m' \<and> s_fault m' = None \<and> fbytes (s_file m') = served_body e p \<and> rd_good (s_file m') \<and>
    shm_measure (if 0 \<le> served_fd e p then length (served_body e p) else 0) m' <
    shm_measure (if 0 \<le> served_fd e p then length (served_body e p) else 0) (cs_mem y (shm_id s))"
proof -
  note st = cache_setupD [OF assms(1)] and I = sys_invD [OF assms(3)]
  obtain i p c s where i: "i < ce_proxies e" "cs_pw y i = W_Run p c s" "r = make_request p s" "s_cx (cs_mem y (shm_id s)) \<noteq> C_End"
    using request_worker [OF assms(3), of r] j(1,2) by blast
  have p: "path_ok e q0 p" "healthy c" using job_ok [OF assms(3,2) i(1), of p c] i(2) by simp_all
  have s: "s \<in> set (steque_abs q0)" using seg_in_pool(1) [OF assms(1) I(2) i(1)] i(2) by simp
  have c: "fd = served_fd e p" "fbytes (s_file (cs_mem y (shm_id s))) = served_body e p" "rd_good (s_file (cs_mem y (shm_id s)))"
    using I(6) [OF j(1)] j(2) i(3) path_served [OF p(1) s] by (simp_all add: cw_ok_def)
  have "run_ok e p c s (cs_mem y (shm_id s))" using I(3) [OF i(1)] i(2) by simp
  moreover have "sendResponse (0 \<le> served_fd e p) (unat (segsize s)) (of_nat (length (served_body e p))) (cs_mem y (shm_id s)) m'"
    using j(3) i(3) c(1) by (simp add: served_body_def)
  ultimately show ?thesis
    using run_respond [OF _ i(4) p(2) seg_in_pool(2) [OF assms(1) I(2) i(1)] st(9) c(2,3)] i p(1) c(1) s by fastforce
qed

lemma respond_inv:
  assumes "cache_setup e q0" "reqs_ok e q0 reqs" "sys_inv e q0 reqs y"
    and j: "j < ce_caches e" "cs_cw y j = Some (r, fd)"
      "sendResponse (0 \<le> fd) (unat (rq_segsize r)) (of_nat (length (ce_files e fd))) (cs_mem y (rq_shm_id r)) m'"
    and y': "y' = y\<lparr>cs_cw := (cs_cw y)(j := if s_cx m' = C_End then None else Some (r, fd)),
      cs_mem := (cs_mem y)(rq_shm_id r := m'), cs_fault := (case s_fault m' of None \<Rightarrow> cs_fault y | Some x \<Rightarrow> Some x)\<rparr>"
  shows "sys_inv e q0 reqs y'"
proof -
  note I = sys_invD [OF assms(3)]
  obtain i p c s where i: "i < ce_proxies e" "cs_pw y i = W_Run p c s" "r = make_request p s" "s_cx (cs_mem y (shm_id s)) \<noteq> C_End"
    and s: "s \<in> set (steque_abs q0)" and p: "path_ok e q0 p" and c: "fd = served_fd e p"
    and r: "run_ok e p c s m'" "s_fault m' = None" "fbytes (s_file m') = served_body e p" "rd_good (s_file m')"
    using respond_worker [OF assms(1-3) j] by blast
  have sum: "(\<Sum>k<ce_caches e. cw_req (cs_cw y' k)) + {#r#} = (\<Sum>k<ce_caches e. cw_req (cs_cw y k)) + (if s_cx m' = C_End then {#} else {#r#})"
    using sum_change [OF j(1), of "\<lambda>k. cw_req (cs_cw y' k)" "\<lambda>k. cw_req (cs_cw y k)"] j(2) by (simp add: y')
  show ?thesis
  proof (rule sys_inv_cache [OF assms(1,3) i(1,2), where m' = m'])
    show "cw_ok e (cs_mem y') (cs_cw y' k)" if "k < ce_caches e" for k
    proof (cases "k = j")
      case True
      then show ?thesis using r(3,4) c(1) path_served [OF p s] i(3) by (simp add: y' cw_ok_def)
    next
      case False
      then have "cw_ok e (cs_mem y') (cs_cw y k)"
        using I(6) [OF that] cache_req_other(2) [OF assms(1,3) j(1,2) that False] cw_ok_frame [of "cs_cw y k" "cs_mem y'" "cs_mem y" e]
        by (simp add: y')
      then show ?thesis using False by (simp add: y')
    qed
    show "s_cx (cs_mem y' (rq_shm_id q)) = C_Start" if "q \<in> set (cs_mq y')" for q
      using I(5) [of q] that cache_req_other(1) [OF assms(1,3) j(1,2), of q] by (simp add: y')
    show "mset (cs_mq y') + (\<Sum>k<ce_caches e. cw_req (cs_cw y' k)) + pw_req (cs_mem y) (cs_pw y i) =
      mset (cs_mq y) + (\<Sum>k<ce_caches e. cw_req (cs_cw y k)) + pw_req (cs_mem y') (cs_pw y i)"
      using sum i(2,3,4) by (simp add: y')
  qed (use I(1) r(1,2) i(3) in \<open>simp_all add: y'\<close>)
qed

lemma cache_inv:
  assumes "cache_setup e q0" "reqs_ok e q0 reqs" "sys_inv e q0 reqs y" "cache_step e y y'"
  shows "sys_inv e q0 reqs y'"
  using assms(4)
proof (cases rule: cache_step.cases)
  case (y_receive j r rest fd offs' f)
  then show ?thesis using receive_inv [OF assms(1-3) y_receive(2-7)] by simp
next
  case (y_receive_fault j r rest x)
  then obtain i p c s where i: "i < ce_proxies e" "cs_pw y i = W_Run p c s" "r = make_request p s"
    using request_worker [OF assms(3), of r] by auto
  then have "path_ok e q0 p" "s \<in> set (steque_abs q0)"
    using job_ok [OF assms(3,2) i(1), of p c] seg_in_pool(1) [OF assms(1) sys_invD(2) [OF assms(3)] i(1)] by simp_all
  then show ?thesis using workerRoutine_request [OF cache_setupD(7,8) [OF assms(1)], of q0 p s "cs_offs y"] y_receive_fault(5) i(3) by auto
next
  case (y_respond j r fd m')
  then show ?thesis using respond_inv [OF assms(1-3) y_respond(2-4)] by simp
qed

lemma spurious_inv:
  assumes "cache_setup e q0" "sys_inv e q0 reqs y" "csys_spurious e y y'"
  shows "sys_inv e q0 reqs y'"
  using assms(3)
proof (cases rule: csys_spurious.cases)
  case (y_spurious i p c)
  have pool: "pool_reach (ce_proxies e) q0 (abs_pool y')"
    using spurious_pool [OF assms(3)] sys_invD(2) [OF assms(2)] pool_reach.pool_next by blast
  show ?thesis using sys_inv_worker [OF assms(1,2) y_spurious(2) _ pool] y_spurious by simp
qed

lemma sys_inv_start: "reqs_ok e q0 reqs \<Longrightarrow> sys_inv e q0 reqs (csys_start q0 reqs mem offs)"
  by (simp add: sys_inv_def csys_start_def jobs_def abs_pool_def pool_reach.pool_start)

lemma step_inv:
  "cache_setup e q0 \<Longrightarrow> reqs_ok e q0 reqs \<Longrightarrow> sys_inv e q0 reqs y \<Longrightarrow> csys_step put puthdr e y y' \<Longrightarrow> sys_inv e q0 reqs y'"
  using hwc_inv reply_inv cache_inv unfolding csys_step_def by blast

lemma reach_inv:
  assumes "csys_reach put puthdr e (csys_start q0 reqs mem offs) y" "cache_setup e q0" "reqs_ok e q0 reqs"
  shows "sys_inv e q0 reqs y"
  using assms(1)
proof (induction rule: csys_reach.induct)
  case (reach_step y y')
  then show ?case using step_inv [OF assms(2,3)] spurious_inv [OF assms(2)] by blast
qed (use sys_inv_start assms(3) in blast)

end

end
