(* ===== verification/CacheProps.thy ===== *)
theory CacheProps
  imports CacheInv
begin

section \<open>Properties of the cache proxy and the cache process as one system\<close>

text \<open>
  What follows from the invariant of \<open>CacheInv\<close>: while there is a request that is not answered, somebody can go on; every run ends; the
  answers are the files.  And what becomes of the requests when the cache was not started.
\<close>

subsection \<open>Progress\<close>

text \<open>Who can go on without the cache and without a segment.\<close>

lemma worker_step:
  assumes "i < ce_proxies e"
    and "\<exists>p c s. cs_pw y i = W_Took p c s \<or> cs_pw y i = W_Init p c s \<or> (cs_pw y i = W_Mq p c s \<and> ce_mq e \<and> cs_mq y = [])"
  shows "\<exists>y'. hwc_step e y y'"
  using assms(2) hwc_step.y_broadcast [OF assms(1)] hwc_step.y_init [OF assms(1)] hwc_step.y_send [OF assms(1)] by fastforce

lemma worker_reply_step:
  assumes "i < ce_proxies e" "\<exists>p c c' missing. cs_pw y i = W_Back p c c' missing \<or> cs_pw y i = W_Reply p c c'"
  shows "\<exists>y'. reply_step put puthdr e y y'"
  using assms(2) reply_step.y_back [OF assms(1)] reply_step.y_reply [OF assms(1)] by (metis surj_pair)

lemma worker_enter_step:
  assumes "steque_wf (cs_queue y)" "i < ce_proxies e" "cs_pw y i = W_Enter p c"
  shows "\<exists>y'. hwc_step e y y'"
proof (cases "steque_isempty (cs_queue y)")
  case True
  then show ?thesis using hwc_step.y_sleep [OF assms(2,3)] by blast
next
  case False
  then show ?thesis using handle_with_cache_pop [OF assms(1) False, of p] hwc_step.y_take [OF assms(2,3) False] by blast
qed

text \<open>A segment can always be given back.\<close>

lemma worker_put_step:
  assumes "pool_inv (ce_proxies e) (mset segs) (abs_pool y)" "int (length segs) \<le> INT_MAX" "i < ce_proxies e" "cs_pw y i = W_Put p c s"
  shows "\<exists>y'. reply_step put puthdr e y y'"
proof -
  have k: "pl_pc (abs_pool y) i = K_Put s" using assms(4) by (simp add: abs_pool_def)
  obtain a q' where "nodes (cs_queue y) a = None" "steque_enqueue (Some a) s (cs_queue y) = Inr q'"
    using pool_put_room [OF assms(1) assms(3) k] assms(2) by (auto simp: abs_pool_def)
  then show ?thesis using reply_step.y_put [OF assms(3,4)] by blast
qed


context gf_io
begin

lemma stuck_cache_idle:
  assumes "cache_setup e q0" "reqs_ok e q0 reqs" "sys_inv e q0 reqs y" "\<nexists>y'. csys_step put puthdr e y y'"
  shows "j < ce_caches e \<Longrightarrow> cs_cw y j = None" "cs_mq y = []"
    "i < ce_proxies e \<Longrightarrow> cs_pw y i \<noteq> W_Run p c s"
proof -
  note st = cache_setupD [OF assms(1)] and I = sys_invD [OF assms(3)]
  have no: "\<nexists>y'. reply_step put puthdr e y y'" "\<nexists>y'. cache_step e y y'" using assms(4) by (auto simp: csys_step_def)
  have run: False if "i < ce_proxies e" "cs_pw y i = W_Run p c s" "s_cx (cs_mem y (shm_id s)) \<noteq> C_End \<Longrightarrow>
      \<nexists>m'. sendResponse (0 \<le> served_fd e p) (unat (segsize s)) (of_nat (length (served_body e p))) (cs_mem y (shm_id s)) m'" for i p c s
  proof (rule run_progress)
    show "run_ok e p c s (cs_mem y (shm_id s))" using I(3) [OF that(1)] that(2) by simp
    show "\<nexists>m'. processResponse put puthdr (cs_mem y (shm_id s)) m'" using reply_step.y_process [OF that(1,2)] no(1) by blast
  qed (use that(3) in blast)
  show cw: "cs_cw y j = None" if j: "j < ce_caches e" for j
  proof (rule ccontr)
    assume "cs_cw y j \<noteq> None"
    then obtain r fd where r: "cs_cw y j = Some (r, fd)" by fastforce
    then obtain i p c s where i: "i < ce_proxies e" "cs_pw y i = W_Run p c s" "r = make_request p s"
      using request_worker [OF assms(3), of r] j by blast
    have p: "path_ok e q0 p" "s \<in> set (steque_abs q0)"
      using job_ok [OF assms(3,2) i(1), of p c] seg_in_pool(1) [OF assms(1) I(2) i(1)] i(2) by simp_all
    have "fd = served_fd e p" using I(6) [OF j] r i(3) path_served [OF p] by (simp add: cw_ok_def)
    then show False using run [OF i(1,2)] cache_step.y_respond [OF j r] no(2) i(3) by (auto simp: served_body_def)
  qed
  show mq: "cs_mq y = []"
  proof (rule ccontr)
    assume "cs_mq y \<noteq> []"
    then obtain r rest where r: "cs_mq y = r # rest" by (cases "cs_mq y") auto
    then obtain i p c s where i: "i < ce_proxies e" "cs_pw y i = W_Run p c s" "r = make_request p s"
      using request_worker [OF assms(3), of r] by auto
    have p: "path_ok e q0 p" "s \<in> set (steque_abs q0)"
      using job_ok [OF assms(3,2) i(1), of p c] seg_in_pool(1) [OF assms(1) I(2) i(1)] i(2) by simp_all
    obtain offs' where w: "workerRoutine (ce_tab e) r (cs_offs y) = Inr (served_fd e p, offs')"
      using workerRoutine_request [OF st(7,8) p] i(3) by blast
    show False
      using cache_step.y_receive [OF st(11) cw [OF st(11)] r w, of "\<lparr>fbytes = ce_files e (served_fd e p), foff = 0, rdplan = []\<rparr>"] no(2)
      by (auto simp: rd_good_def)
  qed
  show "cs_pw y i \<noteq> W_Run p c s" if "i < ce_proxies e" for i p c s
  proof
    assume w: "cs_pw y i = W_Run p c s"
    have "(\<Sum>k<ce_proxies e. pw_req (cs_mem y) (cs_pw y k)) = {#}" using I(4) mq cw by (simp add: sum.neutral)
    then have "pw_req (cs_mem y) (cs_pw y i) = {#}" using that by (simp add: sum.remove [of "{..<ce_proxies e}" i])
    then have "s_cx (cs_mem y (shm_id s)) = C_End" using w by (simp split: if_splits)
    then show False using run [OF that w] by blast
  qed
qed

lemma stuck_done:
  assumes "cache_setup e q0" "reqs_ok e q0 reqs" "sys_inv e q0 reqs y" "\<nexists>y'. csys_step put puthdr e y y'"
  shows "cs_todo y = [] \<and> (\<forall>i<ce_proxies e. cs_pw y i = W_Idle)"
proof -
  note st = cache_setupD [OF assms(1)] and idle = stuck_cache_idle [OF assms]
  have no: "\<nexists>y'. hwc_step e y y'" "\<nexists>y'. reply_step put puthdr e y y'" using assms(4) by (auto simp: csys_step_def)
  have inv: "pool_inv (ce_proxies e) (mset (steque_abs q0)) (abs_pool y)" by (rule pool_reach_inv [OF sys_invD(2) [OF assms(3)] st(1,2)])
  then have wf: "steque_wf (cs_queue y)" by (simp add: pool_inv_def abs_pool_def)
  have w: "cs_pw y i = W_Idle \<or> (\<exists>p c. cs_pw y i = W_Sleep p c)" if "i < ce_proxies e" for i
  proof (cases "cs_pw y i")
    case (W_Took p c s)
    then show ?thesis using worker_step [OF that, of y] no(1) by blast
  next
    case (W_Init p c s)
    then show ?thesis using worker_step [OF that, of y] no(1) by blast
  next
    case (W_Mq p c s)
    then show ?thesis using worker_step [OF that, of y] no(1) idle(2) st(12) by blast
  next
    case (W_Back p c c' missing)
    then show ?thesis using worker_reply_step [OF that, of y] no(2) by blast
  next
    case (W_Reply p c c')
    then show ?thesis using worker_reply_step [OF that, of y] no(2) by blast
  qed (use worker_enter_step [OF wf that] worker_put_step [OF inv st(4) that] no idle(3) [OF that] in auto)
  then have k: "held (k_of (cs_pw y i)) = {#}" "\<not> pending (k_of (cs_pw y i))" if "i < ce_proxies e" for i using that by fastforce+
  have "\<not> (\<exists>i<ce_proxies e. k_of (cs_pw y i) = K_Sleep)"
  proof
    assume "\<exists>i<ce_proxies e. k_of (cs_pw y i) = K_Sleep"
    then have "steque_abs (cs_queue y) = []" using inv k(2) by (auto simp: pool_inv_def abs_pool_def)
    then show False using inv k(1) st(3) by (simp add: pool_inv_def abs_pool_def)
  qed
  then have all: "cs_pw y i = W_Idle" if "i < ce_proxies e" for i using w that by fastforce
  moreover have "cs_todo y = []"
  proof (rule ccontr)
    assume "cs_todo y \<noteq> []"
    then obtain p c rest where "cs_todo y = (p, c) # rest" by (cases "cs_todo y") auto
    then show False using hwc_step.y_accept [OF st(10) all [OF st(10)]] no(1) by blast
  qed
  ultimately show ?thesis by simp
qed

end


subsection \<open>Every run ends\<close>

text \<open>How many steps there still are at most: a request needs \<open>2 * W + 5 * L + 20\<close> for a file of \<open>L\<close> bytes and \<open>W\<close> workers (a
  broadcast wakes the others), and a message in the queue one.\<close>

definition cache_len :: "cache_env \<Rightarrow> string \<Rightarrow> nat" where
  "cache_len e p = (if 0 \<le> served_fd e p then length (served_body e p) else 0)"

definition req_weight :: "cache_env \<Rightarrow> string \<Rightarrow> nat" where
  "req_weight e p = 2 * ce_proxies e + 5 * cache_len e p + 20"

fun pw_weight :: "cache_env \<Rightarrow> (string \<Rightarrow> 's shm) \<Rightarrow> 's pw \<Rightarrow> nat" where
  "pw_weight e mem W_Idle = 0"
| "pw_weight e mem (W_Enter p c) = 2 * ce_proxies e + 5 * cache_len e p + 19"
| "pw_weight e mem (W_Sleep p c) = 2 * ce_proxies e + 5 * cache_len e p + 18"
| "pw_weight e mem (W_Took p c s) = 2 * ce_proxies e + 5 * cache_len e p + 17"
| "pw_weight e mem (W_Init p c s) = ce_proxies e + 5 * cache_len e p + 16"
| "pw_weight e mem (W_Mq p c s) = ce_proxies e + 5 * cache_len e p + 15"
| "pw_weight e mem (W_Run p c s) = ce_proxies e + 4 + shm_measure (cache_len e p) (mem (shm_id s))"
| "pw_weight e mem (W_Put p c s) = ce_proxies e + 3"
| "pw_weight e mem (W_Back p c c' missing) = ce_proxies e + 2"
| "pw_weight e mem (W_Reply p c c') = 1"

definition sys_weight :: "cache_env \<Rightarrow> 's csys \<Rightarrow> nat" where
  "sys_weight e y = (\<Sum>x\<leftarrow>cs_todo y. req_weight e (fst x)) + (\<Sum>i<ce_proxies e. pw_weight e (cs_mem y) (cs_pw y i)) + length (cs_mq y)"

lemma pw_weight_frame:
  "(\<And>s. pw_seg w = Some s \<Longrightarrow> mem' (shm_id s) = mem (shm_id s)) \<Longrightarrow> pw_weight e mem' w = pw_weight e mem w"
  by (cases w) simp_all

lemma pw_weight_wake: "pw_weight e mem (wake_pw pw j) \<le> pw_weight e mem (pw j) + 1"
  by (cases "pw j") (simp_all add: wake_pw_def)

lemma sum_wake:
  fixes F F' :: "nat \<Rightarrow> nat"
  assumes "i < W" "\<And>j. j < W \<Longrightarrow> j \<noteq> i \<Longrightarrow> F' j \<le> F j + k"
  shows "(\<Sum>j<W. F' j) + F i + k \<le> (\<Sum>j<W. F j) + F' i + k * W"
proof -
  have "(\<Sum>j\<in>{..<W} - {i}. F' j) \<le> (\<Sum>j\<in>{..<W} - {i}. F j + k)" using assms(2) by (intro sum_mono) auto
  also have "\<dots> = (\<Sum>j\<in>{..<W} - {i}. F j) + k * (W - 1)" using assms(1) by (simp add: sum.distrib)
  finally have "(\<Sum>j\<in>{..<W} - {i}. F' j) + k \<le> (\<Sum>j\<in>{..<W} - {i}. F j) + k * W"
    using assms(1) by (cases W) simp_all
  then show ?thesis using assms(1) by (simp add: sum.remove [of "{..<W}" i])
qed

text \<open>One worker moves; the weights of the others grow by \<open>k\<close> at most.\<close>

lemma weight_drop:
  assumes "i < ce_proxies e"
    and "\<And>j. j < ce_proxies e \<Longrightarrow> j \<noteq> i \<Longrightarrow> pw_weight e (cs_mem y') (cs_pw y' j) \<le> pw_weight e (cs_mem y) (cs_pw y j) + k"
    and "(\<Sum>x\<leftarrow>cs_todo y'. req_weight e (fst x)) + pw_weight e (cs_mem y') (cs_pw y' i) + length (cs_mq y') + k * ce_proxies e <
      (\<Sum>x\<leftarrow>cs_todo y. req_weight e (fst x)) + pw_weight e (cs_mem y) (cs_pw y i) + length (cs_mq y) + k"
  shows "sys_weight e y' < sys_weight e y"
  using sum_wake [OF assms(1), where F' = "\<lambda>j. pw_weight e (cs_mem y') (cs_pw y' j)" and F = "\<lambda>j. pw_weight e (cs_mem y) (cs_pw y j)",
    OF assms(2)] assms(3)
  unfolding sys_weight_def by linarith

context gf_io
begin

lemma other_weight:
  assumes "cache_setup e q0" "sys_inv e q0 reqs y" "i < ce_proxies e" "pw_seg (cs_pw y i) = Some s" "j < ce_proxies e" "j \<noteq> i"
  shows "pw_weight e ((cs_mem y)(shm_id s := m')) (cs_pw y j) = pw_weight e (cs_mem y) (cs_pw y j)"
  using names_exclusive [OF assms(1) sys_invD(2) [OF assms(2)] assms(5,3,6) _ assms(4)] by (intro pw_weight_frame) auto

lemma hwc_weight:
  assumes "cache_setup e q0" "sys_inv e q0 reqs y" "hwc_step e y y'"
  shows "sys_weight e y' < sys_weight e y"
  using assms(3)
proof (cases rule: hwc_step.cases)
  case (y_accept i p c rest)
  then show ?thesis by (intro weight_drop [where i = i and k = 0]) (simp_all add: req_weight_def)
next
  case (y_sleep i p c)
  then show ?thesis by (intro weight_drop [where i = i and k = 0]) simp_all
next
  case (y_take i p c r shm q')
  then show ?thesis by (intro weight_drop [where i = i and k = 0]) simp_all
next
  case (y_broadcast i p c shm)
  then show ?thesis by (intro weight_drop [where i = i and k = 1]) (simp_all add: pw_weight_wake [simplified])
next
  case (y_init i p c shm)
  then show ?thesis using other_weight [OF assms(1,2) y_init(2)] by (intro weight_drop [where i = i and k = 0]) simp_all
next
  case (y_send i p c shm)
  then have "fresh c (cs_mem y (shm_id shm))" using sys_invD(3) [OF assms(2) y_send(2)] by simp
  then have "shm_measure (cache_len e p) (cs_mem y (shm_id shm)) = 5 * cache_len e p + 9" by (simp add: fresh_def shm_measure_def)
  then show ?thesis using y_send by (intro weight_drop [where i = i and k = 0]) simp_all
next
  case (y_send_fails i p c shm)
  then show ?thesis using cache_setupD(12) [OF assms(1)] by simp
qed

lemma reply_weight:
  assumes "cache_setup e q0" "reqs_ok e q0 reqs" "sys_inv e q0 reqs y" "reply_step put puthdr e y y'"
  shows "sys_weight e y' < sys_weight e y"
  using assms(4)
proof (cases rule: reply_step.cases)
  case (y_process i p c shm m')
  have "run_ok e p c shm (cs_mem y (shm_id shm))" "healthy c"
    using sys_invD(3) [OF assms(3) y_process(2)] job_ok [OF assms(3,2) y_process(2), of p c] y_process(3) by auto
  then have "shm_measure (cache_len e p) m' < shm_measure (cache_len e p) (cs_mem y (shm_id shm))"
    and "after_process p c shm (s_px m') = W_Run p c shm \<or> after_process p c shm (s_px m') = W_Put p c shm"
    using run_process(1,3) [OF _ y_process(4)] by (auto simp: cache_len_def)
  then have "pw_weight e ((cs_mem y)(shm_id shm := m')) (after_process p c shm (s_px m')) < pw_weight e (cs_mem y) (W_Run p c shm)" by auto
  then show ?thesis
    using y_process(1,2,3) other_weight [OF assms(1,3) y_process(2)] by (intro weight_drop [where i = i and k = 0]) simp_all
next
  case (y_put i p c shm m a q')
  then show ?thesis using other_weight [OF assms(1,3) y_put(2)] by (intro weight_drop [where i = i and k = 0]) simp_all
next
  case (y_back i p c c' missing)
  then show ?thesis by (intro weight_drop [where i = i and k = 1]) (simp_all add: pw_weight_wake [simplified])
next
  case (y_reply i p c c' r c'')
  then show ?thesis by (intro weight_drop [where i = i and k = 0]) simp_all
qed

lemma cache_weight:
  assumes "cache_setup e q0" "reqs_ok e q0 reqs" "sys_inv e q0 reqs y" "cache_step e y y'"
  shows "sys_weight e y' < sys_weight e y"
  using assms(4)
proof (cases rule: cache_step.cases)
  case (y_receive j r rest fd offs' f)
  have "pw_weight e (cs_mem y') w = pw_weight e (cs_mem y) w" for w
    by (cases w) (simp_all add: y_receive(1) shm_measure_def)
  then show ?thesis using y_receive(1,4) by (simp add: sys_weight_def del: fun_upd_apply)
next
  case (y_receive_fault j r rest x)
  then show ?thesis by (simp add: sys_weight_def)
next
  case (y_respond j r fd m')
  obtain i p c s where i: "i < ce_proxies e" "cs_pw y i = W_Run p c s" "r = make_request p s"
      "shm_measure (cache_len e p) m' < shm_measure (cache_len e p) (cs_mem y (shm_id s))"
    using respond_worker [OF assms(1-3) y_respond(2-4)] unfolding cache_len_def by blast
  then show ?thesis
    using y_respond(1) other_weight [OF assms(1,3) i(1)] by (intro weight_drop [where i = i and k = 0]) simp_all
qed

lemma run_inv:
  assumes "csys_run put puthdr e (csys_start q0 reqs mem offs) k y" "cache_setup e q0" "reqs_ok e q0 reqs"
  shows "sys_inv e q0 reqs y \<and> k + sys_weight e y \<le> (\<Sum>x\<leftarrow>reqs. req_weight e (fst x))"
  using assms(1)
proof (induction rule: csys_run.induct)
  case run_start
  show ?case using sys_inv_start [OF assms(3)] by (simp add: sys_weight_def csys_start_def)
next
  case (run_step k y y')
  then have "sys_inv e q0 reqs y'" "sys_weight e y' < sys_weight e y"
    using step_inv [OF assms(2,3)] hwc_weight [OF assms(2)] reply_weight [OF assms(2,3)] cache_weight [OF assms(2,3)]
    unfolding csys_step_def by blast+
  then show ?case using run_step.IH by linarith
qed

text \<open>A run goes on to a state without a step.\<close>

lemma run_to_end:
  assumes "cache_setup e q0" "reqs_ok e q0 reqs"
  shows "csys_run put puthdr e (csys_start q0 reqs mem offs) k y \<Longrightarrow>
    \<exists>k' y'. csys_run put puthdr e (csys_start q0 reqs mem offs) k' y' \<and> (\<nexists>y''. csys_step put puthdr e y' y'')"
proof (induction "(\<Sum>x\<leftarrow>reqs. req_weight e (fst x)) - k" arbitrary: k y rule: less_induct)
  case less
  show ?case
  proof (cases "\<exists>y''. csys_step put puthdr e y y''")
    case True
    then obtain y'' where s: "csys_step put puthdr e y y''" by blast
    have "cs_fault y = None" using run_inv [OF less.prems assms] sys_invD(1) by blast
    then have r: "csys_run put puthdr e (csys_start q0 reqs mem offs) (Suc k) y''" using csys_run.run_step [OF less.prems _ s] by simp
    have "Suc k \<le> (\<Sum>x\<leftarrow>reqs. req_weight e (fst x))" using run_inv [OF r assms] by linarith
    then show ?thesis using less.hyps [OF _ r] by simp
  qed (use less.prems in blast)
qed

end

lemma run_reach: "csys_run put puthdr e y0 k y \<Longrightarrow> csys_reach put puthdr e y0 y"
  by (induction rule: csys_run.induct) (auto intro: csys_reach.intros)

subsection \<open>Properties\<close>

definition example_env :: cache_env where
  "example_env = \<lparr>ce_tab = [\<lparr>fildes = 3, key = ''/a''\<rparr>], ce_files = \<lambda>_. ''cached'', ce_proxies = 2, ce_caches = 1, ce_mq = True\<rparr>"

definition example_reqs :: "(string \<times> conn) list" where
  "example_reqs = [(''/a'', example_client), (''/b'', example_client), (''/a'', example_client)]"

abbreviation example_csys :: "conn csys" where
  "example_csys \<equiv> csys_start example_pool example_reqs (\<lambda>_. shm_init example_client example_cached 0 0) (\<lambda>_. 0)"

lemma fits_reqs_ok: "\<forall>x\<in>set reqs. path_fits e (fst x) \<and> gflib_healthy (snd x) \<Longrightarrow> gflib.reqs_ok e q0 reqs"
  by (simp add: gflib.reqs_ok_def path_fits_ok)

lemma example_setup: "cache_setup example_env example_pool" "gflib.reqs_ok example_env example_pool example_reqs"
  "\<forall>x\<in>set example_reqs. path_fits example_env (fst x) \<and> gflib_healthy (snd x)"
proof -
  show "cache_setup example_env example_pool"
    using example_pool_wf by (simp add: cache_setup_def example_env_def INT_MAX_def sorted_items_def STACK_ROOM_def)
  show f: "\<forall>x\<in>set example_reqs. path_fits example_env (fst x) \<and> gflib_healthy (snd x)"
    by (simp add: example_reqs_def path_fits_def example_client_def gflib_healthy_def)
  show "gflib.reqs_ok example_env example_pool example_reqs" by (rule fits_reqs_ok [OF f])
qed





lemma stuck_answered:
  assumes "cache_setup e q0" "gflib.reqs_ok e q0 reqs" "gflib.sys_inv e q0 reqs y" "\<nexists>y'. csys_step gflib_put gflib_puthdr e y y'"
  shows "mset (map (\<lambda>(p, c, c'). (p, c)) (cs_done y)) = mset reqs \<and> (\<forall>i<ce_proxies e. cs_pw y i = W_Idle)"
  using gflib.stuck_done [OF assms] gflib.sys_invD(7) [OF assms(3)] by (simp add: gflib.jobs_def)


lemma example_csys_end:
  "\<exists>k y. csys_run gflib_put gflib_puthdr example_env example_csys k y \<and> (\<nexists>y'. csys_step gflib_put gflib_puthdr example_env y y') \<and>
    mset (map (\<lambda>(p, c, c'). (p, c)) (cs_done y)) = mset example_reqs"
proof -
  obtain k y where r: "csys_run gflib_put gflib_puthdr example_env example_csys k y" "\<nexists>y'. csys_step gflib_put gflib_puthdr example_env y y'"
    using gflib.run_to_end [OF example_setup(1,2) csys_run.run_start] by blast
  then show ?thesis using stuck_answered [OF example_setup(1,2) _ r(2)] gflib.run_inv [OF r(1) example_setup(1,2)] by blast
qed



text \<open>C11. With the cache started first, a pool of segments of 1 byte to 4 MiB with different names, connections of which no send fails and each takes
  at least 64 bytes of what it is given, and paths of less than 128 characters (or no key as long as that), the system refines the pool of
  \<open>SegmentPool\<close>: what its workers and its queue do, is a run of the pool in which the transfers are steps.  So, as long as no connection
  fails, a segment is neither used twice nor lost: those in the queue and those the
  workers hold are at any time the segments the proxy was started with, and no two workers hold segments of one name.\<close>

theorem cache_system_refines_pool:
  assumes "csys_reach gflib_put gflib_puthdr e (csys_start q0 reqs mem offs) y" "cache_setup e q0"
    and "\<forall>x\<in>set reqs. path_fits e (fst x) \<and> gflib_healthy (snd x)"
  shows "pool_reach (ce_proxies e) q0 (abs_pool y) \<and>
    mset (steque_abs (cs_queue y)) + (\<Sum>i<ce_proxies e. held (k_of (cs_pw y i))) = mset (steque_abs q0) \<and>
    (\<forall>i<ce_proxies e. \<forall>j<ce_proxies e. \<forall>s t. i \<noteq> j \<longrightarrow> pw_seg (cs_pw y i) = Some s \<longrightarrow> pw_seg (cs_pw y j) = Some t \<longrightarrow>
      shm_id s \<noteq> shm_id t)"
proof -
  note p = gflib.sys_invD(2) [OF gflib.reach_inv [OF assms(1,2) fits_reqs_ok [OF assms(3)]]]
  have "mset (steque_abs (cs_queue y)) + (\<Sum>i<ce_proxies e. held (k_of (cs_pw y i))) = mset (steque_abs q0)"
    using pool_reach_inv [OF p cache_setupD(1,2) [OF assms(2)]] by (simp add: pool_inv_def abs_pool_def)
  then show ?thesis using p names_exclusive [OF assms(2) p] by blast
qed

text \<open>The instance: three requests, answered, after which both segments are back in the queue.\<close>

theorem cache_system_refines_pool_witness:
  "\<exists>y. csys_reach gflib_put gflib_puthdr example_env example_csys y \<and> length (cs_done y) = 3 \<and> pool_reach 2 example_pool (abs_pool y) \<and>
    mset (steque_abs (cs_queue y)) = {# \<lparr>shm_id = ''Shm_0'', segsize = 5014\<rparr>, \<lparr>shm_id = ''Shm_1'', segsize = 5014\<rparr> #}"
proof -
  obtain k y where r: "csys_run gflib_put gflib_puthdr example_env example_csys k y" "\<nexists>y'. csys_step gflib_put gflib_puthdr example_env y y'"
      "mset (map (\<lambda>(p, c, c'). (p, c)) (cs_done y)) = mset example_reqs"
    using example_csys_end by blast
  then have idle: "\<forall>i<ce_proxies example_env. cs_pw y i = W_Idle"
    using stuck_answered [OF example_setup(1,2) _ r(2)] gflib.run_inv [OF r(1) example_setup(1,2)] by blast
  have "ce_proxies example_env = 2" by (simp add: example_env_def)
  then have "pool_reach 2 example_pool (abs_pool y)" "mset (steque_abs (cs_queue y)) = mset (steque_abs example_pool)"
    using cache_system_refines_pool [OF run_reach [OF r(1)] example_setup(1,3)] idle by simp_all
  moreover have "length (cs_done y) = length example_reqs" using arg_cong [OF r(3), of size] by simp
  ultimately show ?thesis using run_reach [OF r(1)] example_pool_wf(3) by (auto simp: example_reqs_def)
qed

subsection \<open>A cache that was not started\<close>

text \<open>Every request is still to be accepted or occupies its worker.\<close>

fun pw_early :: "(string \<Rightarrow> 's shm) \<Rightarrow> 's pw \<Rightarrow> bool" where
  "pw_early mem (W_Mq p c s) = (s_filelen (mem (shm_id s)) = 0 \<and> s_px (mem (shm_id s)) = P_WaitLen)"
| "pw_early mem (W_Run p c s) = (s_filelen (mem (shm_id s)) = 0 \<and> s_px (mem (shm_id s)) = P_WaitLen)"
| "pw_early mem (W_Put p c s) = False" | "pw_early mem (W_Back p c c' missing) = False" | "pw_early mem (W_Reply p c c') = False"
| "pw_early mem w = True"

definition alone_inv :: "cache_env \<Rightarrow> (string \<times> 's) list \<Rightarrow> 's csys \<Rightarrow> bool" where
  "alone_inv e reqs y \<longleftrightarrow> cs_mq y = [] \<and> (\<forall>j. cs_cw y j = None) \<and> cs_done y = [] \<and>
    (\<forall>i<ce_proxies e. pw_early (cs_mem y) (cs_pw y i)) \<and>
    mset (cs_todo y) + (\<Sum>i<ce_proxies e. pw_job (cs_pw y i)) = mset reqs"

lemma pw_early_wake [simp]: "pw_early mem (wake_pw pw j) = pw_early mem (pw j)"
  by (cases "pw j") (simp_all add: wake_pw_def)

lemma pw_early_init: "pw_early mem w \<Longrightarrow> pw_early (mem(n := sem_inits c (mem n))) w"
  by (cases w) (auto simp: sem_inits_def)

lemma alone_worker:
  assumes "alone_inv e reqs y" "i < ce_proxies e"
    and "\<And>j. j \<noteq> i \<Longrightarrow> cs_pw y' j = cs_pw y j \<or> cs_pw y' j = wake_pw (cs_pw y) j"
    and "\<And>w. pw_early (cs_mem y) w \<Longrightarrow> pw_early (cs_mem y') w" "pw_early (cs_mem y') (cs_pw y' i)"
    and "mset (cs_todo y') + pw_job (cs_pw y' i) = mset (cs_todo y) + pw_job (cs_pw y i)"
    and "cs_mq y' = cs_mq y" "cs_cw y' = cs_cw y" "cs_done y' = cs_done y"
  shows "alone_inv e reqs y'"
proof -
  have seg: "pw_job (cs_pw y' j) = pw_job (cs_pw y j)" "pw_early m (cs_pw y' j) = pw_early m (cs_pw y j)" if "j \<noteq> i" for j m
    using assms(3) [OF that] by auto
  have sj: "(\<Sum>j<ce_proxies e. pw_job (cs_pw y' j)) + pw_job (cs_pw y i) = (\<Sum>j<ce_proxies e. pw_job (cs_pw y j)) + pw_job (cs_pw y' i)"
    using assms(2) seg(1) by (rule sum_change)
  have "mset (cs_todo y') + (\<Sum>j<ce_proxies e. pw_job (cs_pw y' j)) + pw_job (cs_pw y i) =
      (mset (cs_todo y') + pw_job (cs_pw y' i)) + (\<Sum>j<ce_proxies e. pw_job (cs_pw y j))"
    using sj by (simp only: ac_simps)
  also have "\<dots> = mset (cs_todo y) + (\<Sum>j<ce_proxies e. pw_job (cs_pw y j)) + pw_job (cs_pw y i)"
    unfolding assms(6) by (simp only: ac_simps)
  finally have "mset (cs_todo y') + (\<Sum>j<ce_proxies e. pw_job (cs_pw y' j)) = mset reqs" using assms(1) by (simp add: alone_inv_def)
  moreover have "pw_early (cs_mem y') (cs_pw y' j)" if "j < ce_proxies e" for j
    using assms(1,4,5) seg(2) that by (cases "j = i") (auto simp: alone_inv_def)
  ultimately show ?thesis using assms(1,7-9) by (simp add: alone_inv_def)
qed

lemma alone_step:
  assumes "alone_inv e reqs y" "\<not> ce_mq e" "csys_step put puthdr e y y'"
  shows "alone_inv e reqs y'"
proof -
  have early: "pw_early (cs_mem y) (cs_pw y i)" if "i < ce_proxies e" for i using assms(1) that by (simp add: alone_inv_def)
  have "\<not> reply_step put puthdr e y y'"
  proof
    assume "reply_step put puthdr e y y'"
    then show False by (cases rule: reply_step.cases) (use early in \<open>fastforce elim: processResponse.cases\<close>)+
  qed
  moreover have "\<not> cache_step e y y'"
  proof
    assume "cache_step e y y'"
    then show False by (cases rule: cache_step.cases) (use assms(1) in \<open>simp_all add: alone_inv_def\<close>)
  qed
  ultimately have "hwc_step e y y'" using assms(3) by (simp add: csys_step_def)
  then show ?thesis
  proof (cases rule: hwc_step.cases)
    case (y_accept i p c rest)
    then show ?thesis by (intro alone_worker [OF assms(1) y_accept(2)]) simp_all
  next
    case (y_sleep i p c)
    then show ?thesis by (intro alone_worker [OF assms(1) y_sleep(2)]) simp_all
  next
    case (y_take i p c r shm q')
    then show ?thesis by (intro alone_worker [OF assms(1) y_take(2)]) simp_all
  next
    case (y_broadcast i p c shm)
    then show ?thesis by (intro alone_worker [OF assms(1) y_broadcast(2)]) simp_all
  next
    case (y_init i p c shm)
    show ?thesis
    proof (rule alone_worker [OF assms(1) y_init(2)])
      show "pw_early (cs_mem y') w" if "pw_early (cs_mem y) w" for w
        using pw_early_init [OF that] by (simp add: y_init(1) del: fun_upd_apply)
      show "pw_early (cs_mem y') (cs_pw y' i)" by (simp add: y_init(1) sem_inits_def)
    qed (use y_init(1,3) in simp_all)
  next
    case (y_send i p c shm)
    then show ?thesis using assms(2) by simp
  next
    case (y_send_fails i p c shm)
    then show ?thesis using early [OF y_send_fails(2)] by (intro alone_worker [OF assms(1) y_send_fails(2)]) simp_all
  qed
qed

lemma alone_reach:
  "csys_reach put puthdr e (csys_start q0 reqs mem offs) y \<Longrightarrow> \<not> ce_mq e \<Longrightarrow>
    alone_inv e reqs y"
proof (induction rule: csys_reach.induct)
  case reach_start
  then show ?case by (simp add: alone_inv_def csys_start_def)
next
  case (reach_step y y')
  then have a: "alone_inv e reqs y" by blast
  show ?case
    using reach_step.hyps(3)
  proof
    assume "csys_spurious e y y'"
    then show ?thesis
    proof (cases rule: csys_spurious.cases)
      case (y_spurious i p c)
      show ?thesis by (rule alone_worker [OF a y_spurious(2)]) (use y_spurious(1,3) in simp_all)
    qed
  qed (use alone_step [OF a reach_step.prems] in blast)
qed

text \<open>C33. When the cache was not started before a request comes, \<open>mq_open\<close> fails, which the worker only prints: it takes a segment and waits for ever.  No
  request is ever answered, with whatever library and in whatever interleaving, each one that was accepted occupies its worker.\<close>

theorem cache_not_started:
  assumes "csys_reach put puthdr e (csys_start q0 reqs mem offs) y" "\<not> ce_mq e"
  shows "cs_done y = [] \<and> mset (cs_todo y) + (\<Sum>i<ce_proxies e. pw_job (cs_pw y i)) = mset reqs"
  using alone_reach [OF assms(1)] assms(2) by (simp add: alone_inv_def)

theorem cache_not_started_witness:
  "\<exists>y. csys_reach gflib_put gflib_puthdr (example_env\<lparr>ce_mq := False\<rparr>) example_csys y \<and> length (cs_todo y) = 2 \<and> cs_done y = [] \<and>
    (\<Sum>i<2. pw_job (cs_pw y i)) = {#(''/a'', example_client)#}"
proof -
  let ?e = "example_env\<lparr>ce_mq := False\<rparr>"
  let ?y = "example_csys\<lparr>cs_pw := (cs_pw example_csys)(0 := W_Enter ''/a'' example_client), cs_todo := tl example_reqs\<rparr>"
  have "csys_step gflib_put gflib_puthdr ?e example_csys ?y"
    unfolding csys_step_def by (intro disjI1 hwc_step.y_accept) (simp_all add: example_env_def csys_start_def example_reqs_def)
  moreover have "cs_fault example_csys = None" by (simp add: csys_start_def)
  ultimately have r: "csys_reach gflib_put gflib_puthdr ?e example_csys ?y" using csys_reach.intros by blast
  have "cs_done ?y = [] \<and> mset (cs_todo ?y) + (\<Sum>i<ce_proxies ?e. pw_job (cs_pw ?y i)) = mset example_reqs"
    by (rule cache_not_started [OF r]) simp
  then have "cs_done ?y = []" "(\<Sum>i<2. pw_job (cs_pw ?y i)) = {#(''/a'', example_client)#}" "length (cs_todo ?y) = 2"
    by (simp_all add: example_env_def example_reqs_def)
  then show ?thesis using r by blast
qed

subsection \<open>Paths that do not fit into the message\<close>





end
