(* ===== verification/Echo.thy ===== *)
theory Echo
  imports Net Options
begin

section \<open>The echo server and client (pr1/echo)\<close>

text \<open>
  Both programs are a \<open>main\<close>: options, checks, socket calls, and then the exchange.  The results of the
  socket calls are arguments; the descriptors the server holds are counted against the limit of the
  process, because it never closes an accepted one.
\<close>

subsection \<open>echoserver.c\<close>

record echoserver_opts =
  es_maxnpending :: int
  es_portno :: int

definition echoserver_default :: echoserver_opts where
  "echoserver_default = \<lparr>es_maxnpending = 5, es_portno = 10823\<rparr>"

definition echoserver_option :: "echoserver_opts \<Rightarrow> char \<Rightarrow> string option \<Rightarrow> echoserver_opts res" where
  "echoserver_option o1 c arg =
    (if c = CHR ''m'' then bindr (atoi_arg arg) (\<lambda>n. Inr (o1\<lparr>es_maxnpending := n\<rparr>))
     else if c = CHR ''p'' then bindr (atoi_arg arg) (\<lambda>n. Inr (o1\<lparr>es_portno := n\<rparr>))
     else if c = CHR ''h'' then Inl (Exit 0)
     else Inl (Exit 1))"

definition echoserver_setup :: "opt list \<Rightarrow> echoserver_opts res" where
  "echoserver_setup args =
    bindr (getopt_loop echoserver_option echoserver_default args) (\<lambda>o1.
      if port_bad (es_portno o1) then Inl (Exit 1)
      else if es_maxnpending o1 < 1 then Inl (Exit 1)
      else Inr o1)"

text \<open>\<open>socket\<close>, \<open>bind\<close> and \<open>listen\<close>.\<close>

definition echo_listen :: "int \<Rightarrow> int \<Rightarrow> int \<Rightarrow> int res" where
  "echo_listen sk bnd lst =
    (if sk < 0 then Inl (Exit 1) else if bnd < 0 then Inl (Exit 1) else if lst < 0 then Inl (Exit 1) else Inr sk)"

text \<open>One turn of the loop after \<open>accept\<close>: the connection afterwards and the exit, if it ends the process.\<close>

definition echo_conn :: "sock \<Rightarrow> sock \<times> fault option" where
  "echo_conn s =
    (case recv 256 s of (r, d, s1) \<Rightarrow>
       if r \<le> 0 then (s1, Some (Exit 1))
       else case send d s1 of (w, s2) \<Rightarrow>
         if w \<noteq> r then (s2, Some (Exit 1)) else (s2, None))"

text \<open>
  The loop on the connections that arrive (\<open>None\<close> is an \<open>accept\<close> that fails), with \<open>nopen\<close> descriptors in
  use of the \<open>lim\<close> a process may have.
\<close>

fun echo_loop :: "nat \<Rightarrow> nat \<Rightarrow> sock option list \<Rightarrow> sock list \<times> fault option" where
  "echo_loop lim nopen [] = ([], None)"
| "echo_loop lim nopen (None # rest) = ([], Some (Exit 1))"
| "echo_loop lim nopen (Some s # rest) =
    (if lim \<le> nopen then ([], Some (Exit 1))
     else case echo_conn s of
            (s', Some e) \<Rightarrow> ([s'], Some e)
          | (s', None) \<Rightarrow> case echo_loop lim (Suc nopen) rest of (ss, e) \<Rightarrow> (s' # ss, e))"

text \<open>Descriptors 0, 1, 2 and the listening socket are open when the loop starts.\<close>

definition echoserver_main :: "opt list \<Rightarrow> int \<Rightarrow> int \<Rightarrow> int \<Rightarrow> nat \<Rightarrow> sock option list \<Rightarrow> sock list \<times> fault option" where
  "echoserver_main args sk bnd lst lim conns =
    (case echoserver_setup args of Inl e \<Rightarrow> ([], Some e)
     | Inr o1 \<Rightarrow> case echo_listen sk bnd lst of Inl e \<Rightarrow> ([], Some e)
     | Inr fd \<Rightarrow> echo_loop lim 4 conns)"

subsection \<open>echoclient.c\<close>

record echoclient_opts =
  ec_portno :: ushort
  ec_message :: "string option"
  ec_hostname :: "string option"

definition echoclient_default :: echoclient_opts where
  "echoclient_default =
    \<lparr>ec_portno = 10823, ec_message = Some ''Hello Summer!!'', ec_hostname = Some ''localhost''\<rparr>"

definition echoclient_option :: "echoclient_opts \<Rightarrow> char \<Rightarrow> string option \<Rightarrow> echoclient_opts res" where
  "echoclient_option o1 c arg =
    (if c = CHR ''s'' then Inr (o1\<lparr>ec_hostname := arg\<rparr>)
     else if c = CHR ''p'' then bindr (atoi_arg arg) (\<lambda>n. Inr (o1\<lparr>ec_portno := to_ushort n\<rparr>))
     else if c = CHR ''h'' then Inl (Exit 0)
     else if c = CHR ''m'' then Inr (o1\<lparr>ec_message := arg\<rparr>)
     else Inl (Exit 1))"

definition echoclient_setup :: "opt list \<Rightarrow> echoclient_opts res" where
  "echoclient_setup args =
    bindr (getopt_loop echoclient_option echoclient_default args) (\<lambda>o1.
      if port_bad (uint (ec_portno o1)) then Inl (Exit 1)
      else if ec_message o1 = None then Inl (Exit 1)
      else if ec_hostname o1 = None then Inl (Exit 1)
      else Inr o1)"

text \<open>
  The exchange; what is printed is the buffer up to its first NUL.  The result of \<open>send\<close> is not looked at.
\<close>

definition echo_exchange :: "string \<Rightarrow> sock \<Rightarrow> string res \<times> sock" where
  "echo_exchange msg s =
    (case send msg s of (w, s1) \<Rightarrow>
       case recv (256 - 1) s1 of (r, d, s2) \<Rightarrow>
         (if r \<le> 0 then Inl (Exit 1) else Inr (takeWhile (\<lambda>c. c \<noteq> NUL) (d @ [NUL])), s2))"

text \<open>
  \<open>inet_pton\<close> (\<open>pton\<close>) writes the address only when the host name is one in dotted decimal notation; its
  result is not tested, and the address was cleared to 0.  \<open>conn\<close> is \<open>connect\<close>: the connection to an
  address and port, or \<open>None\<close>.
\<close>

definition echoclient_addr :: "(string \<Rightarrow> 32 word option) \<Rightarrow> string \<Rightarrow> 32 word" where
  "echoclient_addr pton host = (case pton host of None \<Rightarrow> 0 | Some a \<Rightarrow> a)"

definition echoclient_main ::
  "opt list \<Rightarrow> (string \<Rightarrow> 32 word option) \<Rightarrow> int \<Rightarrow> (32 word \<Rightarrow> ushort \<Rightarrow> sock option) \<Rightarrow> string res \<times> sock option" where
  "echoclient_main args pton sk conn =
    (case echoclient_setup args of Inl e \<Rightarrow> (Inl e, None)
     | Inr o1 \<Rightarrow>
       if sk < 0 then (Inl (Exit 1), None)
       else case conn (echoclient_addr pton (the (ec_hostname o1))) (ec_portno o1) of
              None \<Rightarrow> (Inl (Exit 1), None)
            | Some s \<Rightarrow> case echo_exchange (the (ec_message o1)) s of (r, s') \<Rightarrow> (r, Some s'))"

subsection \<open>Lemmas\<close>

text \<open>A client whose message is there in one piece, on a connection that takes the answer.\<close>

definition says :: "sock \<Rightarrow> char list \<Rightarrow> bool" where
  "says s m \<longleftrightarrow> (\<exists>es. rx s = RxData m # es) \<and> m \<noteq> [] \<and> length m \<le> 256 \<and> txplan s = []"

lemma send_all: "txplan s = [] \<Longrightarrow> send d s = (int (length d), s\<lparr>tx := tx s @ d\<rparr>)"
  by (simp add: send_def)

lemma echo_conn_says: "says s m \<Longrightarrow> \<exists>s'. echo_conn s = (s', None) \<and> tx s' = tx s @ m"
  by (auto simp: says_def echo_conn_def recv_first send_all)

lemma echo_loop_says:
  "list_all2 says ss ms \<Longrightarrow> nopen + length ss \<le> lim \<Longrightarrow>
   \<exists>ss'. echo_loop lim nopen (map Some ss @ rest) =
       (case echo_loop lim (nopen + length ss) rest of (ss2, e) \<Rightarrow> (ss' @ ss2, e)) \<and>
     map tx ss' = map2 (\<lambda>s m. tx s @ m) ss ms"
proof (induction ss arbitrary: nopen ms)
  case Nil
  then show ?case by (simp split: prod.splits)
next
  case (Cons s ss)
  obtain m ms' where ms: "ms = m # ms'" "says s m" "list_all2 says ss ms'"
    using Cons.prems(1) by (auto simp: list_all2_Cons1)
  obtain s' where s': "echo_conn s = (s', None)" "tx s' = tx s @ m" using echo_conn_says [OF ms(2)] by blast
  obtain ss' where "echo_loop lim (Suc nopen) (map Some ss @ rest) =
       (case echo_loop lim (Suc nopen + length ss) rest of (ss2, e) \<Rightarrow> (ss' @ ss2, e))"
     "map tx ss' = map2 (\<lambda>s m. tx s @ m) ss ms'"
    using Cons.IH [OF ms(3), of "Suc nopen"] Cons.prems(2) by auto
  then show ?case
    using s' ms(1) Cons.prems(2) by (auto intro!: exI [of _ "s' # ss'"] split: prod.splits)
qed

subsection \<open>Properties\<close>

text \<open>Clients whose messages (1 to 256 bytes) each arrive in one piece are all served, in order, each gets
  exactly its own message back, and the server then waits for the next one.\<close>

theorem echo_server_echoes:
  assumes "list_all2 says ss ms" "4 + length ss \<le> lim" "echoserver_setup args = Inr o1" "0 \<le> sk"
  shows "\<exists>ss'. echoserver_main args sk 0 0 lim (map Some ss) = (ss', None) \<and>
    map tx ss' = map2 (\<lambda>s m. tx s @ m) ss ms"
  using echo_loop_says [OF assms(1,2), of "[]"] assms(3,4)
  by (simp add: echoserver_main_def echo_listen_def)

definition echo_client1 :: sock where
  "echo_client1 = \<lparr>rx = [RxData ''hello''], tx = [], txplan = []\<rparr>"

theorem echo_server_echoes_witness:
  "\<exists>ss'. echoserver_main [] 3 0 0 1024 (map Some [echo_client1]) = (ss', None) \<and>
    map tx ss' = map2 (\<lambda>s m. tx s @ m) [echo_client1] [''hello'']"
  by (rule echo_server_echoes)
    (simp_all add: says_def echo_client1_def echoserver_setup_def echoserver_default_def port_bad_def)

text \<open>One client that disconnects without sending anything ends the server: it exits with status 1 and
  does not serve the clients behind it, although the comment on the loop says it should not terminate.\<close>

theorem echo_server_killed_by_client:
  assumes "list_all2 says ss ms" "4 + length ss < lim" "echoserver_setup args = Inr o1" "0 \<le> sk"
    and "rx s = [] \<or> (\<exists>es. rx s = RxErr # es)"
  shows "\<exists>ss' s'. echoserver_main args sk 0 0 lim (map Some ss @ Some s # rest) = (ss' @ [s'], Some (Exit 1)) \<and>
    map tx ss' = map2 (\<lambda>s m. tx s @ m) ss ms \<and> tx s' = tx s"
proof -
  have "\<exists>s'. echo_conn s = (s', Some (Exit 1)) \<and> tx s' = tx s"
    using assms(5) by (auto simp: echo_conn_def recv_def)
  then obtain s' where "echo_loop lim (4 + length ss) (Some s # rest) = ([s'], Some (Exit 1))" "tx s' = tx s"
    using assms(2) by auto
  then show ?thesis
    using echo_loop_says [OF assms(1), of 4 lim "Some s # rest"] assms(2-4)
    by (auto simp: echoserver_main_def echo_listen_def simp del: echo_loop.simps)
qed

theorem echo_server_killed_by_client_witness:
  "\<exists>ss' s'. echoserver_main [] 3 0 0 1024 (map Some [echo_client1] @ Some (echo_client1\<lparr>rx := []\<rparr>) # [Some echo_client1]) =
      (ss' @ [s'], Some (Exit 1)) \<and>
    map tx ss' = map2 (\<lambda>s m. tx s @ m) [echo_client1] [''hello''] \<and> tx s' = tx (echo_client1\<lparr>rx := []\<rparr>)"
  by (rule echo_server_killed_by_client)
    (simp_all add: says_def echo_client1_def echoserver_setup_def echoserver_default_def port_bad_def)

text \<open>Accepted sockets are never closed, so with a limit of \<open>lim\<close> descriptors the server answers \<open>lim - 4\<close>
  clients, however well they behave, and exits with status 1 at the next.\<close>

lemma echo_server_runs_out_of_descriptors:
  assumes "list_all2 says ss ms" "4 + length ss = lim" "echoserver_setup args = Inr o1" "0 \<le> sk"
  shows "\<exists>ss'. echoserver_main args sk 0 0 lim (map Some ss @ Some s # rest) = (ss', Some (Exit 1)) \<and>
    map tx ss' = map2 (\<lambda>s m. tx s @ m) ss ms"
  using echo_loop_says [OF assms(1), of 4 lim "Some s # rest"] assms(2-4)
  by (simp add: echoserver_main_def echo_listen_def)

text \<open>Client and server together: a message of 1 to 255 bytes without NUL that the server receives in one
  piece, and whose echo the client receives in one piece, is what the client prints.\<close>

theorem echo_round_trip:
  assumes "m \<noteq> []" "length m \<le> 255" "NUL \<notin> set m" "txplan c = []" "txplan s = []"
    and "rx s = RxData (drop (length (tx c)) (tx (snd (echo_exchange m c)))) # es"
    and "rx c = RxData (drop (length (tx s)) (tx (fst (echo_conn s)))) # es'"
  shows "fst (echo_exchange m c) = Inr m"
proof -
  have "tx (snd (echo_exchange m c)) = tx c @ m"
    using assms(4) by (auto simp: echo_exchange_def send_all recv_def split: prod.splits)
  then have "says s m" using assms by (auto simp: says_def)
  then have "rx c = RxData m # es'" using echo_conn_says [of s m] assms(7) by auto
  then have "recv 255 (c\<lparr>tx := tx c @ m\<rparr>) = (int (length m), m, c\<lparr>tx := tx c @ m, rx := es'\<rparr>)"
    using assms(1,2) by (simp add: recv_def)
  moreover have "takeWhile (\<lambda>c. c \<noteq> NUL) (m @ [NUL]) = m"
    using assms(3) by (simp add: takeWhile_append takeWhile_eq_all_conv)
  ultimately show ?thesis using assms(1,4) by (simp add: echo_exchange_def send_all)
qed

theorem echo_round_trip_witness:
  "fst (echo_exchange ''hi'' \<lparr>rx = [RxData ''hi''], tx = [], txplan = []\<rparr>) = Inr ''hi''"
  by (rule echo_round_trip [of _ _ "\<lparr>rx = [RxData ''hi''], tx = [], txplan = []\<rparr>" "[]" "[]"])
    (simp_all add: echo_exchange_def send_def recv_def echo_conn_def)

end
