(* ===== verification/FileTransfer.thy ===== *)
theory FileTransfer
  imports Net Files Options
begin

section \<open>The file transfer server and client (pr1/transfer)\<close>

text \<open>
  The server sends one file to every client that connects; the client writes what it receives to a
  file.  Results of system calls are arguments, as in the other programs; the server's descriptors
  are counted because it never closes the file it opens for a client.
\<close>

subsection \<open>transferserver.c\<close>

lemma send_progress:
  "send d s = (r, s') \<Longrightarrow> d \<noteq> [] \<Longrightarrow> 0 < r \<or> length (txplan s') < length (txplan s)"
  by (auto simp: send_def Let_def split: list.splits if_splits)

lemma send_packet_measure:
  assumes "(r, s') = send (drop n buf) s" "n < length buf" "r \<noteq> -1"
  shows "(length buf - (n + nat r)) + length (txplan s') < (length buf - n) + length (txplan s)"
proof -
  note c = assms(1) [symmetric]
  have "length (txplan s') \<le> length (txplan s)" "0 \<le> r" using send_cases [OF c] assms(3) by auto
  moreover have "0 < r \<or> length (txplan s') < length (txplan s)" using send_progress [OF c] assms(2) by simp
  ultimately show ?thesis using assms(2) by linarith
qed

text \<open>The inner loop of \<open>send_file\<close>: send a packet whole.\<close>

function send_packet :: "char list \<Rightarrow> nat \<Rightarrow> sock \<Rightarrow> fault option \<times> sock" where
  "send_packet buf bytes_sent s =
    (if bytes_sent < length buf then
       case send (drop bytes_sent buf) s of (r, s') \<Rightarrow>
         if r = -1 then (Some (Exit 8), s') else send_packet buf (bytes_sent + nat r) s'
     else (None, s))"
  by pat_completeness auto

termination
  by (relation "measure (\<lambda>(buf, n, s). (length buf - n) + length (txplan s))")
    (auto dest: send_packet_measure)

declare send_packet.simps [simp del]

lemma fread_advances:
  assumes "(r, d, f') = fread n f" "\<not> r < 0" "r \<noteq> 0"
  shows "length (fbytes f') - foff f' < length (fbytes f) - foff f"
proof -
  note c = fread_cases [OF assms(1) [symmetric]]
  have d: "0 < length d" "d = take (length d) (drop (foff f) (fbytes f))" using c assms by auto
  then have "drop (foff f) (fbytes f) \<noteq> []" by (metis length_0_conv less_irrefl take_Nil)
  then have "foff f < length (fbytes f)" by simp
  moreover have "foff f' = foff f + length d" "fbytes f' = fbytes f" using c assms by auto
  ultimately show ?thesis using d(1) by (metis diff_less_mono2 less_add_same_cancel1)
qed

text \<open>The outer loop: until \<open>read\<close> returns 0.\<close>

function send_file :: "rfile \<Rightarrow> sock \<Rightarrow> fault option \<times> sock" where
  "send_file f s =
    (case fread 512 f of (r, buf, f') \<Rightarrow>
       if r < 0 then (Some (Exit 6), s)
       else case send_packet buf 0 s of
              (Some e, s') \<Rightarrow> (Some e, s')
            | (None, s') \<Rightarrow> if r \<noteq> 0 then send_file f' s' else (None, s'))"
  by pat_completeness auto

termination
  by (relation "measure (\<lambda>(f, s). length (fbytes f) - foff f)") (auto dest: fread_advances)

declare send_file.simps [simp del]

record transferserver_opts =
  ts_filename :: "string option"
  ts_portno :: int

definition transferserver_default :: transferserver_opts where
  "transferserver_default = \<lparr>ts_filename = Some ''6200.txt'', ts_portno = 10823\<rparr>"

definition transferserver_option :: "transferserver_opts \<Rightarrow> char \<Rightarrow> string option \<Rightarrow> transferserver_opts res" where
  "transferserver_option o1 c arg =
    (if c = CHR ''p'' then bindr (atoi_arg arg) (\<lambda>n. Inr (o1\<lparr>ts_portno := n\<rparr>))
     else if c = CHR ''h'' then Inl (Exit 0)
     else if c = CHR ''f'' then Inr (o1\<lparr>ts_filename := arg\<rparr>)
     else Inl (Exit 1))"

definition transferserver_setup :: "opt list \<Rightarrow> transferserver_opts res" where
  "transferserver_setup args =
    bindr (getopt_loop transferserver_option transferserver_default args) (\<lambda>o1.
      if port_bad (ts_portno o1) then Inl (Exit 1)
      else if ts_filename o1 = None then Inl (Exit 1)
      else Inr o1)"

definition transfer_listen :: "int \<Rightarrow> int \<Rightarrow> int \<Rightarrow> int res" where
  "transfer_listen sk bnd lst =
    (if sk < 0 then Inl (Exit 92) else if bnd < 0 then Inl (Exit 3) else if lst < 0 then Inl (Exit 6) else Inr sk)"

text \<open>
  The loop: for every connection (\<open>None\<close> is an \<open>accept\<close> that fails) the file is opened (\<open>opn\<close>, \<open>None\<close> on
  failure) and sent, and the connection is closed.  Of two descriptors taken one is given back.
\<close>

fun transfer_loop :: "(string \<Rightarrow> rfile option) \<Rightarrow> string \<Rightarrow> nat \<Rightarrow> nat \<Rightarrow> sock option list \<Rightarrow> sock list \<times> fault option" where
  "transfer_loop opn filename lim nopen [] = ([], None)"
| "transfer_loop opn filename lim nopen (None # rest) = ([], Some (Exit 8))"
| "transfer_loop opn filename lim nopen (Some s # rest) =
    (if lim \<le> nopen then ([], Some (Exit 8))
     else if lim \<le> nopen + 1 then ([s], Some (Exit 19))
     else case opn filename of
            None \<Rightarrow> ([s], Some (Exit 19))
          | Some f \<Rightarrow>
            (case send_file f s of
               (Some e, s') \<Rightarrow> ([s'], Some e)
             | (None, s') \<Rightarrow>
               case transfer_loop opn filename lim (nopen + 2 - 1) rest of (ss, e) \<Rightarrow> (s' # ss, e)))"

definition transferserver_main ::
  "opt list \<Rightarrow> int \<Rightarrow> int \<Rightarrow> int \<Rightarrow> (string \<Rightarrow> rfile option) \<Rightarrow> nat \<Rightarrow> sock option list \<Rightarrow> sock list \<times> fault option" where
  "transferserver_main args sk bnd lst opn lim conns =
    (case transferserver_setup args of Inl e \<Rightarrow> ([], Some e)
     | Inr o1 \<Rightarrow> case transfer_listen sk bnd lst of Inl e \<Rightarrow> ([], Some e)
     | Inr fd \<Rightarrow> transfer_loop opn (the (ts_filename o1)) lim 4 conns)"

subsection \<open>transferclient.c\<close>

lemma recv_shrinks: "(r, d, s') = recv n s \<Longrightarrow> 0 < n \<Longrightarrow> 0 < r \<Longrightarrow> rx_size (rx s') < rx_size (rx s)"
  using rx_take_cases by (fastforce simp: recv_def split: prod.splits)

text \<open>The receive loop; the result of \<open>write\<close> is not looked at.\<close>

function recv_file :: "sock \<Rightarrow> wfile \<Rightarrow> sock \<times> wfile" where
  "recv_file s f =
    (case recv 512 s of (r, d, s') \<Rightarrow>
       if r > 0 then recv_file s' (snd (fwrite d f)) else (s', f))"
  by pat_completeness auto

termination
  by (relation "measure (\<lambda>(s, f). rx_size (rx s))") (auto dest: recv_shrinks)

declare recv_file.simps [simp del]

record transferclient_opts =
  tc_portno :: ushort
  tc_hostname :: "string option"
  tc_filename :: "string option"

definition transferclient_default :: transferclient_opts where
  "transferclient_default =
    \<lparr>tc_portno = 10823, tc_hostname = Some ''localhost'', tc_filename = Some ''cs6200.txt''\<rparr>"

definition transferclient_option :: "transferclient_opts \<Rightarrow> char \<Rightarrow> string option \<Rightarrow> transferclient_opts res" where
  "transferclient_option o1 c arg =
    (if c = CHR ''s'' then Inr (o1\<lparr>tc_hostname := arg\<rparr>)
     else if c = CHR ''p'' then bindr (atoi_arg arg) (\<lambda>n. Inr (o1\<lparr>tc_portno := to_ushort n\<rparr>))
     else if c = CHR ''h'' then Inl (Exit 0)
     else if c = CHR ''o'' then Inr (o1\<lparr>tc_filename := arg\<rparr>)
     else Inl (Exit 1))"

definition transferclient_setup :: "opt list \<Rightarrow> transferclient_opts res" where
  "transferclient_setup args =
    bindr (getopt_loop transferclient_option transferclient_default args) (\<lambda>o1.
      if tc_hostname o1 = None then Inl (Exit 1)
      else if tc_filename o1 = None then Inl (Exit 1)
      else if port_bad (uint (tc_portno o1)) then Inl (Exit 1)
      else Inr o1)"

text \<open>
  \<open>opn\<close> opens the output file (without \<open>O_TRUNC\<close>, so with the bytes it has), \<open>host\<close> is \<open>gethostbyname\<close>,
  whose null result is dereferenced, \<open>conn\<close> is \<open>connect\<close>.  The result is the file as it is left and the
  status of the process.
\<close>

definition transferclient_main ::
  "opt list \<Rightarrow> (string \<Rightarrow> wfile option) \<Rightarrow> int \<Rightarrow> (string \<Rightarrow> 32 word option) \<Rightarrow>
   (32 word \<Rightarrow> ushort \<Rightarrow> sock option) \<Rightarrow> (int \<times> wfile) res" where
  "transferclient_main args opn sk host conn =
    bindr (transferclient_setup args) (\<lambda>o1.
      case opn (the (tc_filename o1)) of None \<Rightarrow> Inl (Exit 11)
      | Some f \<Rightarrow>
        if sk < 0 then Inl (Exit 14)
        else case host (the (tc_hostname o1)) of None \<Rightarrow> Inl (Ub Null_Deref)
        | Some a \<Rightarrow>
          (case conn a (tc_portno o1) of None \<Rightarrow> Inl (Exit 12)
           | Some s \<Rightarrow> Inr (0, snd (recv_file s f))))"

subsection \<open>Lemmas\<close>

lemma send_packet_spec:
  "send_packet buf n s = (e, s') \<Longrightarrow> n \<le> length buf \<Longrightarrow>
    rx s' = rx s \<and> (e = None \<longrightarrow> tx s' = tx s @ drop n buf) \<and>
    (\<exists>k. tx s' = tx s @ take k (drop n buf)) \<and> (tx_good s \<longrightarrow> e = None \<and> tx_good s')"
proof (induction buf n s arbitrary: e s' rule: send_packet.induct)
  case (1 buf n s)
  show ?case
  proof (cases "n < length buf")
    case False
    with "1.prems" have "e = None" "s' = s" by (simp_all add: send_packet.simps [of buf n s])
    with False show ?thesis by (auto intro: exI [of _ 0])
  next
    case True
    obtain r s1 where snd: "send (drop n buf) s = (r, s1)" by (cases "send (drop n buf) s")
    note sc = send_cases [OF snd]
    have good: "tx_good s \<Longrightarrow> 0 < r \<and> tx_good s1" using send_good [OF snd] True by simp
    show ?thesis
    proof (cases "r = -1")
      case r: True
      with "1.prems" True snd have "e = Some (Exit 8)" "s' = s1" by (simp_all add: send_packet.simps [of buf n s])
      moreover have "tx s1 = tx s" "rx s1 = rx s" "\<not> tx_good s" using sc r good by auto
      ultimately show ?thesis by (auto intro: exI [of _ 0])
    next
      case r: False
      with "1.prems" True snd have eq: "send_packet buf (n + nat r) s1 = (e, s')"
        by (simp add: send_packet.simps [of buf n s])
      have rl: "n + nat r \<le> length buf" "tx s1 = tx s @ take (nat r) (drop n buf)" "rx s1 = rx s"
        using sc r True by auto
      obtain k where IH: "rx s' = rx s1" "e = None \<longrightarrow> tx s' = tx s1 @ drop (n + nat r) buf"
        "tx s' = tx s1 @ take k (drop (n + nat r) buf)" "tx_good s1 \<longrightarrow> e = None \<and> tx_good s'"
        using "1.IH" [OF True snd [symmetric] r eq rl(1)] by blast
      have "take (nat r) (drop n buf) @ drop (n + nat r) buf = drop n buf"
        by (metis append_take_drop_id drop_drop add.commute)
      moreover have "take (nat r) (drop n buf) @ take k (drop (n + nat r) buf) = take (nat r + k) (drop n buf)"
        using take_add_drop [of "nat r" "drop n buf" k] by (simp add: add.commute)
      ultimately show ?thesis using IH rl good by auto
    qed
  qed
qed

lemma send_file_spec:
  "send_file f s = (e, s') \<Longrightarrow>
    (\<exists>k. tx s' = tx s @ take k (drop (foff f) (fbytes f))) \<and>
    (rd_good f \<longrightarrow> e = None \<longrightarrow> tx s' = tx s @ drop (foff f) (fbytes f)) \<and>
    (rd_good f \<longrightarrow> tx_good s \<longrightarrow> e = None)"
proof (induction f s arbitrary: e s' rule: send_file.induct)
  case (1 f s)
  obtain r buf f' where rd: "fread 512 f = (r, buf, f')" by (cases "fread 512 f")
  note c = fread_cases [OF rd] and nn = fread_good_nonneg [OF rd]
  obtain e1 s1 where pk: "send_packet buf 0 s = (e1, s1)" by (cases "send_packet buf 0 s")
  obtain k where p: "e1 = None \<longrightarrow> tx s1 = tx s @ buf" "tx s1 = tx s @ take k buf"
    "tx_good s \<longrightarrow> e1 = None \<and> tx_good s1"
    using send_packet_spec [OF pk] that by (metis drop0 le0)
  show ?case
  proof (cases "r < 0 \<or> e1 \<noteq> None \<or> r = 0")
    case True
    have b: "buf = take (length buf) (drop (foff f) (fbytes f))" using c by auto
    then have pre: "\<exists>k. take j buf = take k (drop (foff f) (fbytes f))" for j by (metis take_take)
    have e: "r < 0 \<and> e = Some (Exit 6) \<and> s' = s \<or> 0 \<le> r \<and> e = e1 \<and> s' = s1"
      using True "1.prems" rd pk by (subst (asm) send_file.simps) (auto split: if_splits option.splits)
    have eof: "drop (foff f) (fbytes f) = []" if "rd_good f" "r = 0"
      using fread_good [OF rd that(1)] that(2) by (cases "foff f < length (fbytes f)") auto
    have "\<exists>k. tx s' = tx s @ take k (drop (foff f) (fbytes f))"
      using e p(2) pre [of k] by (metis append_Nil2 take0)
    moreover have "rd_good f \<longrightarrow> e = None \<longrightarrow> tx s' = tx s @ drop (foff f) (fbytes f)"
      using e True eof p b by (auto simp del: drop_eq_Nil)
    moreover have "rd_good f \<longrightarrow> tx_good s \<longrightarrow> e = None" using e nn p(3) by auto
    ultimately show ?thesis by blast
  next
    case False
    then have r: "\<not> r < 0" "r \<noteq> 0" "e1 = None" by auto
    with "1.prems" rd pk have eq: "send_file f' s1 = (e, s')" by (simp add: send_file.simps [of f s])
    have b: "buf = take (length buf) (drop (foff f) (fbytes f))" "foff f' = foff f + length buf" "fbytes f' = fbytes f"
      using c r by auto
    have g: "rd_good f \<Longrightarrow> rd_good f'" using rd by (auto simp: fread_def rd_good_def Let_def split: list.splits if_splits)
    obtain j where IH: "tx s' = tx s1 @ take j (drop (foff f') (fbytes f'))"
      "rd_good f' \<longrightarrow> e = None \<longrightarrow> tx s' = tx s1 @ drop (foff f') (fbytes f')"
      "rd_good f' \<longrightarrow> tx_good s1 \<longrightarrow> e = None"
      using "1.IH" [OF rd [symmetric] refl r(1) pk [symmetric] r(3) r(2) eq] by blast
    have d: "buf @ drop (foff f') (fbytes f') = drop (foff f) (fbytes f)"
      using b by (metis append_take_drop_id drop_drop add.commute)
    moreover have "buf @ take j (drop (foff f') (fbytes f')) = take (length buf + j) (drop (foff f) (fbytes f))"
      unfolding d [symmetric] by simp
    ultimately have "tx s' = tx s @ take (length buf + j) (drop (foff f) (fbytes f))"
      "rd_good f \<longrightarrow> e = None \<longrightarrow> tx s' = tx s @ drop (foff f) (fbytes f)"
      using IH(1,2) p(1) r(3) g by (simp_all add: append_assoc)
    moreover have "rd_good f \<longrightarrow> tx_good s \<longrightarrow> e = None" using IH(3) p(3) g by blast
    ultimately show ?thesis by blast
  qed
qed

lemma send_file_ok: "rd_good f \<Longrightarrow> foff f = 0 \<Longrightarrow> tx_good s \<Longrightarrow>
    \<exists>s'. send_file f s = (None, s') \<and> tx s' = tx s @ fbytes f"
  using send_file_spec [of f s] by (cases "send_file f s") auto

lemma transfer_loop_all:
  "list_all tx_good ss \<Longrightarrow> opn filename = Some f \<Longrightarrow> rd_good f \<Longrightarrow> foff f = 0 \<Longrightarrow> nopen + length ss < lim \<Longrightarrow>
   \<exists>ss'. transfer_loop opn filename lim nopen (map Some ss @ rest) =
       (case transfer_loop opn filename lim (nopen + length ss) rest of (ss2, e) \<Rightarrow> (ss' @ ss2, e)) \<and>
     map tx ss' = map (\<lambda>s. tx s @ fbytes f) ss"
proof (induction ss arbitrary: nopen)
  case Nil
  then show ?case by (simp split: prod.splits)
next
  case (Cons s ss)
  obtain s' where s': "send_file f s = (None, s')" "tx s' = tx s @ fbytes f"
    using send_file_ok [of f s] Cons.prems by auto
  obtain ss' where "transfer_loop opn filename lim (Suc nopen) (map Some ss @ rest) =
       (case transfer_loop opn filename lim (Suc nopen + length ss) rest of (ss2, e) \<Rightarrow> (ss' @ ss2, e))"
     "map tx ss' = map (\<lambda>s. tx s @ fbytes f) ss"
    using Cons.IH [of "Suc nopen"] Cons.prems by auto
  then show ?case
    using s' Cons.prems by (auto intro!: exI [of _ "s' # ss'"] split: prod.splits)
qed

text \<open>Whatever pieces the data arrives in, the client's file gets exactly the bytes before the end or an error.\<close>

lemma recv_file_spec:
  "wrplan f = [] \<Longrightarrow> wbytes f = acc @ old \<Longrightarrow> woff f = length acc \<Longrightarrow>
    wbytes (snd (recv_file s f)) = acc @ rx_bytes (rx s) @ drop (length (rx_bytes (rx s))) old"
proof (induction s f arbitrary: acc old rule: recv_file.induct)
  case (1 s f)
  obtain r d s1 where rc: "recv 512 s = (r, d, s1)" by (cases "recv 512 s")
  then have "rx_take 512 (rx s) = (r, d, rx s1)" by (auto simp: recv_def split: prod.splits)
  note c = rx_take_cases [OF this]
  show ?case
  proof (cases "r > 0")
    case False
    then have "rx_bytes (rx s) = []" using c by auto
    with False rc "1.prems" show ?thesis by (simp add: recv_file.simps [of s f])
  next
    case True
    then have d: "rx_bytes (rx s) = d @ rx_bytes (rx s1)" using c by auto
    have "wrplan (snd (fwrite d f)) = []" "wbytes (snd (fwrite d f)) = (acc @ d) @ drop (length d) old"
      "woff (snd (fwrite d f)) = length (acc @ d)"
      using "1.prems" overwrite_prefix [of acc d old] by (simp_all add: fwrite_def)
    then have "wbytes (snd (recv_file s1 (snd (fwrite d f)))) =
        (acc @ d) @ rx_bytes (rx s1) @ drop (length (rx_bytes (rx s1))) (drop (length d) old)"
      by (rule "1.IH" [OF rc [symmetric] refl True])
    then show ?thesis using True rc d by (simp add: recv_file.simps [of s f] add.commute)
  qed
qed

lemma recv_file_all:
  assumes "wrplan f = []" "woff f = 0"
  shows "wbytes (snd (recv_file s f)) = rx_bytes (rx s) @ drop (length (rx_bytes (rx s))) (wbytes f)"
  using recv_file_spec [of f "[]" "wbytes f" s] assms by simp

lemma transferclient_main_ok:
  assumes "transferclient_setup args = Inr o1" "opn (the (tc_filename o1)) = Some f" "0 \<le> sk"
    and "host (the (tc_hostname o1)) = Some a" "conn a (tc_portno o1) = Some s"
    and "wrplan f = []" "woff f = 0"
  shows "\<exists>f'. transferclient_main args opn sk host conn = Inr (0, f') \<and>
    wbytes f' = rx_bytes (rx s) @ drop (length (rx_bytes (rx s))) (wbytes f)"
  using assms recv_file_all [OF assms(6,7), of s] by (simp add: transferclient_main_def)

subsection \<open>Properties\<close>

lemma transferserver_main_all:
  assumes "transferserver_setup args = Inr o1" "0 \<le> sk" "opn (the (ts_filename o1)) = Some f"
    and "rd_good f" "foff f = 0" "list_all tx_good ss" "4 + length ss < lim"
  shows "\<exists>ss'. transferserver_main args sk 0 0 opn lim (map Some ss @ rest) =
      (case transfer_loop opn (the (ts_filename o1)) lim (4 + length ss) rest of (ss2, e) \<Rightarrow> (ss' @ ss2, e)) \<and>
    map tx ss' = map (\<lambda>s. tx s @ fbytes f) ss"
  using transfer_loop_all [of ss opn "the (ts_filename o1)" f 4 lim rest] assms
  by (simp add: transferserver_main_def transfer_listen_def)

definition example_src :: rfile where
  "example_src = \<lparr>fbytes = ''six'', foff = 0, rdplan = [1]\<rparr>"

definition example_peer :: sock where
  "example_peer = \<lparr>rx = [], tx = [], txplan = [1, 1]\<rparr>"

lemma example_setups:
  "transferserver_setup [] = Inr transferserver_default" "transferclient_setup [] = Inr transferclient_default"
  by (simp_all add: transferserver_setup_def transferserver_default_def port_bad_def transferclient_setup_def
      transferclient_default_def)

text \<open>C15. Server and client together, with options that they accept, a file that opens, and a connection that is made, while the server has descriptors left (each transfer costs it one: fewer clients than the limit less four): the
  server sends every client the whole file, whatever pieces \<open>read\<close> and \<open>send\<close> cut it into (neither fails), and a client that
  receives these bytes, cut into any other pieces, and whose writes are complete, ends with status 0 and has the file's bytes
  at the start of its output file.\<close>

theorem transfer_end_to_end:
  assumes "transferserver_setup sargs = Inr so" "0 \<le> sk" "sopn (the (ts_filename so)) = Some f"
    and "rd_good f" "foff f = 0" "list_all tx_good ss" "4 + length ss < lim"
    and "transferclient_setup cargs = Inr co" "copn (the (tc_filename co)) = Some out" "0 \<le> csk"
    and "host (the (tc_hostname co)) = Some a" "conn a (tc_portno co) = Some c"
    and "wrplan out = []" "woff out = 0" "rx_bytes (rx c) = fbytes f"
  shows "\<exists>ss' out'. transferserver_main sargs sk 0 0 sopn lim (map Some ss) = (ss', None) \<and>
    map tx ss' = map (\<lambda>s. tx s @ fbytes f) ss \<and>
    transferclient_main cargs copn csk host conn = Inr (0, out') \<and>
    wbytes out' = fbytes f @ drop (length (fbytes f)) (wbytes out)"
  using transferserver_main_all [of sargs so sk sopn f ss lim "[]"] assms(1-7)
    transferclient_main_ok [where opn = copn and host = host and conn = conn, OF assms(8-14)] assms(15)
  by auto

theorem transfer_end_to_end_witness:
  "\<exists>ss' out'. transferserver_main [] 3 0 0 (\<lambda>_. Some example_src) 1024 (map Some [example_peer]) = (ss', None) \<and>
    map tx ss' = map (\<lambda>s. tx s @ fbytes example_src) [example_peer] \<and>
    transferclient_main [] (\<lambda>_. Some \<lparr>wbytes = ''old text'', woff = 0, wrplan = []\<rparr>) 4 (\<lambda>_. Some 1)
      (\<lambda>_ _. Some \<lparr>rx = [RxData ''s'', RxData ''ix''], tx = [], txplan = []\<rparr>) = Inr (0, out') \<and>
    wbytes out' = fbytes example_src @ drop (length (fbytes example_src)) (wbytes \<lparr>wbytes = ''old text'', woff = 0, wrplan = []\<rparr>)"
  by (rule transfer_end_to_end [OF example_setups(1) _ _ _ _ _ _ example_setups(2),
        where a = 1 and c = "\<lparr>rx = [RxData ''s'', RxData ''ix''], tx = [], txplan = []\<rparr>"])
    (simp_all add: example_src_def example_peer_def rd_good_def tx_good_def)

text \<open>The file opened for a client is never closed: with a limit of \<open>lim\<close> descriptors the server sends
  the file to \<open>lim - 5\<close> clients and then exits with status 19, although it "should not stop".\<close>

theorem transfer_server_runs_out_of_descriptors:
  assumes "transferserver_setup args = Inr o1" "0 \<le> sk" "opn (the (ts_filename o1)) = Some f"
    and "rd_good f" "foff f = 0" "list_all tx_good ss" "5 + length ss = lim"
  shows "\<exists>ss'. transferserver_main args sk 0 0 opn lim (map Some ss @ Some s # rest) = (ss' @ [s], Some (Exit 19)) \<and>
    map tx ss' = map (\<lambda>s. tx s @ fbytes f) ss"
  using transferserver_main_all [of args o1 sk opn f ss lim "Some s # rest"] assms by auto

theorem transfer_server_runs_out_of_descriptors_witness:
  "\<exists>ss'. transferserver_main [] 3 0 0 (\<lambda>_. Some example_src) 6 (map Some [example_peer] @ Some example_peer # []) =
      (ss' @ [example_peer], Some (Exit 19)) \<and>
    map tx ss' = map (\<lambda>s. tx s @ fbytes example_src) [example_peer]"
  by (rule transfer_server_runs_out_of_descriptors [OF example_setups(1)])
    (simp_all add: example_src_def example_peer_def rd_good_def tx_good_def)

text \<open>The client cannot tell a complete transfer from one that was cut off: when the connection breaks
  after any part \<open>p\<close> of the file, it still ends with status 0, and its file holds \<open>p\<close> and, because it is
  opened without truncation, whatever bytes it held behind.\<close>

theorem transfer_client_reports_success:
  assumes "transferclient_setup args = Inr o1" "opn (the (tc_filename o1)) = Some f" "0 \<le> sk"
    and "host (the (tc_hostname o1)) = Some a" "conn a (tc_portno o1) = Some s"
    and "wrplan f = []" "woff f = 0" "rx s = map RxData ps @ RxErr # es"
  shows "\<exists>f'. transferclient_main args opn sk host conn = Inr (0, f') \<and>
    wbytes f' = concat ps @ drop (length (concat ps)) (wbytes f)"
proof -
  have "rx_bytes (map RxData ps @ RxErr # es) = concat ps" by (induction ps) auto
  then show ?thesis
    using transferclient_main_ok [where opn = opn and host = host and conn = conn, OF assms(1-7)] assms(8) by simp
qed

theorem transfer_client_reports_success_witness:
  "\<exists>f'. transferclient_main [] (\<lambda>_. Some \<lparr>wbytes = ''old text'', woff = 0, wrplan = []\<rparr>) 4 (\<lambda>_. Some 1)
      (\<lambda>_ _. Some \<lparr>rx = [RxData ''s'', RxErr], tx = [], txplan = []\<rparr>) = Inr (0, f') \<and>
    wbytes f' = concat [''s''] @ drop (length (concat [''s''])) (wbytes \<lparr>wbytes = ''old text'', woff = 0, wrplan = []\<rparr>)"
  by (rule transfer_client_reports_success [OF example_setups(2),
        where a = 1 and s = "\<lparr>rx = [RxData ''s'', RxErr], tx = [], txplan = []\<rparr>"]) simp_all

end
