(* ===== verification/GFClient.thy ===== *)
theory GFClient
  imports Net
begin

section \<open>The Getfile client library (pr1/gflib/gfclient.c, gfclient.h)\<close>

text \<open>
  The request object with its setters and getters, and \<open>gfc_perform\<close>: connect, send the request,
  receive and parse the header, hand the content to the write callback.  The results of \<open>socket\<close>,
  \<open>getaddrinfo\<close> and \<open>connect\<close> are arguments.  The receive loop need not end, so it takes fuel: \<open>None\<close> says
  that it is still running after that many packets.
\<close>

subsection \<open>Data, setters and getters\<close>

datatype gfstatus = GF_OK | GF_FILE_NOT_FOUND | GF_ERROR | GF_INVALID

text \<open>The enumeration is ordered by its values, 0 to 3.\<close>

fun gfstatus_val :: "gfstatus \<Rightarrow> int" where
  "gfstatus_val GF_OK = 0"
| "gfstatus_val GF_FILE_NOT_FOUND = 1"
| "gfstatus_val GF_ERROR = 2"
| "gfstatus_val GF_INVALID = 3"

instantiation gfstatus :: linorder
begin

definition less_eq_gfstatus :: "gfstatus \<Rightarrow> gfstatus \<Rightarrow> bool" where
  "a \<le> b \<longleftrightarrow> gfstatus_val a \<le> gfstatus_val b"

definition less_gfstatus :: "gfstatus \<Rightarrow> gfstatus \<Rightarrow> bool" where
  "a < b \<longleftrightarrow> gfstatus_val a < gfstatus_val b"

instance
proof
  fix a b :: gfstatus
  show "a \<le> b \<Longrightarrow> b \<le> a \<Longrightarrow> a = b"
    by (cases a; cases b) (simp_all add: less_eq_gfstatus_def)
qed (auto simp: less_eq_gfstatus_def less_gfstatus_def)

end

text \<open>
  The callbacks act on the object behind their last argument, of type \<open>'w\<close> (\<open>None\<close> is a null pointer).  The fields \<open>response\<close> and
  \<open>content\<close>, which no code reads, are left out.
\<close>

type_synonym 'w cb = "char list \<Rightarrow> 'w option \<Rightarrow> 'w option"

record 'w gfcrequest =
  socket_fd :: int
  rq_port :: ushort
  bytes_received :: size_t
  file_length :: size_t
  rq_status :: gfstatus
  rq_server :: "string option"
  rq_path :: "string option"
  header_func :: "'w cb option"
  header_args :: "'w option"
  write_func :: "'w cb option"
  write_args :: "'w option"

definition gfc_create :: "'w gfcrequest" where
  "gfc_create = \<lparr>socket_fd = 0, rq_port = 0, bytes_received = 0, file_length = 0, rq_status = GF_INVALID,
    rq_server = None, rq_path = None, header_func = None, header_args = None, write_func = None, write_args = None\<rparr>"

definition gfc_cleanup :: "'w gfcrequest option \<Rightarrow> 'w gfcrequest option" where
  "gfc_cleanup g = None"

definition gfc_get_bytesreceived :: "'w gfcrequest \<Rightarrow> size_t" where
  "gfc_get_bytesreceived g = bytes_received g"

definition gfc_get_filelen :: "'w gfcrequest \<Rightarrow> size_t" where
  "gfc_get_filelen g = file_length g"

definition gfc_get_status :: "'w gfcrequest \<Rightarrow> gfstatus" where
  "gfc_get_status g = rq_status g"

definition gfc_set_server :: "string option \<Rightarrow> 'w gfcrequest \<Rightarrow> 'w gfcrequest" where
  "gfc_set_server x g = g\<lparr>rq_server := x\<rparr>"

definition gfc_set_port :: "ushort \<Rightarrow> 'w gfcrequest \<Rightarrow> 'w gfcrequest" where
  "gfc_set_port x g = g\<lparr>rq_port := x\<rparr>"

definition gfc_set_path :: "string option \<Rightarrow> 'w gfcrequest \<Rightarrow> 'w gfcrequest" where
  "gfc_set_path x g = g\<lparr>rq_path := x\<rparr>"

definition gfc_set_writefunc :: "'w cb option \<Rightarrow> 'w gfcrequest \<Rightarrow> 'w gfcrequest" where
  "gfc_set_writefunc x g = g\<lparr>write_func := x\<rparr>"

definition gfc_set_writearg :: "'w option \<Rightarrow> 'w gfcrequest \<Rightarrow> 'w gfcrequest" where
  "gfc_set_writearg x g = g\<lparr>write_args := x\<rparr>"

definition gfc_set_headerfunc :: "'w cb option \<Rightarrow> 'w gfcrequest \<Rightarrow> 'w gfcrequest" where
  "gfc_set_headerfunc x g = g\<lparr>header_func := x\<rparr>"

definition gfc_set_headerarg :: "'w option \<Rightarrow> 'w gfcrequest \<Rightarrow> 'w gfcrequest" where
  "gfc_set_headerarg x g = g\<lparr>header_args := x\<rparr>"

fun gfc_strstatus :: "gfstatus \<Rightarrow> string" where
  "gfc_strstatus GF_ERROR = ''ERROR''"
| "gfc_strstatus GF_OK = ''OK''"
| "gfc_strstatus GF_INVALID = ''INVALID''"
| "gfc_strstatus GF_FILE_NOT_FOUND = ''FILE_NOT_FOUND''"

definition get_return_code :: "gfstatus \<Rightarrow> size_t \<Rightarrow> size_t \<Rightarrow> int" where
  "get_return_code st n len =
    (if st = GF_ERROR \<or> st = GF_FILE_NOT_FOUND \<or> (st = GF_OK \<and> n = len) then 0 else -1)"

subsection \<open>Connecting and sending the request\<close>

text \<open>For every address the result of \<open>connect\<close> and, where it fails, of the next \<open>socket\<close>.\<close>

fun gfc_connect :: "int \<Rightarrow> (bool \<times> int) list \<Rightarrow> int res" where
  "gfc_connect fd [] = Inr fd"
| "gfc_connect fd ((ok, sk) # rest) =
    (if ok then Inr fd else if sk < 0 then Inl (Exit 11) else gfc_connect sk rest)"

definition request_text :: "string \<Rightarrow> string" where
  "request_text path = ''GETFILE GET '' @ path @ CRLF2"

text \<open>\<open>sprintf\<close> into \<open>req_header[256]\<close>.\<close>

definition build_request :: "string option \<Rightarrow> string res" where
  "build_request path =
    (case path of None \<Rightarrow> Inl (Ub Null_Deref)
     | Some p \<Rightarrow> if 256 \<le> length (request_text p) then Inl (Ub Out_Of_Bounds) else Inr (request_text p))"

lemma send_progress0: "(r, s') = send d s \<Longrightarrow> d \<noteq> [] \<Longrightarrow> \<not> r < 0 \<Longrightarrow>
    length (txplan s') \<le> length (txplan s) \<and> (0 < r \<or> length (txplan s') < length (txplan s))"
  by (auto simp: send_def Let_def split: list.splits if_splits)

lemma send_request_measure:
  assumes "(r, s') = send req s" "n < length req" "\<not> r < 0"
  shows "(length req - (n + nat r)) + length (txplan s') < (length req - n) + length (txplan s)"
proof -
  have "length (txplan s') \<le> length (txplan s) \<and> (0 < r \<or> length (txplan s') < length (txplan s))"
    using assms by (intro send_progress0) auto
  then show ?thesis using assms(2,3) by linarith
qed

text \<open>Every call of \<open>send\<close> starts at the beginning of the request again.\<close>

function send_request :: "string \<Rightarrow> nat \<Rightarrow> sock \<Rightarrow> fault option \<times> sock" where
  "send_request req n s =
    (if n < length req then
       case send req s of (r, s') \<Rightarrow>
         if r < 0 then (Some (Exit 27), s') else send_request req (n + nat r) s'
     else (None, s))"
  by pat_completeness auto

termination
  by (relation "measure (\<lambda>(req, n, s). (length req - n) + length (txplan s))")
    (auto dest: send_request_measure)

declare send_request.simps [simp del]

subsection \<open>The response\<close>

definition fmt_len :: "directive list" where
  "fmt_len = map Lit ''GETFILE'' @ [Ws, Str 16, Ws, Zu, Ws]"

definition fmt_status :: "directive list" where
  "fmt_status = map Lit ''GETFILE'' @ [Ws, Str 16, Ws]"

text \<open>What the first packet decides: leave the loop with a status, or receive a content of this length.\<close>

datatype header = Stop gfstatus | Content size_t

definition header_of :: "conv list \<Rightarrow> header" where
  "header_of cs =
    (case cs of
       [CStr st, CNum len] \<Rightarrow> if st = ''OK'' then Content len else Stop GF_INVALID
     | [CStr st] \<Rightarrow>
         if st = ''FILE_NOT_FOUND'' then Stop GF_FILE_NOT_FOUND
         else if st = ''INVALID'' then Stop GF_INVALID else Stop GF_ERROR
     | _ \<Rightarrow> Stop GF_INVALID)"

definition parse_response :: "char list \<Rightarrow> header res" where
  "parse_response buffer =
    bindr (strstr buffer ''GETFILE'') (\<lambda>a.
      if \<not> a then Inr (Stop GF_INVALID)
      else bindr (strstr buffer CRLF2) (\<lambda>b.
        if \<not> b then Inr (Stop GF_INVALID)
        else bindr (strtok CRLF2 buffer) (\<lambda>(tok, _).
          case tok of None \<Rightarrow> Inr (Stop GF_INVALID)
          | Some h \<Rightarrow>
            bindr (sscanf h fmt_len) (\<lambda>(r, cs).
            bindr (if r = 2 then Inr (r, cs) else sscanf h fmt_status) (\<lambda>(r, cs).
              Inr (header_of cs))))))"

definition resp_header :: "size_t \<Rightarrow> string" where
  "resp_header len = ''GETFILE OK '' @ dec (unat len) @ CRLF2"

definition write_out :: "'w cb \<Rightarrow> char list \<Rightarrow> 'w gfcrequest \<Rightarrow> 'w gfcrequest" where
  "write_out wfn d g = g\<lparr>write_args := wfn d (write_args g)\<rparr>"

text \<open>
  One turn of the loop.  \<open>hr\<close> is \<open>header_rcvd\<close>, \<open>len\<close> the local variable (\<open>None\<close> while it has no value);
  the first component of the result says whether the loop is left.
\<close>

type_synonym 'w gfc_state = "bool \<times> size_t option \<times> 'w gfcrequest \<times> sock"

definition gfc_end :: "bool \<Rightarrow> size_t option \<Rightarrow> 'w gfcrequest \<Rightarrow> sock \<Rightarrow> (bool \<times> 'w gfc_state) res" where
  "gfc_end hr len g s =
    (case len of None \<Rightarrow> Inl (Ub Uninitialised)
     | Some l \<Rightarrow> Inr (l = bytes_received g, hr, len, g, s))"

definition gfc_first :: "int \<Rightarrow> char list \<Rightarrow> 'w gfcrequest \<Rightarrow> sock \<Rightarrow> (bool \<times> 'w gfc_state) res" where
  "gfc_first r d g s =
    (if r = 0 then Inr (True, False, None, g\<lparr>rq_status := GF_ERROR\<rparr>, s)
     else bindr (parse_response (fill_buf 512 d)) (\<lambda>h.
       case h of Stop st \<Rightarrow> Inr (True, False, None, g\<lparr>rq_status := st\<rparr>, s)
       | Content len \<Rightarrow>
         let hlen = length (resp_header len);
             g = g\<lparr>rq_status := GF_OK, file_length := len,
               bytes_received := bytes_received g + (size_of_int r - of_nat hlen)\<rparr>
         in case write_func g of
              None \<Rightarrow> gfc_end True (Some len) g s
            | Some wfn \<Rightarrow>
              if length d < hlen then Inl (Ub Out_Of_Bounds)
              else gfc_end True (Some len) (write_out wfn (drop hlen d) g) s))"

definition gfc_next :: "size_t option \<Rightarrow> int \<Rightarrow> char list \<Rightarrow> 'w gfcrequest \<Rightarrow> sock \<Rightarrow> (bool \<times> 'w gfc_state) res" where
  "gfc_next len r d g s =
    (case len of None \<Rightarrow> Inl (Ub Uninitialised)
     | Some l \<Rightarrow>
       if r = 0 \<and> bytes_received g < l then Inr (True, True, len, g\<lparr>rq_status := GF_OK\<rparr>, s)
       else case write_func g of None \<Rightarrow> Inl (Ub Null_Deref)
       | Some wfn \<Rightarrow>
         gfc_end True len ((write_out wfn d g)\<lparr>bytes_received := bytes_received g + size_of_int r\<rparr>) s)"

text \<open>A failed \<open>recv\<close> makes the size of the \<open>memcpy\<close> that follows \<open>(size_t) -1\<close>.\<close>

definition gfc_step :: "'w gfc_state \<Rightarrow> (bool \<times> 'w gfc_state) res" where
  "gfc_step x =
    (case x of (hr, len, g, s) \<Rightarrow>
     case recv 512 s of (r, d, s') \<Rightarrow>
       if r < 0 then Inl (Ub Out_Of_Bounds)
       else if \<not> hr then gfc_first r d g s' else gfc_next len r d g s')"

fun gfc_loop :: "nat \<Rightarrow> 'w gfc_state \<Rightarrow> ('w gfcrequest \<times> sock) res option" where
  "gfc_loop 0 x = None"
| "gfc_loop (Suc n) x =
    (case gfc_step x of
       Inl e \<Rightarrow> Some (Inl e)
     | Inr (stop, hr, len, g, s) \<Rightarrow> if stop then Some (Inr (g, s)) else gfc_loop n (hr, len, g, s))"

definition gfc_perform ::
  "nat \<Rightarrow> int \<Rightarrow> int \<Rightarrow> (bool \<times> int) list \<Rightarrow> 'w gfcrequest \<Rightarrow> sock \<Rightarrow> (int \<times> 'w gfcrequest \<times> sock) res option" where
  "gfc_perform fuel sk gai addrs g s =
    (if sk < 0 then Some (Inl (Exit 14))
     else if gai \<noteq> 0 then Some (Inr (2, g\<lparr>socket_fd := sk\<rparr>, s))
     else case gfc_connect sk addrs of Inl e \<Rightarrow> Some (Inl e)
     | Inr fd \<Rightarrow> case build_request (rq_path g) of Inl e \<Rightarrow> Some (Inl e)
     | Inr req \<Rightarrow> case send_request req 0 s of (Some e, s1) \<Rightarrow> Some (Inl e)
     | (None, s1) \<Rightarrow> case gfc_loop fuel (False, None, g\<lparr>socket_fd := fd\<rparr>, s1) of None \<Rightarrow> None
     | Some (Inl e) \<Rightarrow> Some (Inl e)
     | Some (Inr (g', s')) \<Rightarrow>
         Some (Inr (get_return_code (rq_status g') (bytes_received g') (file_length g'), g', s')))"

subsection \<open>Lemmas: the header\<close>

lemma sscanf_lits: "sscanf (p @ s) (map Lit p @ ds) = sscanf_go ds s []"
  by (simp add: sscanf_def sscanf_go_lits)

lemma scan_ok: "sscanf (''GETFILE OK '' @ dec (unat n)) fmt_len = Inr (2, [CStr ''OK'', CNum n])"
proof -
  have u: "unat n < 2 ^ 64" using unsigned_less [of n] by simp
  have o1: "\<not> isspace (CHR ''O'')" "\<not> isspace (CHR ''K'')" by (simp_all add: isspace_def)
  have "sscanf (''GETFILE'' @ ('' OK '' @ dec (unat n))) fmt_len =
      sscanf_go [Ws, Str 16, Ws, Zu, Ws] ('' OK '' @ dec (unat n)) []"
    unfolding fmt_len_def by (rule sscanf_lits)
  also have "\<dots> = Inr (2, [CStr ''OK'', CNum n])"
    using u o1 by (simp add: Let_def strtoul_sat_small)
  finally show ?thesis by simp
qed

lemma scan_word_only:
  assumes "length w < 16" "w \<noteq> []" "\<forall>c\<in>set w. \<not> isspace c"
  shows "sscanf (''GETFILE '' @ w) fmt_len = Inr (1, [CStr w])"
    and "sscanf (''GETFILE '' @ w) fmt_status = Inr (1, [CStr w])"
proof -
  have tw: "takeWhile (\<lambda>c. \<not> isspace c) w = w" "dropWhile isspace w = w" "dropWhile (\<lambda>c. \<not> isspace c) w = []"
    using assms by (auto simp: takeWhile_eq_all_conv dropWhile_eq_self_iff dest: list.set_sel(1))
  have "sscanf_go (Ws # Str 16 # ds) (SP # w) [] = sscanf_go ds [] [CStr w]" for ds
    using assms(1,2) by (simp add: Let_def tw)
  then show "sscanf (''GETFILE '' @ w) fmt_len = Inr (1, [CStr w])"
    "sscanf (''GETFILE '' @ w) fmt_status = Inr (1, [CStr w])"
    using sscanf_lits [of "''GETFILE''" "SP # w"] by (simp_all add: fmt_len_def fmt_status_def)
qed

lemma header_buffer:
  assumes "NUL \<notin> set h" "CR \<notin> set h" "LF \<notin> set h" "length (h @ CRLF2 @ b) \<le> 512" "h = ''GETFILE'' @ h'"
  shows "strstr (fill_buf 512 (h @ CRLF2 @ b)) ''GETFILE'' = Inr True"
    and "strstr (fill_buf 512 (h @ CRLF2 @ b)) CRLF2 = Inr True"
    and "\<exists>r. strtok CRLF2 (fill_buf 512 (h @ CRLF2 @ b)) = Inr (Some h, r)"
proof -
  define tl where "tl = b @ replicate (512 - length (h @ CRLF2 @ b)) NUL"
  have b: "fill_buf 512 (h @ CRLF2 @ b) = h @ CRLF2 @ tl"
    unfolding tl_def using fill_buf_eq [OF assms(4)] by simp
  show "strstr (fill_buf 512 (h @ CRLF2 @ b)) ''GETFILE'' = Inr True"
    unfolding b unfolding assms(5) append_assoc by (rule strstr_prefix) simp_all
  have "strstr (h @ CRLF2 @ tl) CRLF2 = strstr (CRLF2 @ tl) CRLF2"
    using assms(1,2) by (intro strstr_skip) auto
  also have "\<dots> = Inr True" by (rule strstr_prefix) simp_all
  finally show "strstr (fill_buf 512 (h @ CRLF2 @ b)) CRLF2 = Inr True" unfolding b .
  have "strtok CRLF2 (h @ CR # [LF, CR, LF] @ tl) = Inr (Some h, [LF, CR, LF] @ tl)"
    using assms by (intro strtok_token) auto
  then show "\<exists>r. strtok CRLF2 (fill_buf 512 (h @ CRLF2 @ b)) = Inr (Some h, r)" unfolding b by auto
qed

lemma parse_token:
  assumes "NUL \<notin> set h" "CR \<notin> set h" "LF \<notin> set h" "length (h @ CRLF2 @ b) \<le> 512" "h = ''GETFILE'' @ h'"
    and "sscanf h fmt_len = Inr (r, cs)" "r = 2 \<and> cs' = cs \<or> r \<noteq> 2 \<and> sscanf h fmt_status = Inr (r', cs')"
  shows "parse_response (fill_buf 512 (h @ CRLF2 @ b)) = Inr (header_of cs')"
  using header_buffer [OF assms(1-5)] assms(6,7) by (auto simp: parse_response_def simp del: append_assoc)

lemma dec_plain: "CR \<notin> set (dec n)" "LF \<notin> set (dec n)"
  using dec_digits isdigit_not_CR by blast+

lemma parse_content:
  assumes "length (resp_header len @ b) \<le> 512"
  shows "parse_response (fill_buf 512 (resp_header len @ b)) = Inr (Content len)"
proof -
  let ?h = "''GETFILE OK '' @ dec (unat len)"
  have e: "resp_header len @ b = ?h @ CRLF2 @ b" by (simp add: resp_header_def)
  have pl: "NUL \<notin> set ?h" "CR \<notin> set ?h" "LF \<notin> set ?h" "?h = ''GETFILE'' @ '' OK '' @ dec (unat len)"
    using dec_plain by auto
  show ?thesis
    unfolding e using parse_token [OF pl(1-3) assms [unfolded e] pl(4) scan_ok, of "[CStr ''OK'', CNum len]"]
    by (simp add: header_of_def del: append.simps append_assoc)
qed

lemma parse_word:
  assumes "length (''GETFILE '' @ w @ CRLF2 @ b) \<le> 512"
    and "length w < 16" "w \<noteq> []" "\<forall>c\<in>set w. \<not> isspace c \<and> c \<noteq> NUL"
  shows "parse_response (fill_buf 512 (''GETFILE '' @ w @ CRLF2 @ b)) = Inr (header_of [CStr w])"
proof -
  let ?h = "''GETFILE '' @ w"
  have e: "''GETFILE '' @ w @ CRLF2 @ b = ?h @ CRLF2 @ b" by simp
  have pl: "NUL \<notin> set ?h" "CR \<notin> set ?h" "LF \<notin> set ?h" "?h = ''GETFILE'' @ SP # w"
    using assms(4) by (auto simp: isspace_def)
  have "\<forall>c\<in>set w. \<not> isspace c" using assms(4) by blast
  note sw = scan_word_only [OF assms(2,3) this]
  show ?thesis
    unfolding e by (rule parse_token [OF pl(1-3) assms(1) [unfolded e] pl(4) sw(1)]) (use sw(2) in simp)
qed

lemma match_at_NUL: "NUL \<in> set buf \<Longrightarrow> \<exists>b. match_at buf p = Inr b"
  by (induction buf p rule: match_at.induct) auto

lemma strstr_NUL_total: "NUL \<in> set buf \<Longrightarrow> \<exists>b. strstr buf p = Inr b"
proof (induction buf)
  case (Cons c cs)
  obtain m where "match_at (c # cs) p = Inr m" using match_at_NUL [OF Cons.prems] by blast
  then show ?case using Cons by (cases m) auto
qed simp

text \<open>A proper prefix of a header has no end-of-header mark, so it is taken for a malformed one.\<close>

lemma strstr_cut_mark:
  assumes "NUL \<notin> set h" "CR \<notin> set h" "k < length (h @ CRLF2)"
  shows "strstr (take k (h @ CRLF2) @ NUL # r) CRLF2 = Inr False"
proof -
  have "strstr (take j CRLF2 @ NUL # r) CRLF2 = Inr False" if "j < 4" for j
  proof -
    have "j = 0 \<or> j = 1 \<or> j = 2 \<or> j = 3" using that by linarith
    then show ?thesis by (auto simp: numeral_2_eq_2 numeral_3_eq_3)
  qed
  moreover have "strstr (take k h @ take (k - length h) CRLF2 @ NUL # r) CRLF2 =
      strstr (take (k - length h) CRLF2 @ NUL # r) CRLF2"
    using assms(1,2) by (intro strstr_skip) (auto dest: in_set_takeD)
  ultimately show ?thesis using assms(3) by (simp del: strstr.simps)
qed

lemma parse_cut_header:
  assumes "d = take k (resp_header len)" "k < length (resp_header len)" "length d < 512"
  shows "parse_response (fill_buf 512 d) = Inr (Stop GF_INVALID)"
proof -
  let ?h = "''GETFILE OK '' @ dec (unat len)"
  have "512 - length d = Suc (511 - length d)" using assms(3) by simp
  then have b: "fill_buf 512 d = d @ NUL # replicate (511 - length d) NUL"
    using fill_buf_eq [of d 512] assms(3) by (metis less_imp_le_nat replicate_Suc)
  have "NUL \<notin> set ?h" "CR \<notin> set ?h" using dec_plain by auto
  then have "strstr (fill_buf 512 d) CRLF2 = Inr False"
    unfolding b using assms(1,2) strstr_cut_mark [of ?h k "replicate (511 - length d) NUL"]
    by (simp add: resp_header_def del: strstr.simps)
  moreover obtain m where "strstr (fill_buf 512 d) ''GETFILE'' = Inr m"
    using strstr_NUL_total [of "fill_buf 512 d" "''GETFILE''"] b by auto
  ultimately show ?thesis by (cases m) (simp_all add: parse_response_def)
qed

subsection \<open>Lemmas: the loop\<close>

lemma recv_clean:
  assumes "recv n s = (r, d, s')" "0 < n" "rx_clean (rx s)"
  shows "r = 0 \<and> d = [] \<and> rx_bytes (rx s) = [] \<and> rx s' = [] \<or>
    0 < r \<and> r = int (length d) \<and> d \<noteq> [] \<and> length d \<le> n \<and> rx_bytes (rx s) = d @ rx_bytes (rx s') \<and>
      rx_clean (rx s') \<and> rx_size (rx s') < rx_size (rx s)"
proof -
  have "rx_take n (rx s) = (r, d, rx s')" using assms(1) by (auto simp: recv_def split: prod.splits)
  from rx_take_cases [OF this assms(2)] assms(3) show ?thesis by auto
qed

lemma word_of_nat_bound: "k \<le> unat (l :: size_t) \<Longrightarrow> unat (of_nat k :: size_t) = k"
proof -
  assume "k \<le> unat l"
  also have "unat l < 2 ^ 64" using unsigned_less [of l] by simp
  finally show ?thesis by (simp add: unat_of_nat take_bit_nat_eq_self_iff)
qed

lemma word_of_nat_less_iff: "k \<le> unat (l :: size_t) \<Longrightarrow> of_nat k < l \<longleftrightarrow> k < unat l"
  by (simp add: word_less_nat_alt word_of_nat_bound)

lemma word_of_nat_eq_iff: "k \<le> unat (l :: size_t) \<Longrightarrow> l = of_nat k \<longleftrightarrow> unat l = k"
  by (metis word_of_nat_bound of_nat_unat ucast_id)

lemma size_of_int_nat: "size_of_int (int n) = of_nat n"
  by (simp add: size_of_int_def)

text \<open>The loop after the header, on a connection that brings at most what was announced.\<close>

lemma gfc_loop_rest:
  assumes "rx_clean (rx s)" "write_func g = Some wfn" "bytes_received g = of_nat k" "rq_status g = GF_OK"
    and "k < unat len" "k + length (rx_bytes (rx s)) \<le> unat len" "rx_size (rx s) < n"
  shows "\<exists>g' s' cs. gfc_loop n (True, Some len, g, s) = Some (Inr (g', s')) \<and>
    concat cs = rx_bytes (rx s) \<and> write_args g' = foldl (\<lambda>a d. wfn d a) (write_args g) cs \<and>
    bytes_received g' = of_nat (k + length (rx_bytes (rx s))) \<and> rq_status g' = GF_OK \<and> file_length g' = file_length g"
  using assms
proof (induction "rx_size (rx s)" arbitrary: s g k n rule: less_induct)
  case less
  obtain m where n: "n = Suc m" using less.prems(7) by (cases n) auto
  obtain r d s1 where rc: "recv 512 s = (r, d, s1)" by (cases "recv 512 s")
  have kl: "k \<le> unat len" using less.prems(5) by simp
  show ?case
  proof (cases "r = 0")
    case True
    then have "rx_bytes (rx s) = []" using recv_clean [OF rc _ less.prems(1)] by auto
    moreover have "bytes_received g < len" using less.prems(3,5) word_of_nat_less_iff [OF kl] by simp
    ultimately show ?thesis
      using True rc n less.prems by (auto simp: gfc_step_def gfc_next_def intro: exI [of _ "[]"])
  next
    case False
    then have d: "r = int (length d)" "0 < r" "rx_bytes (rx s) = d @ rx_bytes (rx s1)" "rx_clean (rx s1)"
      "rx_size (rx s1) < rx_size (rx s)"
      using recv_clean [OF rc _ less.prems(1)] by auto
    define g1 where "g1 = (write_out wfn d g)\<lparr>bytes_received := bytes_received g + size_of_int r\<rparr>"
    have g1: "write_func g1 = Some wfn" "bytes_received g1 = of_nat (k + length d)" "rq_status g1 = GF_OK"
      "write_args g1 = wfn d (write_args g)" "file_length g1 = file_length g"
      using less.prems d(1) by (simp_all add: g1_def write_out_def size_of_int_nat)
    have kd: "k + length d \<le> unat len" using less.prems(6) d(3) by simp
    have step: "gfc_step (True, Some len, g, s) = Inr (len = of_nat (k + length d), True, Some len, g1, s1)"
      using False rc d(2) less.prems(2) g1(2) by (simp add: gfc_step_def gfc_next_def gfc_end_def g1_def)
    show ?thesis
    proof (cases "len = of_nat (k + length d)")
      case True
      then have "rx_bytes (rx s1) = []" using word_of_nat_eq_iff [OF kd] less.prems(6) d(3) by auto
      then show ?thesis
        using step n True d(3) g1 by (auto intro!: exI [of _ "[d]"])
    next
      case F: False
      then have lt: "k + length d < unat len" using word_of_nat_eq_iff [OF kd] kd by auto
      have "k + length d + length (rx_bytes (rx s1)) \<le> unat len" "rx_size (rx s1) < m"
        using less.prems(6,7) d(3,5) n by auto
      from less.hyps [OF d(5,4) g1(1,2,3) lt this]
      obtain g' s' cs where IH: "gfc_loop m (True, Some len, g1, s1) = Some (Inr (g', s'))"
        "concat cs = rx_bytes (rx s1)" "write_args g' = foldl (\<lambda>a d. wfn d a) (write_args g1) cs"
        "bytes_received g' = of_nat (k + length d + length (rx_bytes (rx s1)))" "rq_status g' = GF_OK"
        "file_length g' = file_length g1"
        by blast
      then show ?thesis
        using step n F d(3) g1 by (auto simp: ac_simps intro!: exI [of _ "d # cs"])
    qed
  qed
qed

text \<open>Once more bytes are counted than announced, the end of the stream does not end the loop.\<close>

lemma gfc_loop_overrun:
  "rx s = [] \<Longrightarrow> write_func g = Some wfn \<Longrightarrow> len < bytes_received g \<Longrightarrow>
   gfc_loop n (True, Some len, g, s) = None"
proof (induction n arbitrary: g s)
  case (Suc n)
  have "recv 512 s = (0, [], s)" using Suc.prems(1) by (simp add: recv_def)
  then have "gfc_step (True, Some len, g, s) = Inr (False, True, Some len, write_out wfn [] g, s)"
    using Suc.prems by (auto simp: gfc_step_def gfc_next_def gfc_end_def write_out_def size_of_int_def)
  then show ?case using Suc by (simp add: write_out_def)
qed simp

text \<open>The first turn, on a packet that starts with a complete header.\<close>

definition after_header :: "'w cb \<Rightarrow> size_t \<Rightarrow> char list \<Rightarrow> 'w gfcrequest \<Rightarrow> 'w gfcrequest" where
  "after_header wfn len b g =
    (write_out wfn b g)\<lparr>rq_status := GF_OK, file_length := len, bytes_received := of_nat (length b)\<rparr>"

lemma gfc_step_header:
  assumes "rx s = RxData (resp_header len @ b) # es" "length (resp_header len @ b) \<le> 512"
    and "write_func g = Some wfn" "bytes_received g = 0"
  shows "gfc_step (False, None, g, s) =
    Inr (len = of_nat (length b), True, Some len, after_header wfn len b g, s\<lparr>rx := es\<rparr>)"
proof -
  let ?d = "resp_header len @ b"
  have ne: "?d \<noteq> []" by (simp add: resp_header_def)
  then have "recv 512 s = (int (length ?d), ?d, s\<lparr>rx := es\<rparr>)" by (rule recv_first [OF assms(1) _ assms(2)])
  moreover have "int (length ?d) \<noteq> 0" using ne by (simp only: of_nat_eq_0_iff length_0_conv not_False_eq_True)
  moreover have "size_of_int (int (length ?d)) - of_nat (length (resp_header len)) = of_nat (length b)"
    by (simp add: size_of_int_def)
  ultimately show ?thesis
    using assms(3,4) parse_content [OF assms(2)]
    by (auto simp: gfc_step_def gfc_first_def gfc_end_def write_out_def after_header_def Let_def)
qed

text \<open>A request that can be sent, to a server that can be reached.\<close>

definition gfc_ready :: "int \<Rightarrow> (bool \<times> int) list \<Rightarrow> 'w gfcrequest \<Rightarrow> sock \<Rightarrow> bool" where
  "gfc_ready sk addrs g s \<longleftrightarrow>
    0 \<le> sk \<and> (\<exists>x rest. addrs = (True, x) # rest) \<and> txplan s = [] \<and> bytes_received g = 0 \<and>
    (\<exists>p. rq_path g = Some p \<and> length (request_text p) < 256)"

lemma send_request_all: "txplan s = [] \<Longrightarrow> req \<noteq> [] \<Longrightarrow> send_request req 0 s = (None, s\<lparr>tx := tx s @ req\<rparr>)"
  by (simp add: send_request.simps [of req 0] send_request.simps [of req "length req"] send_def)

lemma gfc_perform_ready:
  assumes "gfc_ready sk addrs g s"
  shows "gfc_perform n sk 0 addrs g s =
    (case gfc_loop n (False, None, g\<lparr>socket_fd := sk\<rparr>, s\<lparr>tx := tx s @ request_text (the (rq_path g))\<rparr>) of None \<Rightarrow> None
     | Some (Inl e) \<Rightarrow> Some (Inl e)
     | Some (Inr (g', s')) \<Rightarrow>
         Some (Inr (get_return_code (rq_status g') (bytes_received g') (file_length g'), g', s')))"
proof -
  obtain p where p: "rq_path g = Some p" "length (request_text p) < 256" "request_text p \<noteq> []"
    using assms by (auto simp: gfc_ready_def request_text_def)
  have "gfc_connect sk addrs = Inr sk" "0 \<le> sk" "txplan s = []" using assms by (auto simp: gfc_ready_def)
  then show ?thesis
    using p send_request_all [of s "request_text p"] by (simp add: gfc_perform_def build_request_def)
qed

subsection \<open>Properties\<close>

lemma return_code_ok: "k \<le> unat len \<Longrightarrow> get_return_code GF_OK (of_nat k) len = (if k = unat len then 0 else -1)"
  using word_of_nat_eq_iff [of k len] by (auto simp: get_return_code_def)

definition example_request :: "char list gfcrequest" where
  "example_request = gfc_set_writefunc (Some (\<lambda>d a. map_option (\<lambda>x. x @ d) a))
    (gfc_set_writearg (Some []) (gfc_set_path (Some ''/a'') gfc_create))"

definition example_stream :: "rxev list \<Rightarrow> sock" where
  "example_stream es = \<lparr>rx = es, tx = [], txplan = []\<rparr>"

lemmas example_request_defs = example_request_def gfc_set_writefunc_def gfc_set_writearg_def gfc_set_path_def
  gfc_create_def gfc_ready_def request_text_def example_stream_def

lemma dec_digit: "n < 10 \<Longrightarrow> dec n = [digit_char n]"
  by (simp add: dec.simps)

lemma gfc_perform_data:
  assumes "gfc_ready sk addrs g s" "write_func g = Some wfn"
    and "rx s = RxData (resp_header len @ b) # es" "length (resp_header len @ b) \<le> 512" "rx_clean es"
    and "length (b @ rx_bytes es) \<le> unat len" "rx_size es + 1 < n"
  shows "\<exists>g' s' cs. gfc_perform n sk 0 addrs g s =
      Some (Inr (if length (b @ rx_bytes es) = unat len then 0 else -1, g', s')) \<and>
    concat cs = b @ rx_bytes es \<and> write_args g' = foldl (\<lambda>a d. wfn d a) (write_args g) cs \<and>
    gfc_get_bytesreceived g' = of_nat (length (b @ rx_bytes es)) \<and> gfc_get_status g' = GF_OK \<and>
    gfc_get_filelen g' = len"
proof -
  obtain m where n: "n = Suc m" "rx_size es < m" using assms(7) by (cases n) auto
  define g0 where "g0 = g\<lparr>socket_fd := sk\<rparr>"
  define s0 where "s0 = s\<lparr>tx := tx s @ request_text (the (rq_path g))\<rparr>"
  define g1 where "g1 = after_header wfn len b g0"
  have g0: "write_func g0 = Some wfn" "bytes_received g0 = 0" "write_args g0 = write_args g"
    using assms(1,2) by (simp_all add: g0_def gfc_ready_def)
  have g1: "write_func g1 = Some wfn" "bytes_received g1 = of_nat (length b)" "rq_status g1 = GF_OK"
    "write_args g1 = wfn b (write_args g)" "file_length g1 = len"
    using g0 by (simp_all add: g1_def after_header_def write_out_def)
  have "rx s0 = RxData (resp_header len @ b) # es" using assms(3) by (simp add: s0_def)
  note step = gfc_step_header [OF this assms(4) g0(1,2), folded g1_def]
  have bl: "length b \<le> unat len" using assms(6) by simp
  have "\<exists>g' s' cs. gfc_loop n (False, None, g0, s0) = Some (Inr (g', s')) \<and>
      concat cs = b @ rx_bytes es \<and> write_args g' = foldl (\<lambda>a d. wfn d a) (write_args g) cs \<and>
      bytes_received g' = of_nat (length (b @ rx_bytes es)) \<and> rq_status g' = GF_OK \<and> file_length g' = len"
  proof (cases "len = of_nat (length b)")
    case True
    then have "rx_bytes es = []" using word_of_nat_eq_iff [OF bl] assms(6) by auto
    then show ?thesis using step True n(1) g1 by (auto intro!: exI [of _ "[b]"])
  next
    case False
    then have "length b < unat len" using word_of_nat_eq_iff [OF bl] bl by auto
    then obtain g' s' cs where "gfc_loop m (True, Some len, g1, s0\<lparr>rx := es\<rparr>) = Some (Inr (g', s'))"
      "concat cs = rx_bytes es" "write_args g' = foldl (\<lambda>a d. wfn d a) (write_args g1) cs"
      "bytes_received g' = of_nat (length b + length (rx_bytes es))" "rq_status g' = GF_OK"
      "file_length g' = file_length g1"
      using gfc_loop_rest [of "s0\<lparr>rx := es\<rparr>" g1 wfn "length b" len m] g1(1-3) assms(5,6) n(2) by auto
    then show ?thesis using step False n(1) g1 by (auto intro!: exI [of _ "b # cs"])
  qed
  then show ?thesis
    using gfc_perform_ready [OF assms(1), of n] return_code_ok [OF assms(6)]
    by (auto simp: g0_def s0_def gfc_get_bytesreceived_def gfc_get_status_def gfc_get_filelen_def simp del: length_append)
qed

text \<open>C12. A transfer.  The header arrives whole in the first packet, with any beginning \<open>b\<close> of the content, and
  the rest in packets of any sizes, not more than announced.  Then \<open>gfc_perform\<close> returns; the write
  callback was called on pieces that together are exactly the content that arrived; \<open>bytes_received\<close> is
  its length, the status is OK, and the result is 0 if all of it arrived and -1 if the server closed
  the connection before.\<close>

theorem gfc_perform_transfer:
  assumes "gfc_ready sk addrs g s" "write_func g = Some wfn"
    and "rx s = RxData (resp_header len @ b) # es" "length (resp_header len @ b) \<le> 512" "rx_clean es"
    and "length (b @ rx_bytes es) \<le> unat len" "rx_size es + 1 < n"
  shows "\<exists>g' s' cs. gfc_perform n sk 0 addrs g s =
      Some (Inr (if length (b @ rx_bytes es) = unat len then 0 else -1, g', s')) \<and>
    concat cs = b @ rx_bytes es \<and> write_args g' = foldl (\<lambda>a d. wfn d a) (write_args g) cs \<and>
    gfc_get_bytesreceived g' = of_nat (length (b @ rx_bytes es)) \<and> gfc_get_status g' = GF_OK \<and>
    gfc_get_filelen g' = len"
  by (rule gfc_perform_data [OF assms])

theorem gfc_perform_transfer_witness:
  "\<exists>g' s' cs. gfc_perform 9 5 0 [(True, 0)] example_request
        (example_stream [RxData (resp_header 4 @ ''ab''), RxData ''c'', RxData ''d'']) =
      Some (Inr (if length (''ab'' @ rx_bytes [RxData ''c'', RxData ''d'']) = unat (4 :: size_t) then 0 else -1, g', s')) \<and>
    concat cs = ''ab'' @ rx_bytes [RxData ''c'', RxData ''d''] \<and>
    write_args g' = foldl (\<lambda>a d. map_option (\<lambda>x. x @ d) a) (write_args example_request) cs \<and>
    gfc_get_bytesreceived g' = of_nat (length (''ab'' @ rx_bytes [RxData ''c'', RxData ''d''])) \<and>
    gfc_get_status g' = GF_OK \<and> gfc_get_filelen g' = 4"
  by (rule gfc_perform_transfer)
    (simp_all add: example_request_defs resp_header_def dec_digit rx_clean_def)

text \<open>A server that sends more content than it announced hangs the client: if the first packet holds the
  header and more than the announced number of bytes and the server then closes the connection,
  \<open>gfc_perform\<close> never returns.\<close>

theorem gfc_perform_overrun_hangs:
  assumes "gfc_ready sk addrs g s" "write_func g = Some wfn"
    and "rx s = [RxData (resp_header len @ b)]" "length (resp_header len @ b) \<le> 512" "unat len < length b"
  shows "gfc_perform n sk 0 addrs g s = None"
proof (cases n)
  case 0
  then show ?thesis using gfc_perform_ready [OF assms(1), of n] by simp
next
  case (Suc m)
  define g0 where "g0 = g\<lparr>socket_fd := sk\<rparr>"
  define s0 where "s0 = s\<lparr>tx := tx s @ request_text (the (rq_path g))\<rparr>"
  have g0: "write_func g0 = Some wfn" "bytes_received g0 = 0"
    using assms(1,2) by (simp_all add: g0_def gfc_ready_def)
  have rx0: "rx s0 = [RxData (resp_header len @ b)]" using assms(3) by (simp add: s0_def)
  have "length b \<le> 512" using assms(4) by simp
  then have "unat (of_nat (length b) :: size_t) = length b"
    by (simp add: unat_of_nat take_bit_nat_eq_self_iff)
  then have lt: "len < of_nat (length b)" using assms(5) by (simp add: word_less_nat_alt)
  have "gfc_loop m (True, Some len, after_header wfn len b g0, s0\<lparr>rx := []\<rparr>) = None"
    using lt g0 by (intro gfc_loop_overrun [where wfn = wfn]) (simp_all add: after_header_def write_out_def)
  then show ?thesis
    using gfc_step_header [OF rx0 assms(4) g0] lt Suc gfc_perform_ready [OF assms(1), of n]
    by (simp add: g0_def s0_def)
qed

theorem gfc_perform_overrun_hangs_witness:
  "gfc_perform 99 5 0 [(True, 0)] example_request (example_stream [RxData (resp_header 1 @ ''ab'')]) = None"
  by (rule gfc_perform_overrun_hangs [where len = 1 and b = "''ab''"]) (simp_all add: example_request_defs resp_header_def dec_digit)

text \<open>A header that the network cuts in two is taken for a malformed response: the request ends with status
  INVALID and result -1, and nothing is handed to the callback, whatever comes after.\<close>

theorem gfc_perform_split_header:
  assumes "gfc_ready sk addrs g s" "0 < k" "k < length (resp_header len)"
    and "rx s = RxData (take k (resp_header len)) # es" "0 < n"
  shows "\<exists>g' s'. gfc_perform n sk 0 addrs g s = Some (Inr (-1, g', s')) \<and>
    gfc_get_status g' = GF_INVALID \<and> write_args g' = write_args g \<and> gfc_get_bytesreceived g' = 0"
proof -
  let ?d = "take k (resp_header len)"
  obtain m where n: "n = Suc m" using assms(5) by (cases n) auto
  have l: "length (resp_header len) \<le> 40"
  proof -
    have "unat len < 10 ^ 20" using unsigned_less [of len] by (rule order.strict_trans2) simp
    then have "length (dec (unat len)) \<le> 20" by (rule length_dec_bound) simp
    then show ?thesis by (simp add: resp_header_def)
  qed
  have dl: "0 < length ?d" "length ?d < 512" using assms(2,3) l by auto
  then have "?d \<noteq> []" by auto
  then have "recv 512 (s\<lparr>tx := t\<rparr>) = (int (length ?d), ?d, s\<lparr>tx := t, rx := es\<rparr>)" for t
    using recv_first [of "s\<lparr>tx := t\<rparr>" ?d es 512] assms(4) dl(2) by simp
  moreover have "int (length ?d) \<noteq> 0" using dl(1) by linarith
  ultimately have "gfc_step (False, None, g\<lparr>socket_fd := sk\<rparr>, s\<lparr>tx := t\<rparr>) =
      Inr (True, False, None, g\<lparr>socket_fd := sk, rq_status := GF_INVALID\<rparr>, s\<lparr>tx := t, rx := es\<rparr>)" for t
    using parse_cut_header [OF refl assms(3) dl(2)] by (simp add: gfc_step_def gfc_first_def del: length_take)
  then show ?thesis
    using gfc_perform_ready [OF assms(1), of n] n assms(1)
    by (simp add: gfc_get_status_def gfc_get_bytesreceived_def get_return_code_def gfc_ready_def)
qed

theorem gfc_perform_split_header_witness:
  "\<exists>g' s'. gfc_perform 1 5 0 [(True, 0)] example_request
        (example_stream [RxData (take 13 (resp_header 4)), RxData ''xy'']) = Some (Inr (-1, g', s')) \<and>
    gfc_get_status g' = GF_INVALID \<and> write_args g' = write_args example_request \<and> gfc_get_bytesreceived g' = 0"
  by (rule gfc_perform_split_header [where k = 13 and len = 4 and es = "[RxData ''xy'']"]) (simp_all add: example_request_defs resp_header_def dec_digit)

text \<open>A response whose header has one word after GETFILE, which is how a server reports a missing file or
  an error: FILE_NOT_FOUND and INVALID give that status and the results 0 and -1, every other word
  (also an OK without a length) gives status ERROR and result 0; nothing reaches the callback.\<close>

theorem gfc_perform_no_length:
  assumes "gfc_ready sk addrs g s" "rx s = RxData (''GETFILE '' @ w @ CRLF2 @ b) # es" "0 < n"
    and "length (''GETFILE '' @ w @ CRLF2 @ b) \<le> 512"
    and "length w < 16" "w \<noteq> []" "\<forall>c\<in>set w. \<not> isspace c \<and> c \<noteq> NUL"
  shows "\<exists>g' s'. gfc_perform n sk 0 addrs g s = Some (Inr (if w = ''INVALID'' then -1 else 0, g', s')) \<and>
    gfc_get_status g' = (if w = ''FILE_NOT_FOUND'' then GF_FILE_NOT_FOUND else if w = ''INVALID'' then GF_INVALID else GF_ERROR) \<and>
    write_args g' = write_args g"
proof -
  let ?d = "''GETFILE '' @ w @ CRLF2 @ b"
  define st where "st = (if w = ''FILE_NOT_FOUND'' then GF_FILE_NOT_FOUND else if w = ''INVALID'' then GF_INVALID else GF_ERROR)"
  obtain m where n: "n = Suc m" using assms(3) by (cases n) auto
  have "recv 512 (s\<lparr>tx := t\<rparr>) = (int (length ?d), ?d, s\<lparr>tx := t, rx := es\<rparr>)" for t
    using assms(2,4) by (simp add: recv_def)
  moreover have "parse_response (fill_buf 512 ?d) = Inr (Stop st)"
    using parse_word [OF assms(4-7)] by (simp add: header_of_def st_def)
  ultimately have "gfc_step (False, None, g\<lparr>socket_fd := sk\<rparr>, s\<lparr>tx := t\<rparr>) =
      Inr (True, False, None, g\<lparr>socket_fd := sk, rq_status := st\<rparr>, s\<lparr>tx := t, rx := es\<rparr>)" for t
    by (simp add: gfc_step_def gfc_first_def)
  then show ?thesis
    using gfc_perform_ready [OF assms(1), of n] n
    by (auto simp: gfc_get_status_def get_return_code_def st_def)
qed

theorem gfc_perform_no_length_witness:
  "\<exists>g' s'. gfc_perform 1 5 0 [(True, 0)] example_request
        (example_stream [RxData (''GETFILE '' @ ''OK'' @ CRLF2 @ ''data'')]) =
      Some (Inr (if ''OK'' = ''INVALID'' then -1 else 0, g', s')) \<and>
    gfc_get_status g' = (if ''OK'' = ''FILE_NOT_FOUND'' then GF_FILE_NOT_FOUND else if ''OK'' = ''INVALID'' then GF_INVALID else GF_ERROR) \<and>
    write_args g' = write_args example_request"
  by (rule gfc_perform_no_length [where w = "''OK''" and b = "''data''" and es = "[]"]) (simp_all add: example_request_defs isspace_def)

text \<open>The send loop does not advance in the request: when the first call of \<open>send\<close> takes only a part of
  it, what the server gets is that part followed by the request again.\<close>

theorem send_request_resends:
  assumes "txplan s = [int k]" "0 < k" "k < length req"
  shows "\<exists>s'. send_request req 0 s = (None, s') \<and> tx s' = tx s @ take k req @ req"
  using assms by (simp add: send_request.simps [of req 0] send_request.simps [of req k] send_request.simps [of req "k + length req"]
      send_def)

theorem send_request_resends_witness:
  "\<exists>s'. send_request (request_text ''/a'') 0 \<lparr>rx = [], tx = [], txplan = [int 5]\<rparr> = (None, s') \<and>
    tx s' = tx \<lparr>rx = [], tx = [], txplan = [int 5]\<rparr> @ take 5 (request_text ''/a'') @ request_text ''/a''"
  by (rule send_request_resends) (simp_all add: request_text_def)

end
