(* ===== verification/Workload.thy ===== *)
theory Workload
  imports CStr
begin

section \<open>The list of paths the clients request (workload.c, workload.h)\<close>

text \<open>
  \<open>workload_init\<close> reads the words of a file into an array of 100 pointers; \<open>workload_get_path\<close> hands
  them out in turn, by an atomic counter, or at random.  The copy in pr1/gflib also has
  \<open>workload_destroy\<close>.  The contents of the file and the values of \<open>rand\<close> are arguments.
\<close>

definition WORKLOAD_SEQ :: int where "WORKLOAD_SEQ = 0"
definition WORKLOAD_RND :: int where "WORKLOAD_RND = 1"

text \<open>The static variables of the file: the array of pointers, their number, the counter, the mode.\<close>

record workload =
  wl_paths :: "string option list"
  wl_unique :: ushort
  wl_counter :: "32 word"
  wl_mode :: int

definition wl_static :: workload where
  "wl_static = \<lparr>wl_paths = replicate 100 None, wl_unique = 0, wl_counter = 0, wl_mode = WORKLOAD_SEQ\<rparr>"

lemma dropWhile_word_shorter:
  "dropWhile isspace inp \<noteq> [] \<Longrightarrow>
   length (dropWhile (\<lambda>c. \<not> isspace c) (dropWhile isspace inp)) < length inp"
proof -
  assume "dropWhile isspace inp \<noteq> []"
  then obtain c cs where c: "dropWhile isspace inp = c # cs" "\<not> isspace c"
    by (metis hd_dropWhile list.exhaust_sel)
  moreover have "length (c # cs) \<le> length inp" using c(1) length_dropWhile_le [of isspace inp] by simp
  moreover have "length (dropWhile (\<lambda>c. \<not> isspace c) cs) \<le> length cs" by (rule length_dropWhile_le)
  ultimately show ?thesis by simp
qed

text \<open>The loop \<open>while (fscanf(f, "%s", temp_buf) != EOF) a[i++] = strdup(temp_buf)\<close>.\<close>

function wl_load :: "nat \<Rightarrow> string option list \<Rightarrow> char list \<Rightarrow> (nat \<times> string option list) res" where
  "wl_load i a inp =
    (let t = dropWhile isspace inp in
     if t = [] then Inr (i, a)
     else let w = takeWhile (\<lambda>c. \<not> isspace c) t in
       if 256 \<le> length w then Inl (Ub Out_Of_Bounds)
       else if length a \<le> i then Inl (Ub Out_Of_Bounds)
       else wl_load (Suc i) (a[i := Some (takeWhile (\<lambda>c. c \<noteq> NUL) w)]) (dropWhile (\<lambda>c. \<not> isspace c) t))"
  by pat_completeness auto

termination
  by (relation "measure (\<lambda>(i, a, inp). length inp)") (auto simp: dropWhile_word_shorter)

declare wl_load.simps [simp del]

text \<open>\<open>None\<close> is a file that does not open.\<close>

definition workload_init :: "string option \<Rightarrow> workload \<Rightarrow> (int \<times> workload) res" where
  "workload_init file w =
    (case file of None \<Rightarrow> Inr (EXIT_FAILURE, w)
     | Some inp \<Rightarrow>
       bindr (wl_load 0 (wl_paths w) inp) (\<lambda>(i, a).
         Inr (EXIT_SUCCESS, w\<lparr>wl_paths := a, wl_unique := of_nat i\<rparr>)))"

definition workload_num_unique_paths :: "workload \<Rightarrow> ushort" where
  "workload_num_unique_paths w = wl_unique w"

definition wl_at :: "workload \<Rightarrow> int \<Rightarrow> string option res" where
  "wl_at w i =
    (if i < 0 \<or> int (length (wl_paths w)) \<le> i then Inl (Ub Out_Of_Bounds) else Inr (wl_paths w ! nat i))"

text \<open>
  \<open>r\<close> is the value of \<open>rand()\<close>, at most \<open>RAND_MAX = 2 ^ 31 - 1\<close>.  The double product and quotient are
  exact (the product has less than 53 bits and the divisor is a power of two).
\<close>

definition workload_get_path :: "nat \<Rightarrow> workload \<Rightarrow> (string option \<times> workload) res" where
  "workload_get_path r w =
    (if wl_mode w = WORKLOAD_RND then
       bindr (wl_at w (int (unat (wl_unique w) * r div 2 ^ 31))) (\<lambda>p. Inr (p, w))
     else
       let entry = sint (wl_counter w); w' = w\<lparr>wl_counter := wl_counter w + 1\<rparr>
       in bindr (int_rem entry (int (unat (wl_unique w)))) (\<lambda>i.
          bindr (wl_at w' i) (\<lambda>p. Inr (p, w'))))"

text \<open>The loop of \<open>workload_destroy\<close> sets the first \<open>gUniqueWorkloadPaths\<close> pointers to null.\<close>

definition workload_destroy :: "workload \<Rightarrow> workload res" where
  "workload_destroy w =
    (if length (wl_paths w) < unat (wl_unique w) then Inl (Ub Out_Of_Bounds)
     else Inr (w\<lparr>wl_paths := replicate (unat (wl_unique w)) None @ drop (unat (wl_unique w)) (wl_paths w),
       wl_unique := 0\<rparr>))"

subsection \<open>Lemmas\<close>

definition word_ok :: "string \<Rightarrow> bool" where
  "word_ok p \<longleftrightarrow> p \<noteq> [] \<and> length p < 256 \<and> NUL \<notin> set p \<and> list_all (\<lambda>c. \<not> isspace c) p"

fun wl_text :: "string list \<Rightarrow> char list" where
  "wl_text [] = []"
| "wl_text (p # ps) = p @ LF # wl_text ps"

lemma isspace_LF [simp]: "isspace LF"
  by (simp add: isspace_def)

lemma wl_load_word:
  assumes "word_ok p" "i < length a" "256 > length p"
  shows "wl_load i a (p @ LF # r) = wl_load (Suc i) (a[i := Some p]) r"
proof -
  have np: "\<And>c. c \<in> set p \<Longrightarrow> \<not> isspace c" "p \<noteq> []" using assms(1) by (auto simp: word_ok_def list_all_iff)
  then have h: "dropWhile isspace (p @ LF # r) = p @ LF # r" by (cases p) auto
  have t: "takeWhile (\<lambda>c. \<not> isspace c) (p @ LF # r) = p" "dropWhile (\<lambda>c. \<not> isspace c) (p @ LF # r) = LF # r"
    using np by (simp_all add: takeWhile_append2 dropWhile_append2)
  have n: "takeWhile (\<lambda>c. c \<noteq> NUL) p = p"
    using assms(1) by (subst takeWhile_eq_all_conv) (auto simp: word_ok_def)
  have "wl_load i a (p @ LF # r) = wl_load (Suc i) (a[i := Some p]) (LF # r)"
    using assms(2,3) np(2) by (subst wl_load.simps) (simp add: h t n Let_def)
  also have "\<dots> = wl_load (Suc i) (a[i := Some p]) r"
    by (subst (1 2) wl_load.simps) simp
  finally show ?thesis .
qed

lemma wl_load_text:
  "list_all word_ok ps \<Longrightarrow> i + length ps \<le> length a \<Longrightarrow>
   \<exists>a'. wl_load i a (wl_text ps) = Inr (i + length ps, a') \<and> length a' = length a \<and>
     take (i + length ps) a' = take i a @ map Some ps"
proof (induction ps arbitrary: i a)
  case Nil
  then show ?case by (simp add: wl_load.simps)
next
  case (Cons p ps)
  have "\<exists>a'. wl_load (Suc i) (a[i := Some p]) (wl_text ps) = Inr (Suc i + length ps, a') \<and>
      length a' = length (a[i := Some p]) \<and>
      take (Suc i + length ps) a' = take (Suc i) (a[i := Some p]) @ map Some ps"
    using Cons.prems by (intro Cons.IH) auto
  then show ?case
    using Cons.prems wl_load_word [of p i a "wl_text ps"]
    by (auto simp: word_ok_def take_Suc_conv_app_nth)
qed

lemma workload_init_ok:
  assumes "list_all word_ok ps" "length ps \<le> 100" "length (wl_paths w) = 100"
  shows "\<exists>a. workload_init (Some (wl_text ps)) w =
      Inr (EXIT_SUCCESS, w\<lparr>wl_paths := a, wl_unique := of_nat (length ps)\<rparr>) \<and>
    length a = 100 \<and> take (length ps) a = map Some ps"
  using wl_load_text [of ps 0 "wl_paths w"] assms by (auto simp: workload_init_def)

lemma unat_length_16: "length ps \<le> 100 \<Longrightarrow> unat (of_nat (length ps) :: ushort) = length ps"
  by (simp add: unat_of_nat take_bit_nat_eq_self_iff)

lemma sint_32: "k < 2 ^ 31 \<Longrightarrow> sint (of_nat k :: 32 word) = int k"
  by (simp add: signed_of_nat signed_take_bit_int_eq_self)

lemma nth_of_take: "take n a = map Some ps \<Longrightarrow> n = length ps \<Longrightarrow> i < n \<Longrightarrow> a ! i = Some (ps ! i)"
  by (metis nth_map nth_take)

lemma workload_get_path_seq:
  assumes "wl_mode w = WORKLOAD_SEQ" "wl_counter w = of_nat k" "k < 2 ^ 31" "ps \<noteq> []" "length ps \<le> 100"
    and "wl_unique w = of_nat (length ps)" "length (wl_paths w) = 100"
    and "take (length ps) (wl_paths w) = map Some ps"
  shows "workload_get_path r w = Inr (Some (ps ! (k mod length ps)), w\<lparr>wl_counter := of_nat (Suc k)\<rparr>)"
proof -
  have m: "k mod length ps < length ps" using assms(4) by simp
  then have "wl_paths w ! (k mod length ps) = Some (ps ! (k mod length ps))"
    using nth_of_take [OF assms(8)] by simp
  moreover have "int_rem (int k) (int (length ps)) = Inr (int (k mod length ps))"
    using assms(4) by (intro int_rem_nat) simp
  moreover have "\<not> (100 \<le> int (k mod length ps))" using m assms(5) by linarith
  ultimately show ?thesis
    using assms unat_length_16 [of ps] sint_32 [of k]
    by (simp add: workload_get_path_def wl_at_def WORKLOAD_SEQ_def WORKLOAD_RND_def Let_def add.commute)
qed

text \<open>\<open>k\<close> calls in a row.\<close>

fun wl_calls :: "nat \<Rightarrow> workload \<Rightarrow> (string option list \<times> workload) res" where
  "wl_calls 0 w = Inr ([], w)"
| "wl_calls (Suc k) w =
    bindr (wl_calls k w) (\<lambda>(ps, w'). bindr (workload_get_path 0 w') (\<lambda>(p, w''). Inr (ps @ [p], w'')))"

lemma wl_calls_seq:
  assumes "wl_mode w = WORKLOAD_SEQ" "wl_counter w = 0" "ps \<noteq> []" "length ps \<le> 100"
    and "wl_unique w = of_nat (length ps)" "length (wl_paths w) = 100"
    and "take (length ps) (wl_paths w) = map Some ps"
  shows "k \<le> 2 ^ 31 \<Longrightarrow>
    wl_calls k w = Inr (map (\<lambda>i. Some (ps ! (i mod length ps))) [0..<k], w\<lparr>wl_counter := of_nat k\<rparr>)"
proof (induction k)
  case 0
  then show ?case using assms(2) by simp
next
  case (Suc k)
  then have "wl_calls k w = Inr (map (\<lambda>i. Some (ps ! (i mod length ps))) [0..<k], w\<lparr>wl_counter := of_nat k\<rparr>)" by simp
  moreover have "workload_get_path 0 (w\<lparr>wl_counter := of_nat k\<rparr>) =
      Inr (Some (ps ! (k mod length ps)), w\<lparr>wl_counter := of_nat (Suc k)\<rparr>)"
    using workload_get_path_seq [of "w\<lparr>wl_counter := of_nat k\<rparr>" k ps 0] assms Suc.prems by simp
  ultimately show ?case by (simp del: of_nat_Suc)
qed

subsection \<open>Properties\<close>

text \<open>Sequential mode is round robin: after the initialisation from a file of 1 to 100 words, the first
  \<open>k\<close> calls return the words in the order of the file, over and over, for every \<open>k\<close> up to \<open>2 ^ 31\<close>.\<close>

theorem workload_round_robin:
  assumes "list_all word_ok ps" "ps \<noteq> []" "length ps \<le> 100" "k \<le> 2 ^ 31"
  shows "\<exists>w w'. workload_init (Some (wl_text ps)) wl_static = Inr (EXIT_SUCCESS, w) \<and>
    workload_num_unique_paths w = of_nat (length ps) \<and>
    wl_calls k w = Inr (map (\<lambda>i. Some (ps ! (i mod length ps))) [0..<k], w')"
proof -
  obtain a where a: "workload_init (Some (wl_text ps)) wl_static =
      Inr (EXIT_SUCCESS, wl_static\<lparr>wl_paths := a, wl_unique := of_nat (length ps)\<rparr>)"
    "length a = 100" "take (length ps) a = map Some ps"
    using workload_init_ok [OF assms(1,3), of wl_static] by (auto simp: wl_static_def)
  then show ?thesis
    using wl_calls_seq [OF _ _ assms(2,3) _ _ _ assms(4),
        of "wl_static\<lparr>wl_paths := a, wl_unique := of_nat (length ps)\<rparr>"]
    by (simp add: wl_static_def workload_num_unique_paths_def)
qed

theorem workload_round_robin_witness:
  "\<exists>w w'. workload_init (Some (wl_text [''/a'', ''/b''])) wl_static = Inr (EXIT_SUCCESS, w) \<and>
    workload_num_unique_paths w = of_nat (length [''/a'', ''/b'']) \<and>
    wl_calls 5 w = Inr (map (\<lambda>i. Some ([''/a'', ''/b''] ! (i mod length [''/a'', ''/b'']))) [0..<5], w')"
  by (rule workload_round_robin) (simp_all add: word_ok_def isspace_def)

text \<open>The counter is an \<open>int\<close>: after \<open>2 ^ 31\<close> calls it is negative, and from then on a call whose
  counter is not a multiple of the number of paths indexes the array with a negative remainder.\<close>

theorem workload_counter_wraps:
  assumes "wl_mode w = WORKLOAD_SEQ" "wl_unique w \<noteq> 0" "sint (wl_counter w) < 0"
    and "\<not> int (unat (wl_unique w)) dvd sint (wl_counter w)"
  shows "workload_get_path r w = Inl (Ub Out_Of_Bounds)"
proof -
  let ?n = "int (unat (wl_unique w))" and ?e = "sint (wl_counter w)"
  have n: "0 < ?n" using assms(2) by (metis of_nat_0_less_iff unat_gt_0)
  have "abs ?e mod ?n \<noteq> 0" using assms(4) by (simp add: mod_eq_0_iff_dvd)
  then have "0 < abs ?e mod ?n" using n by (simp add: order_less_le)
  then show ?thesis
    using assms n
    by (simp add: workload_get_path_def int_rem_def wl_at_def WORKLOAD_SEQ_def WORKLOAD_RND_def Let_def sgn_if)
qed

theorem workload_counter_wraps_witness:
  "workload_get_path 0 (wl_static\<lparr>wl_unique := 3, wl_counter := - 1\<rparr>) = Inl (Ub Out_Of_Bounds)"
  by (rule workload_counter_wraps) (simp_all add: wl_static_def)

text \<open>After \<open>workload_destroy\<close> the next sequential call divides by zero.\<close>

lemma workload_use_after_destroy:
  assumes "wl_mode w = WORKLOAD_SEQ" "workload_destroy w = Inr w'"
  shows "workload_get_path r w' = Inl (Ub Div_By_Zero)"
  using assms
  by (auto simp: workload_destroy_def workload_get_path_def int_rem_def WORKLOAD_SEQ_def WORKLOAD_RND_def Let_def
      split: if_splits)

end
