(* ===== verification/GFDownload.thy ===== *)
theory GFDownload
  imports GFClient Workload Options
begin

section \<open>The download clients (gfclient_download.c of pr1/gflib and pr1/mtgf)\<close>

text \<open>
  Both programs download the paths of the workload into local files.  Here are the parts that run in
  one thread: the names of the local files, \<open>openFile\<close>, one request, and the whole program of
  pr1/gflib.  The thread pool of pr1/mtgf is in the theory \<open>MTClient\<close>.

  \<open>fs\<close> maps the names of regular files to their bytes.  What \<open>mkdir\<close> answers (0 or an errno) and whether
  \<open>fopen\<close> succeeds are arguments; \<open>fwrite\<close> on the open file appends.
\<close>

type_synonym fsys = "string \<rightharpoonup> char list"

definition EEXIST :: int where "EEXIST = 17"

subsection \<open>Local files\<close>

text \<open>\<open>&req_path[1]\<close> of an empty string is behind its end.\<close>

definition skip_first :: "string \<Rightarrow> string res" where
  "skip_first p = (case p of [] \<Rightarrow> Inl (Ub Out_Of_Bounds) | c # cs \<Rightarrow> Inr cs)"

text \<open>\<open>snprintf\<close> into 256 bytes cuts the name (pr1/gflib), \<open>sprintf\<close> into 512 bytes does not (pr1/mtgf).\<close>

definition localPath :: "string \<Rightarrow> nat \<Rightarrow> string res" where
  "localPath req counter = bindr (skip_first req) (\<lambda>p. Inr (take 255 (p @ ''_'' @ pad0 6 (dec counter))))"

definition localPath_mt :: "string \<Rightarrow> nat \<Rightarrow> string res" where
  "localPath_mt req counter =
    bindr (skip_first req) (\<lambda>p.
      let t = p @ ''-'' @ pad0 6 (dec counter)
      in if 512 \<le> length t then Inl (Ub Out_Of_Bounds) else Inr t)"

text \<open>\<open>openFile\<close>: \<open>mkdir\<close> for every prefix that ends before a slash, except one at the very start.\<close>

fun make_dirs :: "(string \<Rightarrow> int) \<Rightarrow> string \<Rightarrow> string \<Rightarrow> unit res" where
  "make_dirs mk pre [] = Inr ()"
| "make_dirs mk pre (c # cs) =
    (if c = CHR ''/'' \<and> mk pre \<noteq> 0 \<and> mk pre \<noteq> EEXIST then Inl (Exit EXIT_FAILURE)
     else make_dirs mk (pre @ [c]) cs)"

definition openFile :: "(string \<Rightarrow> int) \<Rightarrow> (string \<Rightarrow> bool) \<Rightarrow> string \<Rightarrow> fsys \<Rightarrow> fsys res" where
  "openFile mk fop path fs =
    (case path of [] \<Rightarrow> Inl (Ub Out_Of_Bounds)
     | c # cs \<Rightarrow> bindr (make_dirs mk [c] cs) (\<lambda>_.
         if fop path then Inr (fs(path \<mapsto> [])) else Inl (Exit EXIT_FAILURE)))"

definition writecb :: "char list cb" where
  "writecb d file = map_option (\<lambda>bs. bs @ d) file"

subsection \<open>One request\<close>

text \<open>What a request meets: the answers of the system calls of \<open>gfc_perform\<close> and the connection.\<close>

record peer =
  pr_socket :: int
  pr_gai :: int
  pr_addrs :: "(bool \<times> int) list"
  pr_sock :: sock

text \<open>
  From \<open>gfc_create\<close> to \<open>gfc_cleanup\<close>, into the file \<open>lp\<close> that was opened.  \<open>perform\<close> is \<open>gfc_perform\<close>: the
  one of the theory \<open>GFClient\<close> in pr1/gflib, an argument in pr1/mtgf, which links the library as an
  object file.  \<open>unlink\<close> of a file that does not exist only prints a warning.  The result holds the
  request object before the cleanup.
\<close>

type_synonym perform_fn = "char list gfcrequest \<Rightarrow> (int \<times> char list gfcrequest) res option"

definition fetch :: "perform_fn \<Rightarrow> string \<Rightarrow> ushort \<Rightarrow> string \<Rightarrow> string \<Rightarrow> fsys \<Rightarrow> (fsys \<times> int \<times> char list gfcrequest) res option" where
  "fetch perform server port path lp fs =
    (let g = gfc_set_writearg (fs lp) (gfc_set_writefunc (Some writecb)
               (gfc_set_server (Some server) (gfc_set_path (Some path) (gfc_set_port port gfc_create))))
     in case perform g of
          None \<Rightarrow> None
        | Some (Inl e) \<Rightarrow> Some (Inl e)
        | Some (Inr (returncode, g')) \<Rightarrow>
          let fs1 = fs(lp := write_args g');
              fs2 = (if 0 > returncode then fs1(lp := None) else fs1);
              fs3 = (if gfc_get_status g' \<noteq> GF_OK then fs2(lp := None) else fs2)
          in Some (Inr (fs3, returncode, g')))"

definition gflib_perform :: "nat \<Rightarrow> peer \<Rightarrow> perform_fn" where
  "gflib_perform fuel p g =
    map_option (\<lambda>r. bindr r (\<lambda>(rc, g', s). Inr (rc, g')))
      (gfc_perform fuel (pr_socket p) (pr_gai p) (pr_addrs p) g (pr_sock p))"

text \<open>The body of the loop of pr1/gflib, on the result of \<open>workload_get_path\<close>.\<close>

definition download_one ::
  "nat \<Rightarrow> (string \<Rightarrow> int) \<Rightarrow> (string \<Rightarrow> bool) \<Rightarrow> string \<Rightarrow> ushort \<Rightarrow> string option \<Rightarrow> nat \<Rightarrow> peer \<Rightarrow> fsys \<Rightarrow>
   (fsys \<times> int \<times> char list gfcrequest) res option" where
  "download_one fuel mk fop server port req counter p fs =
    (case req of None \<Rightarrow> Some (Inl (Ub Null_Deref))
     | Some path \<Rightarrow>
       if length path > 256 then Some (Inl (Exit EXIT_FAILURE))
       else case localPath path counter of Inl e \<Rightarrow> Some (Inl e)
       | Inr lp \<Rightarrow> case openFile mk fop lp fs of Inl e \<Rightarrow> Some (Inl e)
       | Inr fs1 \<Rightarrow> fetch (gflib_perform fuel p) server port path lp fs1)"

text \<open>\<open>set_request_main_code\<close> of pr1/mtgf, which a worker thread calls for a path of the queue.\<close>

definition set_request_main_code ::
  "perform_fn \<Rightarrow> (string \<Rightarrow> int) \<Rightarrow> (string \<Rightarrow> bool) \<Rightarrow> string \<Rightarrow> ushort \<Rightarrow> string \<Rightarrow> nat \<Rightarrow> fsys \<Rightarrow>
   (fsys \<times> int \<times> char list gfcrequest) res option" where
  "set_request_main_code perform mk fop server port filepath counter fs =
    (case localPath_mt filepath counter of Inl e \<Rightarrow> Some (Inl e)
     | Inr lp \<Rightarrow> case openFile mk fop lp fs of Inl e \<Rightarrow> Some (Inl e)
     | Inr fs1 \<Rightarrow> fetch perform server port filepath lp fs1)"

subsection \<open>The program of pr1/gflib\<close>

record download_opts =
  dl_workload :: "string option"
  dl_nrequests :: int
  dl_server :: "string option"
  dl_port :: ushort

definition download_default :: download_opts where
  "download_default = \<lparr>dl_workload = Some ''workload.txt'', dl_nrequests = 16, dl_server = Some ''localhost'', dl_port = 10880\<rparr>"

definition download_option :: "download_opts \<Rightarrow> char \<Rightarrow> string option \<Rightarrow> download_opts res" where
  "download_option o1 c arg =
    (if c = CHR ''s'' then Inr (o1\<lparr>dl_server := arg\<rparr>)
     else if c = CHR ''p'' then bindr (atoi_arg arg) (\<lambda>n. Inr (o1\<lparr>dl_port := to_ushort n\<rparr>))
     else if c = CHR ''l'' then Inr (o1\<lparr>dl_workload := arg\<rparr>)
     else if c = CHR ''n'' then bindr (atoi_arg arg) (\<lambda>n. Inr (o1\<lparr>dl_nrequests := n\<rparr>))
     else if c = CHR ''h'' then Inl (Exit 0)
     else Inl (Exit 1))"

definition download_setup :: "opt list \<Rightarrow> download_opts res" where
  "download_setup args =
    bindr (getopt_loop download_option download_default args) (\<lambda>o1.
      if uint (dl_port o1) > 65331 then Inl (Exit EXIT_FAILURE) else Inr o1)"

text \<open>The loop over the requests, each with its peer, while there are peers; \<open>k\<close> requests are left.\<close>

fun download_loop ::
  "nat \<Rightarrow> (string \<Rightarrow> int) \<Rightarrow> (string \<Rightarrow> bool) \<Rightarrow> string \<Rightarrow> ushort \<Rightarrow> nat \<Rightarrow> nat \<Rightarrow> peer list \<Rightarrow> workload \<Rightarrow> fsys \<Rightarrow>
   (workload \<times> fsys) res option" where
  "download_loop fuel mk fop server port counter 0 ps w fs = Some (Inr (w, fs))"
| "download_loop fuel mk fop server port counter (Suc k) [] w fs = None"
| "download_loop fuel mk fop server port counter (Suc k) (p # ps) w fs =
    (case workload_get_path 0 w of Inl e \<Rightarrow> Some (Inl e)
     | Inr (req, w1) \<Rightarrow>
       case download_one fuel mk fop server port req counter p fs of None \<Rightarrow> None
       | Some (Inl e) \<Rightarrow> Some (Inl e)
       | Some (Inr (fs1, rc, g)) \<Rightarrow> download_loop fuel mk fop server port (Suc counter) k ps w1 fs1)"

definition download_main ::
  "nat \<Rightarrow> (string \<Rightarrow> int) \<Rightarrow> (string \<Rightarrow> bool) \<Rightarrow> opt list \<Rightarrow> (string \<Rightarrow> string option) \<Rightarrow> peer list \<Rightarrow> fsys \<Rightarrow> fsys res option" where
  "download_main fuel mk fop args wlfile ps fs =
    (case download_setup args of Inl e \<Rightarrow> Some (Inl e)
     | Inr o1 \<Rightarrow> case workload_init (Option.bind (dl_workload o1) wlfile) wl_static of Inl e \<Rightarrow> Some (Inl e)
       | Inr (rc, w) \<Rightarrow>
         if rc \<noteq> EXIT_SUCCESS then Some (Inl (Exit EXIT_FAILURE))
         else case download_loop fuel mk fop (case dl_server o1 of None \<Rightarrow> [] | Some s \<Rightarrow> s) (dl_port o1) 0
                     (nat (dl_nrequests o1)) ps w fs of
                None \<Rightarrow> None
              | Some (Inl e) \<Rightarrow> Some (Inl e)
              | Some (Inr (w', fs')) \<Rightarrow>
                (case workload_destroy w' of Inl e \<Rightarrow> Some (Inl e) | Inr w'' \<Rightarrow> Some (Inr fs')))"

subsection \<open>Lemmas\<close>

lemma writecb_all: "foldl (\<lambda>a d. writecb d a) (Some bs) cs = Some (bs @ concat cs)"
  by (induction cs arbitrary: bs) (simp_all add: writecb_def)

text \<open>Every directory can be made and the file opened.\<close>

lemma make_dirs_ok: "\<forall>d. mk d = 0 \<or> mk d = EEXIST \<Longrightarrow> make_dirs mk pre cs = Inr ()"
  by (induction cs arbitrary: pre) auto

lemma openFile_ok: "\<forall>d. mk d = 0 \<or> mk d = EEXIST \<Longrightarrow> fop path \<Longrightarrow> path \<noteq> [] \<Longrightarrow>
    openFile mk fop path fs = Inr (fs(path \<mapsto> []))"
  by (cases path) (simp_all add: openFile_def make_dirs_ok)

lemma localPath_some: "path \<noteq> [] \<Longrightarrow>
    \<exists>lp. localPath path c = Inr lp \<and> lp \<noteq> [] \<and> lp = take 255 (tl path @ ''_'' @ pad0 6 (dec c))"
  by (cases path) (auto simp: localPath_def skip_first_def)

lemma length_pad0: "w \<le> length (pad0 w ds)"
  by (simp add: pad0_def)

text \<open>The peer answers with a good header and at most the announced content.\<close>

definition peer_sends :: "peer \<Rightarrow> size_t \<Rightarrow> char list \<Rightarrow> bool" where
  "peer_sends p len body \<longleftrightarrow>
    0 \<le> pr_socket p \<and> pr_gai p = 0 \<and> (\<exists>x rest. pr_addrs p = (True, x) # rest) \<and> txplan (pr_sock p) = [] \<and>
    (\<exists>b es. rx (pr_sock p) = RxData (resp_header len @ b) # es \<and> length (resp_header len @ b) \<le> 512 \<and>
      rx_clean es \<and> body = b @ rx_bytes es) \<and> length body \<le> unat len"

lemma fetch_ok:
  assumes "peer_sends p len body" "length (request_text path) < 256" "rx_size (rx (pr_sock p)) < n" "fs lp = Some []"
  shows "\<exists>g. fetch (gflib_perform n p) server port path lp fs =
      Some (Inr (fs(lp := if length body = unat len then Some body else None),
        if length body = unat len then 0 else -1, g)) \<and> gfc_get_status g = GF_OK"
proof -
  obtain b es where r: "rx (pr_sock p) = RxData (resp_header len @ b) # es" "length (resp_header len @ b) \<le> 512"
    "rx_clean es" "body = b @ rx_bytes es" using assms(1) by (auto simp: peer_sends_def)
  define g0 where "g0 = gfc_set_writearg (fs lp) (gfc_set_writefunc (Some writecb)
      (gfc_set_server (Some server) (gfc_set_path (Some path) (gfc_set_port port gfc_create))))"
  note g0_defs = g0_def gfc_set_writearg_def gfc_set_writefunc_def gfc_set_server_def gfc_set_path_def
    gfc_set_port_def gfc_create_def
  have rdy: "gfc_ready (pr_socket p) (pr_addrs p) g0 (pr_sock p)"
    using assms(1,2) by (simp add: gfc_ready_def peer_sends_def g0_defs)
  have wf: "write_func g0 = Some writecb" "write_args g0 = Some []" using assms(4) by (simp_all add: g0_defs)
  have "rx_size es + 1 < n" using assms(3) r(1) by (auto simp: resp_header_def)
  moreover have "length (b @ rx_bytes es) \<le> unat len" using assms(1) r(4) by (simp add: peer_sends_def)
  ultimately obtain g' s' cs where g': "gfc_perform n (pr_socket p) 0 (pr_addrs p) g0 (pr_sock p) =
      Some (Inr (if length body = unat len then 0 else -1, g', s'))"
    "concat cs = body" "write_args g' = foldl (\<lambda>a d. writecb d a) (Some []) cs" "gfc_get_status g' = GF_OK"
    using gfc_perform_data [OF rdy wf(1) r(1,2,3)] wf(2) r(4) by metis
  then have "write_args g' = Some body" using writecb_all [of "[]" cs] by simp
  then show ?thesis
    using g'(1,4) assms(1)
    by (simp add: fetch_def g0_def [symmetric] gflib_perform_def peer_sends_def Let_def)
qed

subsection \<open>Properties\<close>

definition example_down :: peer where
  "example_down = \<lparr>pr_socket = 4, pr_gai = 0, pr_addrs = [(True, 0)],
    pr_sock = \<lparr>rx = [RxData (resp_header 3 @ ''a''), RxData ''bc''], tx = [], txplan = []\<rparr>\<rparr>"

text \<open>One download of pr1/gflib end to end.  For a path of 1 to 239 characters, when the directories and
  the file can be made and the server answers with a good header and any part of the content, in
  any packets: if all of the content arrives, the local file (the path without its first
  character, with the number of the request, at most 255 characters) holds exactly the content and
  the result is 0; if not, the result is -1 and the file is gone.\<close>

theorem download_one_saves:
  assumes "path \<noteq> []" "length path \<le> 239" "\<forall>d. mk d = 0 \<or> mk d = EEXIST" "\<forall>f. fop f"
    and "peer_sends p len body" "rx_size (rx (pr_sock p)) < n"
  shows "\<exists>g. download_one n mk fop server port (Some path) k p fs =
    Some (Inr (fs(take 255 (tl path @ ''_'' @ pad0 6 (dec k)) := if length body = unat len then Some body else None),
      if length body = unat len then 0 else -1, g))"
proof -
  obtain lp where lp: "localPath path k = Inr lp" "lp \<noteq> []" "lp = take 255 (tl path @ ''_'' @ pad0 6 (dec k))"
    using localPath_some [OF assms(1)] by blast
  have "openFile mk fop lp fs = Inr (fs(lp \<mapsto> []))" using openFile_ok assms(3,4) lp(2) by simp
  moreover have "length (request_text path) < 256" using assms(2) by (simp add: request_text_def)
  then obtain g where "fetch (gflib_perform n p) server port path lp (fs(lp \<mapsto> [])) =
      Some (Inr ((fs(lp \<mapsto> []))(lp := if length body = unat len then Some body else None),
        if length body = unat len then 0 else -1, g))"
    using fetch_ok [OF assms(5) _ assms(6), where fs = "fs(lp \<mapsto> [])" and lp = lp and path = path
        and server = server and port = port] fun_upd_same [of fs lp "Some []"] by blast
  ultimately show ?thesis using lp assms(2) by (simp add: download_one_def)
qed

theorem download_one_saves_witness:
  "\<exists>g. download_one 40 (\<lambda>_. 0) (\<lambda>_. True) ''localhost'' 10880 (Some ''/a'') 7 example_down Map.empty =
    Some (Inr (Map.empty(take 255 (tl ''/a'' @ ''_'' @ pad0 6 (dec 7)) :=
        if length ''abc'' = unat (3 :: size_t) then Some ''abc'' else None),
      if length ''abc'' = unat (3 :: size_t) then 0 else -1, g))"
proof (rule download_one_saves)
  show "peer_sends example_down 3 ''abc''"
    unfolding peer_sends_def
    by (intro conjI exI [of _ "''a''"] exI [of _ "[RxData ''bc'']"])
      (simp_all add: example_down_def rx_clean_def resp_header_def dec_digit)
qed (simp_all add: example_down_def resp_header_def dec_digit)

text \<open>The program accepts paths of up to 256 characters, but \<open>gfc_perform\<close> prints the request into 256
  bytes: every path of 240 to 256 characters writes behind the end of \<open>req_header\<close>.\<close>

theorem download_long_path_overflows:
  assumes "240 \<le> length path" "length path \<le> 256" "\<forall>d. mk d = 0 \<or> mk d = EEXIST" "\<forall>f. fop f"
    and "0 \<le> pr_socket p" "pr_gai p = 0" "pr_addrs p = (True, x) # rest"
  shows "download_one n mk fop server port (Some path) k p fs = Some (Inl (Ub Out_Of_Bounds))"
proof -
  have ne: "path \<noteq> []" using assms(1) by auto
  obtain lp where lp: "localPath path k = Inr lp" "lp \<noteq> []"
    using localPath_some [OF ne] by blast
  have "openFile mk fop lp fs = Inr (fs(lp \<mapsto> []))" using openFile_ok assms(3,4) lp(2) by simp
  then show ?thesis
    using lp(1) assms
    by (simp add: download_one_def fetch_def gflib_perform_def gfc_perform_def build_request_def request_text_def
        gfc_set_writearg_def gfc_set_writefunc_def gfc_set_server_def gfc_set_path_def gfc_set_port_def gfc_create_def)
qed

theorem download_long_path_overflows_witness:
  "download_one 5 (\<lambda>_. 0) (\<lambda>_. True) ''localhost'' 10880 (Some (replicate 250 (CHR ''a''))) 7 example_down Map.empty =
    Some (Inl (Ub Out_Of_Bounds))"
  by (rule download_long_path_overflows) (simp_all add: example_down_def)

text \<open>The client of pr1/mtgf accepts paths of up to 1536 characters, but \<open>localPath\<close> prints the name of
  the local file into 512 bytes: every path of 506 or more characters writes behind its end, with any
  library.\<close>

theorem mt_long_path_overflows:
  assumes "506 \<le> length path"
  shows "set_request_main_code perform mk fop server port path k fs = Some (Inl (Ub Out_Of_Bounds))"
proof -
  obtain c cs where path: "path = c # cs" "505 \<le> length cs" using assms by (cases path) auto
  have "6 \<le> length (pad0 6 (dec k))" by (rule length_pad0)
  then have "512 \<le> length (cs @ ''-'' @ pad0 6 (dec k))" using path(2) by simp
  then show ?thesis
    by (simp add: set_request_main_code_def localPath_mt_def skip_first_def path(1))
qed

theorem mt_long_path_overflows_witness:
  "set_request_main_code (\<lambda>g. Some (Inr (0, g))) (\<lambda>_. 0) (\<lambda>_. True) ''localhost'' 10880
    (replicate 600 (CHR ''a'')) 0 Map.empty = Some (Inl (Ub Out_Of_Bounds))"
  by (rule mt_long_path_overflows) simp

end
