(* ===== verification/MTClient.thy ===== *)
theory MTClient
  imports Steque GFDownload "HOL-Library.Multiset"
begin

section \<open>The multithreaded download client (pr1/mtgf/gfclient_download.c)\<close>

text \<open>
  A boss thread puts the paths of the workload into a queue, worker threads take them out and download
  them, all under one mutex and one condition variable.  The program is a step relation: the code
  between taking and releasing the mutex is one step, and every \<open>pthread_cond_signal\<close> and
  \<open>pthread_cond_broadcast\<close>, which the program calls after it has released the mutex, is a step of its
  own, so other threads run in between.  \<open>pthread_cond_wait\<close> may also return without a signal.
\<close>

subsection \<open>The queue the threads share\<close>

text \<open>The operations of the queue and the possible results of \<open>malloc\<close> in an enqueue.\<close>

record ('p, 'a, 'q) qops =
  q_enq :: "'p \<Rightarrow> 'a \<Rightarrow> 'q \<Rightarrow> 'q res"
  q_deq :: "'q \<Rightarrow> ('a \<times> 'q) res"
  q_isempty :: "'q \<Rightarrow> bool"
  q_malloc :: "'p \<Rightarrow> 'q \<Rightarrow> bool"

definition fifo_ops ::
  "('p \<Rightarrow> 'a \<Rightarrow> 'q \<Rightarrow> 'q res) \<Rightarrow> ('q \<Rightarrow> ('a \<times> 'q) res) \<Rightarrow> ('q \<Rightarrow> bool) \<Rightarrow> ('p \<Rightarrow> 'q \<Rightarrow> bool) \<Rightarrow> 'p \<Rightarrow> ('p, 'a, 'q) qops" where
  "fifo_ops enq deq isempty place null =
    \<lparr>q_enq = enq, q_deq = deq, q_isempty = isempty, q_malloc = (\<lambda>p q. place p q \<or> p = null)\<rparr>"

subsection \<open>States\<close>

text \<open>
  Where a thread is.  \<open>B_Top k\<close> is the head of the boss's loop at \<open>i = k\<close>, \<open>W_Top c\<close> that of a worker's at
  \<open>i = c\<close>; \<open>_Sig\<close> and \<open>_Bcast\<close> are in front of the calls that wake others, \<open>_Check\<close> at the test of the loop
  around \<open>pthread_cond_wait\<close> with the mutex held, \<open>_Wait\<close> inside it.
\<close>

datatype boss = B_Top nat | B_Sig nat | B_Check | B_Wait | B_Bcast | B_Join nat | B_Done

datatype worker = W_Top nat | W_Check nat | W_Wait nat | W_Sig nat string | W_Work nat string
  | W_Count nat | W_Bcast nat | W_End

record 'q mtc =
  mc_queue :: 'q
  mc_ndone :: int
  mc_boss :: boss
  mc_ws :: "worker list"
  mc_log :: "string list"
  mc_fault :: "fault option"

definition mtc_init :: "'q \<Rightarrow> nat \<Rightarrow> 'q mtc" where
  "mtc_init q n = \<lparr>mc_queue = q, mc_ndone = 0, mc_boss = B_Top 0, mc_ws = replicate n (W_Top 0),
    mc_log = [], mc_fault = None\<rparr>"

subsection \<open>Waking threads\<close>

fun is_wait :: "worker \<Rightarrow> bool" where
  "is_wait (W_Wait c) = True"
| "is_wait _ = False"

fun wake_w :: "worker \<Rightarrow> worker" where
  "wake_w (W_Wait c) = W_Check c"
| "wake_w w = w"

definition wake_b :: "boss \<Rightarrow> boss" where
  "wake_b b = (if b = B_Wait then B_Check else b)"

definition wake_one :: "'q mtc \<Rightarrow> 'q mtc \<Rightarrow> bool" where
  "wake_one m m' \<longleftrightarrow>
    (mc_boss m = B_Wait \<and> m' = m\<lparr>mc_boss := B_Check\<rparr>) \<or>
    (\<exists>i<length (mc_ws m). is_wait (mc_ws m ! i) \<and> m' = m\<lparr>mc_ws := (mc_ws m)[i := wake_w (mc_ws m ! i)]\<rparr>)"

definition cond_signal :: "'q mtc \<Rightarrow> 'q mtc \<Rightarrow> bool" where
  "cond_signal m m' \<longleftrightarrow>
    (if mc_boss m = B_Wait \<or> (\<exists>w\<in>set (mc_ws m). is_wait w) then wake_one m m' else m' = m)"

definition cond_broadcast :: "'q mtc \<Rightarrow> 'q mtc" where
  "cond_broadcast m = m\<lparr>mc_boss := wake_b (mc_boss m), mc_ws := map wake_w (mc_ws m)\<rparr>"

definition set_w :: "nat \<Rightarrow> worker \<Rightarrow> 'q mtc \<Rightarrow> 'q mtc" where
  "set_w i w m = m\<lparr>mc_ws := (mc_ws m)[i := w]\<rparr>"

definition at_w :: "'q mtc \<Rightarrow> nat \<Rightarrow> worker \<Rightarrow> bool" where
  "at_w m i w \<longleftrightarrow> i < length (mc_ws m) \<and> mc_ws m ! i = w"

subsection \<open>Steps\<close>

text \<open>\<open>reqs k\<close> is the result of the \<open>k\<close>th call of \<open>workload_get_path\<close>, \<open>nr\<close> is \<open>nrequests\<close>.\<close>

inductive mtc_act :: "('p, string, 'q) qops \<Rightarrow> (nat \<Rightarrow> string) \<Rightarrow> int \<Rightarrow> 'q mtc \<Rightarrow> 'q mtc \<Rightarrow> bool"
  for ops reqs nr where
  boss_long: "mc_boss m = B_Top k \<Longrightarrow> int k < nr \<Longrightarrow> length (reqs k) > 1536 \<Longrightarrow>
    mtc_act ops reqs nr m (m\<lparr>mc_fault := Some (Exit EXIT_FAILURE)\<rparr>)"
| boss_enq: "mc_boss m = B_Top k \<Longrightarrow> int k < nr \<Longrightarrow> length (reqs k) \<le> 1536 \<Longrightarrow> q_malloc ops p (mc_queue m) \<Longrightarrow>
    q_enq ops p (reqs k) (mc_queue m) = Inr q' \<Longrightarrow> mtc_act ops reqs nr m (m\<lparr>mc_queue := q', mc_boss := B_Sig k\<rparr>)"
| boss_enq_fault: "mc_boss m = B_Top k \<Longrightarrow> int k < nr \<Longrightarrow> length (reqs k) \<le> 1536 \<Longrightarrow> q_malloc ops p (mc_queue m) \<Longrightarrow>
    q_enq ops p (reqs k) (mc_queue m) = Inl e \<Longrightarrow> mtc_act ops reqs nr m (m\<lparr>mc_fault := Some e\<rparr>)"
| boss_sig: "mc_boss m = B_Sig k \<Longrightarrow> cond_signal (m\<lparr>mc_boss := B_Top (Suc k)\<rparr>) m' \<Longrightarrow> mtc_act ops reqs nr m m'"
| boss_all: "mc_boss m = B_Top k \<Longrightarrow> \<not> int k < nr \<Longrightarrow> mtc_act ops reqs nr m (m\<lparr>mc_boss := B_Check\<rparr>)"
| boss_wait: "mc_boss m = B_Check \<Longrightarrow> mc_ndone m \<noteq> nr \<Longrightarrow> mtc_act ops reqs nr m (m\<lparr>mc_boss := B_Wait\<rparr>)"
| boss_go: "mc_boss m = B_Check \<Longrightarrow> mc_ndone m = nr \<Longrightarrow> mtc_act ops reqs nr m (m\<lparr>mc_boss := B_Bcast\<rparr>)"
| boss_bcast: "mc_boss m = B_Bcast \<Longrightarrow> mtc_act ops reqs nr m (cond_broadcast (m\<lparr>mc_boss := B_Join 0\<rparr>))"
| boss_join: "mc_boss m = B_Join j \<Longrightarrow> at_w m j W_End \<Longrightarrow> mtc_act ops reqs nr m (m\<lparr>mc_boss := B_Join (Suc j)\<rparr>)"
| boss_exit: "mc_boss m = B_Join j \<Longrightarrow> \<not> j < length (mc_ws m) \<Longrightarrow> mtc_act ops reqs nr m (m\<lparr>mc_boss := B_Done\<rparr>)"
| w_top: "at_w m i (W_Top c) \<Longrightarrow> int c < nr \<Longrightarrow> mtc_act ops reqs nr m (set_w i (W_Check c) m)"
| w_exit: "at_w m i (W_Top c) \<Longrightarrow> \<not> int c < nr \<Longrightarrow> mtc_act ops reqs nr m (set_w i W_End m)"
| w_done: "at_w m i (W_Check c) \<Longrightarrow> q_isempty ops (mc_queue m) \<Longrightarrow> mc_ndone m = nr \<Longrightarrow>
    mtc_act ops reqs nr m (set_w i W_End m)"
| w_wait: "at_w m i (W_Check c) \<Longrightarrow> q_isempty ops (mc_queue m) \<Longrightarrow> mc_ndone m \<noteq> nr \<Longrightarrow>
    mtc_act ops reqs nr m (set_w i (W_Wait c) m)"
| w_pop: "at_w m i (W_Check c) \<Longrightarrow> \<not> q_isempty ops (mc_queue m) \<Longrightarrow> q_deq ops (mc_queue m) = Inr (r, q') \<Longrightarrow>
    mtc_act ops reqs nr m (set_w i (W_Sig c r) (m\<lparr>mc_queue := q'\<rparr>))"
| w_pop_fault: "at_w m i (W_Check c) \<Longrightarrow> \<not> q_isempty ops (mc_queue m) \<Longrightarrow> q_deq ops (mc_queue m) = Inl e \<Longrightarrow>
    mtc_act ops reqs nr m (m\<lparr>mc_fault := Some e\<rparr>)"
| w_sig: "at_w m i (W_Sig c r) \<Longrightarrow> cond_signal (set_w i (W_Work c r) m) m' \<Longrightarrow> mtc_act ops reqs nr m m'"
| w_work: "at_w m i (W_Work c r) \<Longrightarrow> mtc_act ops reqs nr m (set_w i (W_Count c) (m\<lparr>mc_log := mc_log m @ [r]\<rparr>))"
| w_count: "at_w m i (W_Count c) \<Longrightarrow> mtc_act ops reqs nr m (set_w i (W_Bcast c) (m\<lparr>mc_ndone := mc_ndone m + 1\<rparr>))"
| w_bcast: "at_w m i (W_Bcast c) \<Longrightarrow> mtc_act ops reqs nr m (cond_broadcast (set_w i (W_Top (Suc c)) m))"

definition mtc_step :: "('p, string, 'q) qops \<Rightarrow> (nat \<Rightarrow> string) \<Rightarrow> int \<Rightarrow> 'q mtc \<Rightarrow> 'q mtc \<Rightarrow> bool" where
  "mtc_step ops reqs nr m m' \<longleftrightarrow> mc_fault m = None \<and> mtc_act ops reqs nr m m'"

inductive mtc_reach :: "('p, string, 'q) qops \<Rightarrow> (nat \<Rightarrow> string) \<Rightarrow> int \<Rightarrow> 'q mtc \<Rightarrow> 'q mtc \<Rightarrow> bool"
  for ops reqs nr m0 where
  start: "mtc_reach ops reqs nr m0 m0"
| step: "mtc_reach ops reqs nr m0 m \<Longrightarrow> mtc_step ops reqs nr m m' \<Longrightarrow> mtc_reach ops reqs nr m0 m'"
| spurious: "mtc_reach ops reqs nr m0 m \<Longrightarrow> mc_fault m = None \<Longrightarrow> wake_one m m' \<Longrightarrow> mtc_reach ops reqs nr m0 m'"

subsection \<open>The invariant\<close>

fun hand_w :: "worker \<Rightarrow> string multiset" where
  "hand_w (W_Sig c r) = {#r#}"
| "hand_w (W_Work c r) = {#r#}"
| "hand_w _ = {#}"

fun pops_w :: "worker \<Rightarrow> nat" where
  "pops_w (W_Top c) = c"
| "pops_w (W_Check c) = c"
| "pops_w (W_Wait c) = c"
| "pops_w (W_Sig c r) = Suc c"
| "pops_w (W_Work c r) = Suc c"
| "pops_w (W_Count c) = Suc c"
| "pops_w (W_Bcast c) = Suc c"
| "pops_w W_End = 0"

fun uncounted_w :: "worker \<Rightarrow> int" where
  "uncounted_w (W_Count c) = 1"
| "uncounted_w _ = 0"

fun active_w :: "worker \<Rightarrow> bool" where
  "active_w (W_Wait c) = False"
| "active_w W_End = False"
| "active_w _ = True"

fun enq_count :: "int \<Rightarrow> boss \<Rightarrow> nat" where
  "enq_count nr (B_Top k) = k"
| "enq_count nr (B_Sig k) = Suc k"
| "enq_count nr _ = nat nr"

definition conserved :: "('q \<Rightarrow> string list) \<Rightarrow> (nat \<Rightarrow> string) \<Rightarrow> int \<Rightarrow> 'q mtc \<Rightarrow> bool" where
  "conserved content reqs nr m \<longleftrightarrow>
    mset (map reqs [0..<enq_count nr (mc_boss m)]) =
      mset (content (mc_queue m)) + sum_list (map hand_w (mc_ws m)) + mset (mc_log m) \<and>
    int (length (mc_log m)) = mc_ndone m + sum_list (map uncounted_w (mc_ws m)) \<and>
    (\<forall>w\<in>set (mc_ws m). pops_w w + length (content (mc_queue m)) \<le> enq_count nr (mc_boss m)) \<and>
    int (enq_count nr (mc_boss m)) \<le> nr"

definition live :: "('q \<Rightarrow> string list) \<Rightarrow> int \<Rightarrow> 'q mtc \<Rightarrow> bool" where
  "live content nr m \<longleftrightarrow>
    (W_End \<in> set (mc_ws m) \<longrightarrow> content (mc_queue m) = [] \<and> int (enq_count nr (mc_boss m)) = nr) \<and>
    (content (mc_queue m) \<noteq> [] \<longrightarrow> (\<exists>k. mc_boss m = B_Sig k) \<or> (\<exists>w\<in>set (mc_ws m). active_w w)) \<and>
    (mc_boss m = B_Wait \<longrightarrow> mc_ndone m = nr \<longrightarrow> (\<exists>c. W_Bcast c \<in> set (mc_ws m)))"

definition boss_ok :: "int \<Rightarrow> 'q mtc \<Rightarrow> bool" where
  "boss_ok nr m \<longleftrightarrow>
    (case mc_boss m of
       B_Bcast \<Rightarrow> mc_ndone m = nr
     | B_Join j \<Rightarrow> mc_ndone m = nr \<and> (\<forall>w\<in>set (mc_ws m). \<not> is_wait w) \<and> (\<forall>i<j. i < length (mc_ws m) \<longrightarrow> mc_ws m ! i = W_End)
     | B_Done \<Rightarrow> mc_ndone m = nr \<and> (\<forall>w\<in>set (mc_ws m). w = W_End)
     | _ \<Rightarrow> True)"

subsection \<open>Every step keeps the invariant\<close>

lemma sum_list_upd:
  fixes f :: "'a \<Rightarrow> 'b::comm_monoid_add"
  shows "i < length ws \<Longrightarrow> sum_list (map f (ws[i := w])) + f (ws ! i) = sum_list (map f ws) + f w"
proof (induction ws arbitrary: i)
  case (Cons a ws)
  then show ?case by (cases i) (auto simp: ac_simps)
qed simp

lemma sum_list_zero: "\<forall>w\<in>set ws. f w = (0::'b::comm_monoid_add) \<Longrightarrow> sum_list (map f ws) = 0"
  by (induction ws) auto

lemma wake_w_simps [simp]:
  "hand_w (wake_w w) = hand_w w" "pops_w (wake_w w) = pops_w w" "uncounted_w (wake_w w) = uncounted_w w"
  "\<not> is_wait (wake_w w)" "wake_w w = W_End \<longleftrightarrow> w = W_End" "wake_w w = W_Bcast c \<longleftrightarrow> w = W_Bcast c"
  "active_w (wake_w w) \<longleftrightarrow> active_w w \<or> is_wait w"
  by (cases w; simp)+

lemma is_wait_iff: "is_wait w \<longleftrightarrow> (\<exists>c. w = W_Wait c)"
  by (cases w) auto

lemma map_wake_funs [simp]:
  "map hand_w (map wake_w ws) = map hand_w ws" "map uncounted_w (map wake_w ws) = map uncounted_w ws"
  "hand_w \<circ> wake_w = hand_w" "uncounted_w \<circ> wake_w = uncounted_w"
  by (auto simp: fun_eq_iff)

lemma in_set_upd: "x \<in> set ws \<Longrightarrow> x \<noteq> ws ! i \<Longrightarrow> x \<in> set (ws[i := y])"
  by (metis in_set_conv_nth length_list_update nth_list_update_neq)

lemma in_set_updD: "x \<in> set (ws[i := y]) \<Longrightarrow> x = y \<or> x \<in> set ws"
  using set_update_subset_insert [of ws i y] by auto

lemma uncounted_w_nonneg: "0 \<le> uncounted_w w"
  by (cases w) simp_all

lemma uncounted_nonneg: "0 \<le> sum_list (map uncounted_w ws)"
  by (induction ws) (simp_all add: uncounted_w_nonneg add_nonneg_nonneg)

lemma conserved_bound:
  assumes "conserved content reqs nr m"
  shows "mc_ndone m + sum_list (map uncounted_w (mc_ws m)) + int (length (content (mc_queue m))) \<le> int (enq_count nr (mc_boss m))"
    "int (enq_count nr (mc_boss m)) \<le> nr"
proof -
  have "mset (map reqs [0..<enq_count nr (mc_boss m)]) =
      mset (content (mc_queue m)) + sum_list (map hand_w (mc_ws m)) + mset (mc_log m)"
    using assms by (simp add: conserved_def)
  then have "size (mset (map reqs [0..<enq_count nr (mc_boss m)])) =
      size (mset (content (mc_queue m)) + sum_list (map hand_w (mc_ws m)) + mset (mc_log m))" by simp
  then show "mc_ndone m + sum_list (map uncounted_w (mc_ws m)) + int (length (content (mc_queue m))) \<le> int (enq_count nr (mc_boss m))"
    using assms by (simp add: conserved_def)
  show "int (enq_count nr (mc_boss m)) \<le> nr" using assms by (simp add: conserved_def)
qed

lemma conserved_w:
  assumes "conserved content reqs nr m" "at_w m i w0" "mc_ws m' = (mc_ws m)[i := w]" "mc_boss m' = mc_boss m"
    and "mset (content (mc_queue m')) + hand_w w + mset (mc_log m') = mset (content (mc_queue m)) + hand_w w0 + mset (mc_log m)"
    and "int (length (mc_log m')) - mc_ndone m' - uncounted_w w = int (length (mc_log m)) - mc_ndone m - uncounted_w w0"
    and "pops_w w + length (content (mc_queue m')) \<le> pops_w w0 + length (content (mc_queue m))"
    and "length (content (mc_queue m')) \<le> length (content (mc_queue m))"
  shows "conserved content reqs nr m'"
proof -
  let ?ws = "mc_ws m" and ?ws' = "(mc_ws m)[i := w]" and ?E = "enq_count nr (mc_boss m)"
  have i: "i < length ?ws" "?ws ! i = w0" using assms(2) by (simp_all add: at_w_def)
  have h: "sum_list (map hand_w ?ws') + hand_w w0 = sum_list (map hand_w ?ws) + hand_w w"
    and u: "sum_list (map uncounted_w ?ws') + uncounted_w w0 = sum_list (map uncounted_w ?ws) + uncounted_w w"
    using sum_list_upd [OF i(1), where w = w] i(2) by metis+
  have c: "mset (map reqs [0..<?E]) = mset (content (mc_queue m)) + sum_list (map hand_w ?ws) + mset (mc_log m)"
    using assms(1) by (simp add: conserved_def)
  have "mset (content (mc_queue m')) + sum_list (map hand_w ?ws') + mset (mc_log m') + hand_w w0 =
      (mset (content (mc_queue m')) + hand_w w + mset (mc_log m')) + sum_list (map hand_w ?ws)"
    using h by (metis (no_types, lifting) add.assoc add.commute)
  also have "\<dots> = mset (map reqs [0..<?E]) + hand_w w0"
    unfolding assms(5) c by (simp add: ac_simps)
  finally have "mset (content (mc_queue m')) + sum_list (map hand_w ?ws') + mset (mc_log m') = mset (map reqs [0..<?E])"
    by (rule add_right_imp_eq)
  moreover have "pops_w x + length (content (mc_queue m')) \<le> ?E" if "x \<in> set ?ws'" for x
  proof -
    have b: "pops_w y + length (content (mc_queue m)) \<le> ?E" if "y \<in> set ?ws" for y
      using assms(1) that by (simp add: conserved_def)
    have "w0 \<in> set ?ws" using i nth_mem by blast
    then show ?thesis using b [of w0] b [of x] in_set_updD [OF that] assms(7,8) by auto
  qed
  ultimately show ?thesis using assms(1,3,4,6) u by (auto simp: conserved_def)
qed

lemma set_w_fields [simp]:
  "mc_queue (set_w i w m) = mc_queue m" "mc_boss (set_w i w m) = mc_boss m" "mc_ndone (set_w i w m) = mc_ndone m"
  "mc_log (set_w i w m) = mc_log m" "mc_fault (set_w i w m) = mc_fault m" "mc_ws (set_w i w m) = (mc_ws m)[i := w]"
  by (simp_all add: set_w_def)

lemma conserved_set_w:
  "conserved content reqs nr m \<Longrightarrow> at_w m i w0 \<Longrightarrow> hand_w w = hand_w w0 \<Longrightarrow> uncounted_w w = uncounted_w w0 \<Longrightarrow>
   pops_w w \<le> pops_w w0 \<Longrightarrow> conserved content reqs nr (set_w i w m)"
  by (erule conserved_w) simp_all

lemma conserved_fault [simp]: "conserved content reqs nr (m\<lparr>mc_fault := x\<rparr>) = conserved content reqs nr m"
  by (simp add: conserved_def)

lemma conserved_boss: "enq_count nr b = enq_count nr (mc_boss m) \<Longrightarrow>
    conserved content reqs nr (m\<lparr>mc_boss := b\<rparr>) = conserved content reqs nr m"
  by (simp add: conserved_def)

lemma conserved_wake: "conserved content reqs nr m \<Longrightarrow> wake_one m m' \<Longrightarrow> conserved content reqs nr m'"
proof -
  assume c: "conserved content reqs nr m" and w: "wake_one m m'"
  show ?thesis
  proof (cases "mc_boss m = B_Wait \<and> m' = m\<lparr>mc_boss := B_Check\<rparr>")
    case True
    then show ?thesis using c by (simp add: conserved_def)
  next
    case False
    then obtain i where "i < length (mc_ws m)" "m' = m\<lparr>mc_ws := (mc_ws m)[i := wake_w (mc_ws m ! i)]\<rparr>"
      using w by (auto simp: wake_one_def)
    then show ?thesis
      by (intro conserved_w [OF c, of i "mc_ws m ! i" _ "wake_w (mc_ws m ! i)"]) (simp_all add: at_w_def)
  qed
qed

lemma conserved_signal: "conserved content reqs nr m \<Longrightarrow> cond_signal m m' \<Longrightarrow> conserved content reqs nr m'"
  using conserved_wake by (auto simp: cond_signal_def split: if_splits)

lemma enq_count_wake [simp]: "enq_count nr (wake_b b) = enq_count nr b"
  by (simp add: wake_b_def)

lemma conserved_broadcast: "conserved content reqs nr m \<Longrightarrow> conserved content reqs nr (cond_broadcast m)"
  by (auto simp: conserved_def cond_broadcast_def)

lemma live_w:
  assumes "live content nr m" "at_w m i w0" "mc_ws m' = (mc_ws m)[i := w]" "mc_boss m' = mc_boss m"
    and "w = W_End \<Longrightarrow> content (mc_queue m') = [] \<and> int (enq_count nr (mc_boss m)) = nr"
    and "content (mc_queue m) = [] \<Longrightarrow> content (mc_queue m') = []" "active_w w \<or> content (mc_queue m') = []"
    and "\<And>c. w0 \<noteq> W_Bcast c" "mc_ndone m' = mc_ndone m \<or> (\<exists>c. w = W_Bcast c)"
  shows "live content nr m'"
proof -
  have i: "i < length (mc_ws m)" "mc_ws m ! i = w0" using assms(2) by (simp_all add: at_w_def)
  then have w: "w \<in> set (mc_ws m')" using assms(3) by (metis length_list_update nth_list_update_eq nth_mem)
  have "W_End \<in> set (mc_ws m') \<longrightarrow> content (mc_queue m') = [] \<and> int (enq_count nr (mc_boss m')) = nr"
    using assms(1,5,6) in_set_updD [of W_End "mc_ws m" i w] unfolding assms(3,4) live_def by blast
  moreover have "content (mc_queue m') \<noteq> [] \<longrightarrow> (\<exists>w\<in>set (mc_ws m'). active_w w)" using assms(7) w by blast
  moreover have "mc_boss m' = B_Wait \<longrightarrow> mc_ndone m' = nr \<longrightarrow> (\<exists>c. W_Bcast c \<in> set (mc_ws m'))"
    using assms(1,8,9) w in_set_upd [of _ "mc_ws m" i w] unfolding i(2) assms(3,4) live_def by metis
  ultimately show ?thesis by (simp add: live_def)
qed

lemma live_wake: "live content nr m \<Longrightarrow> wake_one m m' \<Longrightarrow> live content nr m'"
proof -
  assume l: "live content nr m" and w: "wake_one m m'"
  show ?thesis
  proof (cases "mc_boss m = B_Wait \<and> m' = m\<lparr>mc_boss := B_Check\<rparr>")
    case True
    then show ?thesis using l by (simp add: live_def)
  next
    case False
    then obtain i where i: "i < length (mc_ws m)" "is_wait (mc_ws m ! i)"
        "m' = m\<lparr>mc_ws := (mc_ws m)[i := wake_w (mc_ws m ! i)]\<rparr>"
      using w by (auto simp: wake_one_def)
    then obtain c where "mc_ws m ! i = W_Wait c" by (auto simp: is_wait_iff)
    with i show ?thesis
      by (intro live_w [OF l, of i "W_Wait c" _ "W_Check c"]) (simp_all add: at_w_def)
  qed
qed

lemma live_signal: "live content nr m \<Longrightarrow> cond_signal m m' \<Longrightarrow> live content nr m'"
  using live_wake by (auto simp: cond_signal_def split: if_splits)

lemma not_active_cases: "active_w w \<or> is_wait w \<or> w = W_End"
  by (cases w) simp_all

text \<open>The boss's signal: whoever is woken, or already awake, will see the item.\<close>

lemma live_boss_signal:
  assumes "live content nr m" "mc_boss m = B_Sig k" "mc_ws m \<noteq> []"
    and "cond_signal (m\<lparr>mc_boss := B_Top (Suc k)\<rparr>) m'"
  shows "live content nr m'"
proof (cases "\<exists>w\<in>set (mc_ws m). is_wait w")
  case True
  then obtain i where i: "i < length (mc_ws m)" "is_wait (mc_ws m ! i)"
      "m' = m\<lparr>mc_boss := B_Top (Suc k), mc_ws := (mc_ws m)[i := wake_w (mc_ws m ! i)]\<rparr>"
    using assms(4) by (auto simp: cond_signal_def wake_one_def)
  then obtain c where c: "mc_ws m ! i = W_Wait c" by (auto simp: is_wait_iff)
  have "W_Check c \<in> set (mc_ws m')" using i c by (simp add: set_update_memI)
  moreover have "W_End \<in> set (mc_ws m') \<Longrightarrow> W_End \<in> set (mc_ws m)"
    using i c in_set_updD [of W_End "mc_ws m" i "W_Check c"] by auto
  ultimately show ?thesis using assms(1,2) i(3) unfolding live_def by (auto intro: bexI [of _ "W_Check c"])
next
  case False
  then have m': "m' = m\<lparr>mc_boss := B_Top (Suc k)\<rparr>" using assms(4) by (simp add: cond_signal_def)
  have "\<exists>w\<in>set (mc_ws m). active_w w" if "content (mc_queue m) \<noteq> []"
  proof -
    have "W_End \<notin> set (mc_ws m)" using assms(1) that by (auto simp: live_def)
    then show ?thesis using False assms(3) not_active_cases by (metis list.set_intros(1) neq_Nil_conv)
  qed
  then show ?thesis using assms(1,2) m' by (auto simp: live_def)
qed

lemma wake_End: "W_End \<in> wake_w ` S \<longleftrightarrow> W_End \<in> S"
  by (metis (no_types, lifting) image_iff wake_w_simps(5))

lemma live_broadcast:
  assumes "W_End \<in> set (mc_ws m) \<longrightarrow> content (mc_queue m) = [] \<and> int (enq_count nr (mc_boss m)) = nr"
    and "content (mc_queue m) \<noteq> [] \<longrightarrow> (\<exists>k. mc_boss m = B_Sig k) \<or> (\<exists>w\<in>set (mc_ws m). active_w w)"
  shows "live content nr (cond_broadcast m)"
proof -
  have "wake_b (mc_boss m) \<noteq> B_Wait" by (simp add: wake_b_def)
  then have "mc_boss (cond_broadcast m) \<noteq> B_Wait" by (simp add: cond_broadcast_def)
  moreover have "W_End \<in> set (mc_ws (cond_broadcast m)) \<longrightarrow>
      content (mc_queue (cond_broadcast m)) = [] \<and> int (enq_count nr (mc_boss (cond_broadcast m))) = nr"
    using assms(1) wake_End [of "set (mc_ws m)"] by (simp add: cond_broadcast_def)
  moreover have "(\<exists>k. mc_boss (cond_broadcast m) = B_Sig k) \<or> (\<exists>w\<in>set (mc_ws (cond_broadcast m)). active_w w)"
    if ne: "content (mc_queue (cond_broadcast m)) \<noteq> []"
  proof -
    have "(\<exists>k. mc_boss m = B_Sig k) \<or> (\<exists>w\<in>set (mc_ws m). active_w w)"
      using assms(2) ne by (simp add: cond_broadcast_def)
    then show ?thesis
    proof
      assume "\<exists>k. mc_boss m = B_Sig k"
      then show ?thesis by (auto simp: cond_broadcast_def wake_b_def)
    next
      assume "\<exists>w\<in>set (mc_ws m). active_w w"
      then show ?thesis by (auto simp: cond_broadcast_def)
    qed
  qed
  ultimately show ?thesis unfolding live_def by blast
qed

lemma live_fault [simp]: "live content nr (m\<lparr>mc_fault := x\<rparr>) = live content nr m"
  by (simp add: live_def)

lemma boss_ok_w:
  assumes "boss_ok nr m" "at_w m i w0" "w0 \<noteq> W_End" "mc_ws m' = (mc_ws m)[i := w]" "mc_boss m' = mc_boss m"
    and "mc_ndone m' = mc_ndone m \<or> mc_ndone m \<noteq> nr" "is_wait w \<Longrightarrow> mc_ndone m \<noteq> nr"
  shows "boss_ok nr m'"
proof (cases "mc_boss m")
  case (B_Join j)
  then have m: "mc_ndone m = nr" "\<forall>w\<in>set (mc_ws m). \<not> is_wait w"
    "\<forall>i<j. i < length (mc_ws m) \<longrightarrow> mc_ws m ! i = W_End"
    using assms(1) by (simp_all add: boss_ok_def)
  have "\<forall>x\<in>set (mc_ws m'). \<not> is_wait x" using m(1,2) assms(7) in_set_updD unfolding assms(4) by metis
  moreover have "\<forall>k<j. k < length (mc_ws m') \<longrightarrow> mc_ws m' ! k = W_End"
    using m(3) assms(2,3) unfolding assms(4) at_w_def by (metis length_list_update nth_list_update_neq)
  ultimately show ?thesis using B_Join m(1) assms(5,6) by (simp add: boss_ok_def)
next
  case B_Done
  then have "\<forall>w\<in>set (mc_ws m). w = W_End" using assms(1) by (simp add: boss_ok_def)
  then show ?thesis using assms(2,3) nth_mem unfolding at_w_def by blast
qed (use assms in \<open>auto simp: boss_ok_def\<close>)

lemma boss_ok_wake: "boss_ok nr m \<Longrightarrow> wake_one m m' \<Longrightarrow> boss_ok nr m'"
proof -
  assume b: "boss_ok nr m" and w: "wake_one m m'"
  show ?thesis
  proof (cases "mc_boss m = B_Wait \<and> m' = m\<lparr>mc_boss := B_Check\<rparr>")
    case True
    then show ?thesis by (simp add: boss_ok_def)
  next
    case False
    then obtain i where i: "i < length (mc_ws m)" "is_wait (mc_ws m ! i)"
        "m' = m\<lparr>mc_ws := (mc_ws m)[i := wake_w (mc_ws m ! i)]\<rparr>"
      using w by (auto simp: wake_one_def)
    then obtain c where "mc_ws m ! i = W_Wait c" by (auto simp: is_wait_iff)
    with i show ?thesis
      by (intro boss_ok_w [OF b, of i "W_Wait c" _ "W_Check c"]) (simp_all add: at_w_def)
  qed
qed

lemma boss_ok_signal: "boss_ok nr m \<Longrightarrow> cond_signal m m' \<Longrightarrow> boss_ok nr m'"
  using boss_ok_wake by (auto simp: cond_signal_def split: if_splits)

lemma boss_ok_broadcast: "boss_ok nr m \<Longrightarrow> boss_ok nr (cond_broadcast m)"
  by (cases "mc_boss m") (auto simp: boss_ok_def cond_broadcast_def wake_b_def)

lemma boss_ok_fault [simp]: "boss_ok nr (m\<lparr>mc_fault := x\<rparr>) = boss_ok nr m"
  by (cases "mc_boss m") (simp_all add: boss_ok_def)

lemma uncounted_at: "at_w m i (W_Count c) \<Longrightarrow> 1 \<le> sum_list (map uncounted_w (mc_ws m))"
  using sum_list_upd [of i "mc_ws m" uncounted_w W_End] uncounted_nonneg [of "(mc_ws m)[i := W_End]"]
  by (simp add: at_w_def)

text \<open>The queue of the client holds strings.\<close>

locale request_queue = fifo inv content room place enq deq isempty null underflow
  for inv :: "'q \<Rightarrow> bool"
    and content :: "'q \<Rightarrow> string list"
    and room :: "'q \<Rightarrow> bool"
    and place :: "'p \<Rightarrow> 'q \<Rightarrow> bool"
    and enq :: "'p \<Rightarrow> string \<Rightarrow> 'q \<Rightarrow> 'q res"
    and deq :: "'q \<Rightarrow> (string \<times> 'q) res"
    and isempty :: "'q \<Rightarrow> bool"
    and null :: 'p
    and underflow :: fault
begin

lemma mtc_conserved:
  assumes "mtc_act (fifo_ops enq deq isempty place null) reqs nr m m'" "inv (mc_queue m)" "conserved content reqs nr m" "0 \<le> nr"
  shows "inv (mc_queue m') \<and> conserved content reqs nr m'"
  using assms(1)
proof (cases rule: mtc_act.cases)
  case (boss_enq k p q')
  then have "p \<noteq> null" using enq_null by (auto simp: fifo_ops_def)
  then have q': "inv q'" "content q' = content (mc_queue m) @ [reqs k]"
    using boss_enq enq_Inr [OF assms(2)] by (auto simp: fifo_ops_def)
  then show ?thesis using boss_enq assms(3) by (auto simp: conserved_def)
next
  case (boss_sig k)
  then have "conserved content reqs nr (m\<lparr>mc_boss := B_Top (Suc k)\<rparr>)"
    using assms(3) by (simp add: conserved_def)
  moreover have "mc_queue m' = mc_queue m" using boss_sig(2) by (auto simp: cond_signal_def wake_one_def split: if_splits)
  ultimately show ?thesis using conserved_signal boss_sig(2) assms(2) by auto
next
  case (boss_all k)
  then have "k = nat nr" using assms(3,4) by (auto simp: conserved_def)
  then show ?thesis using boss_all assms by (simp add: conserved_def)
next
  case boss_bcast
  then show ?thesis using assms by (simp add: conserved_broadcast) (simp add: conserved_def cond_broadcast_def)
next
  case (w_pop i c r q')
  then have "inv q'" "content (mc_queue m) = r # content q'"
    using deq_Inr [OF assms(2)] by (auto simp: fifo_ops_def)
  then show ?thesis using w_pop by (auto intro!: conserved_w [OF assms(3), of i "W_Check c" _ "W_Sig c r"])
next
  case (w_sig i c r)
  have "conserved content reqs nr (set_w i (W_Work c r) m)"
    by (rule conserved_set_w [OF assms(3) w_sig(1)]) simp_all
  moreover have "mc_queue m' = mc_queue m" using w_sig(2) by (auto simp: cond_signal_def wake_one_def split: if_splits)
  ultimately show ?thesis using conserved_signal w_sig(2) assms(2) by auto
next
  case (w_work i c r)
  then show ?thesis
    using assms(2) by (auto intro!: conserved_w [OF assms(3), of i "W_Work c r" _ "W_Count c"])
next
  case (w_count i c)
  then show ?thesis
    using assms(2) by (auto intro!: conserved_w [OF assms(3), of i "W_Count c" _ "W_Bcast c"])
next
  case (w_bcast i c)
  have "conserved content reqs nr (set_w i (W_Top (Suc c)) m)"
    by (rule conserved_set_w [OF assms(3) w_bcast(2)]) simp_all
  then have "conserved content reqs nr m'" unfolding w_bcast(1) by (rule conserved_broadcast)
  then show ?thesis using w_bcast(1) assms(2) by (simp add: cond_broadcast_def)
qed (use assms(2,3) in \<open>auto simp: conserved_boss intro: conserved_set_w\<close>)

lemma mtc_live:
  assumes "mtc_act (fifo_ops enq deq isempty place null) reqs nr m m'" "inv (mc_queue m)" "conserved content reqs nr m"
    and "0 \<le> nr" "live content nr m" "mc_ws m \<noteq> []"
  shows "live content nr m'"
  using assms(1)
proof (cases rule: mtc_act.cases)
  case (boss_enq k p q')
  then show ?thesis using assms(5) by (auto simp: live_def)
next
  case (boss_sig k)
  then show ?thesis using live_boss_signal [OF assms(5) _ assms(6)] by blast
next
  case (boss_all k)
  then have "k = nat nr" using assms(3,4) by (auto simp: conserved_def)
  then show ?thesis using boss_all assms(5) by (auto simp: live_def)
next
  case boss_bcast
  show ?thesis unfolding boss_bcast(1)
    by (rule live_broadcast) (use assms(5) boss_bcast(2) in \<open>auto simp: live_def\<close>)
next
  case (w_top i c)
  then show ?thesis by (intro live_w [OF assms(5) w_top(2), of _ "W_Check c"]) simp_all
next
  case (w_exit i c)
  have "W_Top c \<in> set (mc_ws m)" using w_exit(2) nth_mem by (fastforce simp: at_w_def)
  then have "c + length (content (mc_queue m)) \<le> enq_count nr (mc_boss m)"
    using assms(3) by (force simp: conserved_def)
  moreover have "int (enq_count nr (mc_boss m)) \<le> nr" by (rule conserved_bound(2) [OF assms(3)])
  ultimately have "length (content (mc_queue m)) = 0" "int (enq_count nr (mc_boss m)) = nr"
    using w_exit(3) by linarith+
  then show ?thesis using w_exit by (intro live_w [OF assms(5) w_exit(2), of _ W_End]) simp_all
next
  case (w_done i c)
  then have "content (mc_queue m) = []" using isempty_iff [OF assms(2)] by (simp add: fifo_ops_def)
  moreover from this have "int (enq_count nr (mc_boss m)) = nr"
    using conserved_bound [OF assms(3)] w_done(4) uncounted_nonneg [of "mc_ws m"] by simp
  ultimately show ?thesis using w_done by (intro live_w [OF assms(5) w_done(2), of _ W_End]) simp_all
next
  case (w_wait i c)
  then have "content (mc_queue m) = []" using isempty_iff [OF assms(2)] by (simp add: fifo_ops_def)
  then show ?thesis using w_wait by (intro live_w [OF assms(5) w_wait(2), of _ "W_Wait c"]) simp_all
next
  case (w_pop i c r q')
  then have "content (mc_queue m) = r # content q'"
    using deq_Inr [OF assms(2)] by (auto simp: fifo_ops_def)
  then show ?thesis using w_pop by (intro live_w [OF assms(5) w_pop(2), of _ "W_Sig c r"]) simp_all
next
  case (w_sig i c r)
  have "live content nr (set_w i (W_Work c r) m)"
    by (intro live_w [OF assms(5) w_sig(1), of _ "W_Work c r"]) simp_all
  then show ?thesis using live_signal w_sig(2) by blast
next
  case (w_work i c r)
  then show ?thesis by (intro live_w [OF assms(5) w_work(2), of _ "W_Count c"]) simp_all
next
  case (w_count i c)
  then show ?thesis by (intro live_w [OF assms(5) w_count(2), of _ "W_Bcast c"]) simp_all
next
  case (w_bcast i c)
  have "W_Top (Suc c) \<in> set ((mc_ws m)[i := W_Top (Suc c)])"
    using w_bcast(2) by (simp add: at_w_def set_update_memI)
  then have "\<exists>w\<in>set ((mc_ws m)[i := W_Top (Suc c)]). active_w w" by force
  then show ?thesis
    unfolding w_bcast(1) using assms(5) in_set_updD [of W_End "mc_ws m" i "W_Top (Suc c)"]
    by (intro live_broadcast) (unfold live_def, auto)
qed (use assms(5) in \<open>auto simp: live_def\<close>)

lemma mtc_boss_ok:
  assumes "mtc_act (fifo_ops enq deq isempty place null) reqs nr m m'" "conserved content reqs nr m" "boss_ok nr m"
  shows "boss_ok nr m'"
  using assms(1)
proof (cases rule: mtc_act.cases)
  case (boss_sig k)
  have "boss_ok nr (m\<lparr>mc_boss := B_Top (Suc k)\<rparr>)" by (simp add: boss_ok_def)
  then show ?thesis using boss_ok_signal boss_sig(2) by blast
next
  case boss_bcast
  then show ?thesis using assms(3) by (simp add: boss_ok_def cond_broadcast_def wake_b_def)
next
  case (boss_join j)
  then show ?thesis using assms(3) by (auto simp: boss_ok_def at_w_def less_Suc_eq)
next
  case (boss_exit j)
  then show ?thesis using assms(3) by (auto simp: boss_ok_def in_set_conv_nth)
next
  case (w_top i c)
  then show ?thesis by (intro boss_ok_w [OF assms(3) w_top(2), of _ "W_Check c"]) simp_all
next
  case (w_exit i c)
  then show ?thesis by (intro boss_ok_w [OF assms(3) w_exit(2), of _ W_End]) simp_all
next
  case (w_done i c)
  then show ?thesis by (intro boss_ok_w [OF assms(3) w_done(2), of _ W_End]) simp_all
next
  case (w_wait i c)
  then show ?thesis by (intro boss_ok_w [OF assms(3) w_wait(2), of _ "W_Wait c"]) simp_all
next
  case (w_pop i c r q')
  then show ?thesis by (intro boss_ok_w [OF assms(3) w_pop(2), of _ "W_Sig c r"]) simp_all
next
  case (w_sig i c r)
  have "boss_ok nr (set_w i (W_Work c r) m)"
    by (intro boss_ok_w [OF assms(3) w_sig(1), of _ "W_Work c r"]) simp_all
  then show ?thesis using boss_ok_signal w_sig(2) by blast
next
  case (w_work i c r)
  then show ?thesis by (intro boss_ok_w [OF assms(3) w_work(2), of _ "W_Count c"]) simp_all
next
  case (w_count i c)
  have "mc_ndone m \<noteq> nr" using conserved_bound [OF assms(2)] uncounted_at [OF w_count(2)] by linarith
  then show ?thesis using w_count by (intro boss_ok_w [OF assms(3) w_count(2), of _ "W_Bcast c"]) simp_all
next
  case (w_bcast i c)
  have "boss_ok nr (set_w i (W_Top (Suc c)) m)"
    by (intro boss_ok_w [OF assms(3) w_bcast(2), of _ "W_Top (Suc c)"]) simp_all
  then show ?thesis unfolding w_bcast(1) by (rule boss_ok_broadcast)
next
  case (w_pop_fault i c e)
  then show ?thesis using assms(3) by simp
qed (use assms(3) in \<open>auto simp: boss_ok_def\<close>)

lemma mtc_workers:
  assumes "mtc_act (fifo_ops enq deq isempty place null) reqs nr m m'"
  shows "length (mc_ws m') = length (mc_ws m)"
  using assms by (cases rule: mtc_act.cases) (auto simp: cond_signal_def wake_one_def cond_broadcast_def split: if_splits)

lemma mtc_reach_inv:
  assumes "mtc_reach (fifo_ops enq deq isempty place null) reqs nr (mtc_init q n) m"
    and "inv q" "content q = []" "0 \<le> nr" "0 < n"
  shows "inv (mc_queue m) \<and> conserved content reqs nr m \<and> live content nr m \<and> boss_ok nr m \<and> length (mc_ws m) = n"
  using assms(1)
proof (induction rule: mtc_reach.induct)
  case start
  have "sum_list (map hand_w (replicate n (W_Top 0))) = {#}" "sum_list (map uncounted_w (replicate n (W_Top 0))) = 0"
    by (rule sum_list_zero, simp)+
  then show ?case
    using assms(2-5) by (simp add: mtc_init_def conserved_def live_def boss_ok_def)
next
  case (step m m')
  then have a: "mtc_act (fifo_ops enq deq isempty place null) reqs nr m m'" by (simp add: mtc_step_def)
  have "mc_ws m \<noteq> []" using step.IH assms(5) by auto
  then show ?case
    using step.IH mtc_conserved [OF a] mtc_live [OF a] mtc_boss_ok [OF a] mtc_workers [OF a] assms(4) by simp
next
  case (spurious m m')
  have "mc_queue m' = mc_queue m" "length (mc_ws m') = length (mc_ws m)"
    using spurious(3) by (auto simp: wake_one_def)
  then show ?case using spurious conserved_wake live_wake boss_ok_wake by auto
qed

text \<open>A state in which no thread can go on (all wait, or have ended) is the final one.\<close>

lemma mtc_no_deadlock:
  assumes "inv (mc_queue m)" "conserved content reqs nr m" "live content nr m" "boss_ok nr m" "mc_fault m = None"
    and "\<nexists>m'. mtc_step (fifo_ops enq deq isempty place null) reqs nr m m'"
  shows "mc_boss m = B_Done"
proof -
  let ?ops = "fifo_ops enq deq isempty place null"
  have no: "\<not> mtc_act ?ops reqs nr m m'" for m' using assms(5,6) by (simp add: mtc_step_def)
  have sig: "\<exists>m'. cond_signal x m'" for x :: "'q mtc"
  proof (cases "mc_boss x = B_Wait \<or> (\<exists>w\<in>set (mc_ws x). is_wait w)")
    case True
    then have "\<exists>m'. wake_one x m'" by (fastforce simp: wake_one_def in_set_conv_nth)
    then show ?thesis using True by (simp add: cond_signal_def)
  next
    case False
    then show ?thesis by (simp add: cond_signal_def)
  qed
  have nact: "\<not> active_w w" if "w \<in> set (mc_ws m)" for w
  proof
    assume "active_w w"
    obtain i where i: "at_w m i w" using \<open>w \<in> set (mc_ws m)\<close> by (metis at_w_def in_set_conv_nth)
    show False
    proof (cases w)
      case (W_Top c)
      then show ?thesis using no i mtc_act.w_top mtc_act.w_exit by metis
    next
      case (W_Check c)
      have e: "q_isempty ?ops = isempty" "q_deq ?ops = deq" by (simp_all add: fifo_ops_def)
      show ?thesis
      proof (cases "isempty (mc_queue m)")
        case True
        then show ?thesis using no i W_Check e mtc_act.w_done mtc_act.w_wait by metis
      next
        case False
        then obtain r q' where "deq (mc_queue m) = Inr (r, q')" using deq_nonempty [OF assms(1)] by blast
        then show ?thesis using no i W_Check e False mtc_act.w_pop by metis
      qed
    next
      case (W_Sig c r)
      then show ?thesis using no i sig mtc_act.w_sig by metis
    next
      case (W_Work c r)
      then show ?thesis using no i mtc_act.w_work by metis
    next
      case (W_Count c)
      then show ?thesis using no i mtc_act.w_count by metis
    next
      case (W_Bcast c)
      then show ?thesis using no i mtc_act.w_bcast by metis
    qed (use \<open>active_w w\<close> in auto)
  qed
  have hands: "hand_w w = {#}" "uncounted_w w = 0" if "w \<in> set (mc_ws m)" for w
    using nact [OF that] by (cases w; simp)+
  have "sum_list (map uncounted_w (mc_ws m)) = 0" "sum_list (map hand_w (mc_ws m)) = {#}"
    using hands by (simp_all add: sum_list_zero)
  note sums = this
  show ?thesis
  proof (cases "mc_boss m")
    case (B_Top k)
    have "q_malloc ?ops null (mc_queue m)" "q_enq ?ops null (reqs k) (mc_queue m) = Inl (Ub Null_Deref)"
      by (simp_all add: fifo_ops_def enq_null)
    then show ?thesis using no B_Top mtc_act.boss_long mtc_act.boss_enq_fault mtc_act.boss_all by (metis not_less)
  next
    case (B_Sig k)
    then show ?thesis using no sig mtc_act.boss_sig by metis
  next
    case B_Check
    then show ?thesis using no mtc_act.boss_wait mtc_act.boss_go by metis
  next
    case B_Bcast
    then show ?thesis using no mtc_act.boss_bcast by metis
  next
    case (B_Join j)
    show ?thesis
    proof (cases "j < length (mc_ws m)")
      case True
      then have "mc_ws m ! j \<in> set (mc_ws m)" by simp
      then have "mc_ws m ! j = W_End"
        using nact not_active_cases assms(4) B_Join unfolding boss_ok_def by fastforce
      then show ?thesis using no B_Join True mtc_act.boss_join unfolding at_w_def by metis
    next
      case False
      then show ?thesis using no B_Join mtc_act.boss_exit by metis
    qed
  next
    case B_Wait
    have "content (mc_queue m) = []" using assms(3) nact B_Wait by (auto simp: live_def)
    then have "mset (map reqs [0..<nat nr]) = mset (mc_log m)"
      using assms(2) sums B_Wait by (simp add: conserved_def)
    then have "nat nr = length (mc_log m)" by (metis diff_zero length_map length_upt size_mset)
    moreover have "int (nat nr) \<le> nr" using conserved_bound(2) [OF assms(2)] B_Wait by simp
    moreover have "int (length (mc_log m)) = mc_ndone m" using assms(2) sums by (simp add: conserved_def)
    ultimately have "mc_ndone m = nr" by linarith
    then show ?thesis using assms(3) B_Wait nact by (force simp: live_def)
  qed
qed

lemma mtc_all_done:
  assumes "conserved content reqs nr m" "boss_ok nr m" "mc_boss m = B_Done" "mc_ws m \<noteq> []" "live content nr m"
  shows "mset (mc_log m) = mset (map reqs [0..<nat nr])"
proof -
  have e: "\<forall>w\<in>set (mc_ws m). w = W_End" using assms(2,3) by (simp add: boss_ok_def)
  then have "W_End \<in> set (mc_ws m)" using assms(4) by (metis last_in_set)
  then have "content (mc_queue m) = []" using assms(5) by (simp add: live_def)
  moreover have "sum_list (map hand_w (mc_ws m)) = {#}"
    using e by (intro sum_list_zero) auto
  ultimately show ?thesis using assms(1,3) by (simp add: conserved_def)
qed

end

interpretation rq: request_queue steque_wf steque_abs steque_room steque_place steque_enqueue "steque_pop ec"
    steque_isempty None "Exit ec" for ec
  by (rule request_queue.intro, rule sq.fifo_axioms)

subsection \<open>Properties\<close>

text \<open>The queue of the program: the operations of steque.c, on the queue \<open>steque_init\<close> leaves.\<close>

definition mt_ops :: "(addr option, string, string steque) qops" where
  "mt_ops = fifo_ops steque_enqueue (steque_pop 1) steque_isempty steque_place None"

definition mt_start :: "string steque \<Rightarrow> nat \<Rightarrow> string steque mtc" where
  "mt_start q nthreads = mtc_init (steque_init q) nthreads"

definition example_paths :: "string steque" where
  "example_paths = \<lparr>nodes = Map.empty, frontp = None, backp = None, N = 0\<rparr>"

lemma mt_reach_inv:
  assumes "mtc_reach mt_ops reqs nr (mt_start q n) m" "0 \<le> nr" "0 < n"
  shows "steque_wf (mc_queue m) \<and> conserved steque_abs reqs nr m \<and> live steque_abs nr m \<and> boss_ok nr m \<and> length (mc_ws m) = n"
proof -
  have "steque_wf (steque_init q)" "steque_abs (steque_init q) = []"
    using steque_repI [OF steque_init_rep [of q]] by auto
  then show ?thesis using rq.mtc_reach_inv assms unfolding mt_ops_def mt_start_def by blast
qed

text \<open>C4. The thread pool downloads every request exactly once: for any number of threads and requests and any
  interleaving (spurious wake-ups included), when the boss has left its last loop all workers have
  ended and the downloads that were made are a permutation of the requests.\<close>

theorem mt_client_each_request_once:
  assumes "mtc_reach mt_ops reqs nr (mt_start q n) m" "0 \<le> nr" "0 < n" "mc_boss m = B_Done"
  shows "mset (mc_log m) = mset (map reqs [0..<nat nr]) \<and> (\<forall>w\<in>set (mc_ws m). w = W_End)"
proof -
  note inv = mt_reach_inv [OF assms(1-3)]
  then have "mset (mc_log m) = mset (map reqs [0..<nat nr])"
    using rq.mtc_all_done [of reqs nr m] assms(3,4) by auto
  then show ?thesis using inv assms(4) by (simp add: boss_ok_def)
qed

text \<open>A complete run with one worker and one request, as an example.\<close>

definition mt_state :: "string steque \<Rightarrow> int \<Rightarrow> boss \<Rightarrow> worker \<Rightarrow> string list \<Rightarrow> string steque mtc" where
  "mt_state q nd b w log = \<lparr>mc_queue = q, mc_ndone = nd, mc_boss = b, mc_ws = [w], mc_log = log, mc_fault = None\<rparr>"

definition mt_example_run :: "string steque mtc \<Rightarrow> bool" where
  "mt_example_run m \<longleftrightarrow> mtc_reach mt_ops (\<lambda>k. ''/a'') 1 (mt_start example_paths 1) m"

lemma mt_example_go: "mt_example_run m \<Longrightarrow> mc_fault m = None \<Longrightarrow> mtc_act mt_ops (\<lambda>k. ''/a'') 1 m m' \<Longrightarrow> mt_example_run m'"
  unfolding mt_example_run_def using mtc_reach.step [of mt_ops] by (simp add: mtc_step_def)

lemmas mt_example_simps = mt_state_def set_w_def at_w_def cond_signal_def cond_broadcast_def wake_b_def

lemma mt_example_done: "\<exists>q. mt_example_run (mt_state q 1 B_Done W_End [''/a''])"
proof -
  have wf: "steque_wf (steque_init example_paths)" "steque_abs (steque_init example_paths) = []"
    using steque_repI [OF steque_init_rep [of example_paths]] by auto
  have pl: "steque_place (Some 0) (steque_init example_paths)"
    by (simp add: steque_place_def steque_init_def example_paths_def)
  have rm: "steque_room (steque_init example_paths)" by (simp add: steque_room_def steque_init_def INT_MAX_def)
  obtain q1 q2 where q: "steque_enqueue (Some 0) ''/a'' (steque_init example_paths) = Inr q1"
    "steque_pop 1 q1 = Inr (''/a'', q2)" "steque_abs q2 = []"
    using sq.enq_deq_singleton [OF wf pl rm] by blast
  have q1: "\<not> steque_isempty q1" using sq.enq_Inr [OF wf(1) pl q(1)] sq.isempty_iff [of q1] by auto
  note go = mt_example_go and sm = mt_example_simps
  have "mt_example_run (mt_state (steque_init example_paths) 0 (B_Top 0) (W_Top 0) [])"
    using mtc_reach.start by (simp add: mt_example_run_def mt_start_def mtc_init_def mt_state_def)
  then have "mt_example_run (mt_state q1 0 (B_Sig 0) (W_Top 0) [])"
    by (rule go) (use mtc_act.boss_enq [of "mt_state (steque_init example_paths) 0 (B_Top 0) (W_Top 0) []" 0 1
        "\<lambda>k. ''/a''" mt_ops "Some 0" q1] pl q(1) in \<open>simp_all add: sm mt_ops_def fifo_ops_def\<close>)
  then have "mt_example_run (mt_state q1 0 (B_Top 1) (W_Top 0) [])"
    by (rule go) (use mtc_act.boss_sig [of "mt_state q1 0 (B_Sig 0) (W_Top 0) []" 0
        "mt_state q1 0 (B_Top 1) (W_Top 0) []"] in \<open>simp_all add: sm\<close>)
  then have "mt_example_run (mt_state q1 0 B_Check (W_Top 0) [])"
    by (rule go) (use mtc_act.boss_all [of "mt_state q1 0 (B_Top 1) (W_Top 0) []" 1 1] in \<open>simp_all add: sm\<close>)
  then have "mt_example_run (mt_state q1 0 B_Check (W_Check 0) [])"
    by (rule go) (use mtc_act.w_top [of "mt_state q1 0 B_Check (W_Top 0) []" 0 0 1] in \<open>simp_all add: sm\<close>)
  then have "mt_example_run (mt_state q2 0 B_Check (W_Sig 0 ''/a'') [])"
    by (rule go) (use mtc_act.w_pop [of "mt_state q1 0 B_Check (W_Check 0) []" 0 0 mt_ops "''/a''" q2] q(2) q1
        in \<open>simp_all add: sm mt_ops_def fifo_ops_def\<close>)
  then have "mt_example_run (mt_state q2 0 B_Check (W_Work 0 ''/a'') [])"
    by (rule go) (use mtc_act.w_sig [of "mt_state q2 0 B_Check (W_Sig 0 ''/a'') []" 0 0 "''/a''"
        "mt_state q2 0 B_Check (W_Work 0 ''/a'') []"] in \<open>simp_all add: sm\<close>)
  then have "mt_example_run (mt_state q2 0 B_Check (W_Count 0) [''/a''])"
    by (rule go) (use mtc_act.w_work [of "mt_state q2 0 B_Check (W_Work 0 ''/a'') []" 0 0 "''/a''"] in \<open>simp_all add: sm\<close>)
  then have "mt_example_run (mt_state q2 1 B_Check (W_Bcast 0) [''/a''])"
    by (rule go) (use mtc_act.w_count [of "mt_state q2 0 B_Check (W_Count 0) [''/a'']" 0 0] in \<open>simp_all add: sm\<close>)
  then have "mt_example_run (mt_state q2 1 B_Check (W_Top 1) [''/a''])"
    by (rule go) (use mtc_act.w_bcast [of "mt_state q2 1 B_Check (W_Bcast 0) [''/a'']" 0 0] in \<open>simp_all add: sm\<close>)
  then have "mt_example_run (mt_state q2 1 B_Check W_End [''/a''])"
    by (rule go) (use mtc_act.w_exit [of "mt_state q2 1 B_Check (W_Top 1) [''/a'']" 0 1 1] in \<open>simp_all add: sm\<close>)
  then have "mt_example_run (mt_state q2 1 B_Bcast W_End [''/a''])"
    by (rule go) (use mtc_act.boss_go [of "mt_state q2 1 B_Check W_End [''/a'']" 1] in \<open>simp_all add: sm\<close>)
  then have "mt_example_run (mt_state q2 1 (B_Join 0) W_End [''/a''])"
    by (rule go) (use mtc_act.boss_bcast [of "mt_state q2 1 B_Bcast W_End [''/a'']"] in \<open>simp_all add: sm\<close>)
  then have "mt_example_run (mt_state q2 1 (B_Join 1) W_End [''/a''])"
    by (rule go) (use mtc_act.boss_join [of "mt_state q2 1 (B_Join 0) W_End [''/a'']" 0] in \<open>simp_all add: sm\<close>)
  then have "mt_example_run (mt_state q2 1 B_Done W_End [''/a''])"
    by (rule go) (use mtc_act.boss_exit [of "mt_state q2 1 (B_Join 1) W_End [''/a'']" 1] in \<open>simp_all add: sm\<close>)
  then show ?thesis by blast
qed

theorem mt_client_each_request_once_witness:
  "\<exists>m. mtc_reach mt_ops (\<lambda>k. ''/a'') 1 (mt_start example_paths 1) m \<and> mc_boss m = B_Done \<and>
    mset (mc_log m) = {#''/a''#}"
proof -
  obtain q where "mtc_reach mt_ops (\<lambda>k. ''/a'') 1 (mt_start example_paths 1) (mt_state q 1 B_Done W_End [''/a''])"
    using mt_example_done by (auto simp: mt_example_run_def)
  from this mt_client_each_request_once [OF this] show ?thesis by (auto simp: mt_state_def)
qed

text \<open>C5. The thread pool does not deadlock: in every reachable state in which the process has not been ended
  and the boss has not finished, some thread can take a step without a spurious wake-up.\<close>

theorem mt_client_no_deadlock:
  assumes "mtc_reach mt_ops reqs nr (mt_start q n) m" "0 \<le> nr" "0 < n" "mc_fault m = None" "mc_boss m \<noteq> B_Done"
  shows "\<exists>m'. mtc_step mt_ops reqs nr m m'"
  using rq.mtc_no_deadlock [of m reqs nr 1] mt_reach_inv [OF assms(1-3)] assms(4,5) unfolding mt_ops_def by blast

theorem mt_client_no_deadlock_witness:
  "\<exists>m'. mtc_step mt_ops (\<lambda>k. ''/a'') 5 (mt_start example_paths 3) m'"
  by (rule mt_client_no_deadlock [OF mtc_reach.start]) (simp_all add: mt_start_def mtc_init_def)

definition idle_w :: "worker \<Rightarrow> bool" where
  "idle_w w \<longleftrightarrow> w = W_Top 0 \<or> w = W_End"

definition no_work :: "'q mtc \<Rightarrow> bool" where
  "no_work m \<longleftrightarrow> mc_boss m \<in> {B_Top 0, B_Check, B_Wait} \<and> mc_ndone m = 0 \<and> (\<forall>w\<in>set (mc_ws m). idle_w w)"

lemma no_work_at: "no_work m \<Longrightarrow> at_w m i w \<Longrightarrow> idle_w w"
  by (auto simp: no_work_def at_w_def)

lemma no_work_act:
  assumes "mtc_act ops reqs nr m m'" "nr < 0" "no_work m"
  shows "no_work m' \<and> mc_log m' = mc_log m"
  using assms(1)
proof (cases rule: mtc_act.cases)
  case (w_exit i c)
  then show ?thesis using assms(3) in_set_updD [of _ "mc_ws m" i W_End] by (auto simp: no_work_def idle_w_def)
qed (use assms(2,3) no_work_at [OF assms(3)] in \<open>auto simp: no_work_def idle_w_def\<close>)

text \<open>The number of requests is not checked: with a negative \<open>-r\<close> the boss waits for a count that is
  never reached, and the program does not end.\<close>

theorem mt_client_negative_requests_hang:
  assumes "mtc_reach ops reqs nr (mtc_init q n) m" "nr < 0"
  shows "mc_boss m \<in> {B_Top 0, B_Check, B_Wait} \<and> mc_log m = []"
proof -
  have "no_work m \<and> mc_log m = []"
    using assms(1)
  proof (induction rule: mtc_reach.induct)
    case start
    then show ?case by (simp add: mtc_init_def no_work_def idle_w_def)
  next
    case (step m m')
    then have a: "mtc_act ops reqs nr m m'" by (simp add: mtc_step_def)
    then show ?case using no_work_act [OF a assms(2)] step.IH by simp
  next
    case (spurious m m')
    have "\<not> is_wait w" if "w \<in> set (mc_ws m)" for w
      using spurious.IH that by (auto simp: no_work_def idle_w_def)
    then have "m' = m\<lparr>mc_boss := B_Check\<rparr>" using spurious(3) by (auto simp: wake_one_def)
    then show ?case using spurious.IH by (simp add: no_work_def)
  qed
  then show ?thesis by (simp add: no_work_def)
qed

theorem mt_client_negative_requests_hang_witness:
  "mc_boss (mt_start example_paths 2) \<in> {B_Top 0, B_Check, B_Wait} \<and> mc_log (mt_start example_paths 2) = []"
  using mt_client_negative_requests_hang [OF mtc_reach.start, of "-1" "steque_init example_paths" 2]
  by (simp add: mt_start_def)

end
