(* ===== verification/MTServer.thy ===== *)
theory MTServer
  imports Content GFIO Files MTClient
begin

section \<open>The multithreaded server (pr1/mtgf: gfserver_main.c, handler.c)\<close>

text \<open>
  The library calls \<open>gfs_handler\<close> for every request; it puts the request into a queue, and worker threads
  take requests out and answer them.  The library is an object file there, so its functions are
  arguments, with the contract of the locale \<open>gf_io\<close>.  \<open>files fd\<close> is the file behind a descriptor and
  \<open>fsz\<close> is \<open>fstat\<close>'s size (\<open>None\<close> when it fails).  The path of a request is a pointer into the library's
  buffer that is not copied; the model takes it to stay as it was when the request was queued.
\<close>

subsection \<open>Options\<close>

record mts_opts =
  so_nthreads :: int
  so_port :: ushort
  so_content :: "string option"
  so_delay :: size_t

definition mts_default :: mts_opts where
  "mts_default = \<lparr>so_nthreads = 20, so_port = 10880, so_content = Some ''content.txt'', so_delay = 0\<rparr>"

definition mts_option :: "mts_opts \<Rightarrow> char \<Rightarrow> string option \<Rightarrow> mts_opts res" where
  "mts_option o1 c arg =
    (if c = CHR ''h'' then Inl (Exit 0)
     else if c = CHR ''p'' then bindr (atoi_arg arg) (\<lambda>n. Inr (o1\<lparr>so_port := to_ushort n\<rparr>))
     else if c = CHR ''t'' then bindr (atoi_arg arg) (\<lambda>n. Inr (o1\<lparr>so_nthreads := n\<rparr>))
     else if c = CHR ''m'' then Inr (o1\<lparr>so_content := arg\<rparr>)
     else if c = CHR ''d'' then bindr (atoi_arg arg) (\<lambda>n. Inr (o1\<lparr>so_delay := size_of_int n\<rparr>))
     else Inl (Exit 1))"

text \<open>The delay is unsigned, so a negative one is too large; line 101 is the exit status.\<close>

definition mts_setup :: "opt list \<Rightarrow> mts_opts res" where
  "mts_setup args =
    bindr (getopt_loop mts_option mts_default args) (\<lambda>o1.
      let o2 = (if so_nthreads o1 < 1 then o1\<lparr>so_nthreads := 1\<rparr> else o1)
      in if so_delay o2 > 5000000 then Inl (Exit 101) else Inr o2)"

subsection \<open>A request in a worker\<close>

text \<open>
  The do-while loop.  \<open>bts_read\<close>, \<open>bts_sent\<close> and \<open>total_bts_sent\<close> are \<open>size_t\<close>, so a failed \<open>pread\<close> (-1) passes
  the test and becomes the length of the send.  \<open>None\<close>: not finished after this many rounds.
\<close>

fun mts_send_loop :: "nat \<Rightarrow> 's body_fn \<Rightarrow> size_t \<Rightarrow> size_t \<Rightarrow> rfile \<Rightarrow> 's \<Rightarrow> 's res option" where
  "mts_send_loop 0 put file_len tot f s = None"
| "mts_send_loop (Suc n) put file_len tot f s =
    (case fread 512 (f\<lparr>foff := unat tot\<rparr>) of (r, d, f') \<Rightarrow>
       let bts_read = size_of_int r in
       if \<not> bts_read > 0 then Some (Inr s)
       else if 512 < unat bts_read then Some (Inl (Ub Out_Of_Bounds))
       else case put d s of (w, s') \<Rightarrow>
         let tot' = tot + size_of_int w in
         if file_len > tot' then mts_send_loop n put file_len tot' f' s' else Some (Inr s'))"

text \<open>
  One turn of the worker after it has taken a request; the flag is false when it leaves its loop.  On the path where \<open>fstat\<close>
  fails the code also closes the descriptor; \<open>fsz\<close>, what \<open>fstat\<close> answers, is the same function of the descriptor before and after,
  as it fails for a closed descriptor too (until \<open>open\<close> or \<open>accept\<close> gives its number out again).
\<close>

definition mts_serve ::
  "nat \<Rightarrow> 's body_fn \<Rightarrow> 's hdr_fn \<Rightarrow> entry list \<Rightarrow> (int \<Rightarrow> rfile) \<Rightarrow> (int \<Rightarrow> size_t option) \<Rightarrow> string \<Rightarrow> 's \<Rightarrow>
   (bool \<times> 's) res option" where
  "mts_serve fuel put puthdr tab files fsz path s =
    (case mt_content_get tab path of Inl e \<Rightarrow> Some (Inl e)
     | Inr fd \<Rightarrow>
       if fd = -1 then Some (Inr (False, snd (puthdr S_GF_FILE_NOT_FOUND 0 s)))
       else case fsz fd of
         None \<Rightarrow> Some (Inr (False, snd (puthdr S_GF_ERROR 0 s)))
       | Some file_len \<Rightarrow>
         map_option (\<lambda>r. bindr r (\<lambda>s'. Inr (True, s')))
           (mts_send_loop fuel put file_len 0 (files fd) (snd (puthdr S_GF_OK file_len s))))"

subsection \<open>The pool\<close>

text \<open>
  The queue, the workers that wait for a request or are about to, the requests being answered, and
  what has been answered, with the flag of \<open>mts_serve\<close>.  \<open>keeps\<close> says for which requests it is true.
\<close>

record 'q mts =
  ms_queue :: 'q
  ms_workers :: nat
  ms_busy :: "string list"
  ms_log :: "(string \<times> bool) list"

definition mts_init :: "'q \<Rightarrow> nat \<Rightarrow> 'q mts" where
  "mts_init q n = \<lparr>ms_queue = q, ms_workers = n, ms_busy = [], ms_log = []\<rparr>"

text \<open>\<open>gfs_handler\<close>: under the mutex, one step.  The queue holds the library's pointer to the path, not a copy; the string is
  taken to stay what it was until the worker has read it, which nothing in the code ensures.\<close>

definition gfs_handler :: "('p, string, 'q) qops \<Rightarrow> 'p \<Rightarrow> string \<Rightarrow> 'q mts \<Rightarrow> 'q mts res" where
  "gfs_handler ops p path m = bindr (q_enq ops p path (ms_queue m)) (\<lambda>q'. Inr (m\<lparr>ms_queue := q'\<rparr>))"

text \<open>A worker goes on exactly after the requests for which \<open>mts_serve\<close> says so.\<close>

definition mts_keeps :: "(string \<Rightarrow> (bool \<times> 's) res option) \<Rightarrow> string \<Rightarrow> bool" where
  "mts_keeps serve path = (case serve path of Some (Inr (ok, s)) \<Rightarrow> ok | _ \<Rightarrow> False)"

inductive mts_step :: "('p, string, 'q) qops \<Rightarrow> (string \<Rightarrow> bool) \<Rightarrow> 'q mts \<Rightarrow> 'q mts \<Rightarrow> bool" for ops keeps where
  handle: "q_malloc ops p (ms_queue m) \<Longrightarrow> gfs_handler ops p path m = Inr m' \<Longrightarrow> mts_step ops keeps m m'"
| take: "0 < ms_workers m \<Longrightarrow> \<not> q_isempty ops (ms_queue m) \<Longrightarrow> q_deq ops (ms_queue m) = Inr (r, q') \<Longrightarrow>
    mts_step ops keeps m (m\<lparr>ms_queue := q', ms_workers := ms_workers m - 1, ms_busy := r # ms_busy m\<rparr>)"
| finish: "ms_busy m = us @ r # vs \<Longrightarrow>
    mts_step ops keeps m (m\<lparr>ms_busy := us @ vs, ms_log := (r, keeps r) # ms_log m,
      ms_workers := (if keeps r then ms_workers m + 1 else ms_workers m)\<rparr>)"

inductive mts_reach :: "('p, string, 'q) qops \<Rightarrow> (string \<Rightarrow> bool) \<Rightarrow> 'q mts \<Rightarrow> 'q mts \<Rightarrow> bool" for ops keeps m0 where
  start: "mts_reach ops keeps m0 m0"
| step: "mts_reach ops keeps m0 m \<Longrightarrow> mts_step ops keeps m m' \<Longrightarrow> mts_reach ops keeps m0 m'"

inductive_cases mts_stepE: "mts_step ops keeps m m'"

subsection \<open>Lemmas\<close>

text \<open>Workers that left their loop do not come back.\<close>

definition misses :: "'q mts \<Rightarrow> nat" where
  "misses m = length (filter (\<lambda>(r, ok). \<not> ok) (ms_log m))"

lemma mts_step_workers:
  assumes "mts_step ops keeps m m'" "ms_workers m + length (ms_busy m) + misses m = n"
  shows "ms_workers m' + length (ms_busy m') + misses m' = n"
  using assms by (elim mts_stepE) (auto simp: gfs_handler_def misses_def res_simps)

lemma mts_reach_workers:
  assumes "mts_reach ops keeps (mts_init q n) m"
  shows "ms_workers m + length (ms_busy m) + misses m = n"
  using assms
proof (induction rule: mts_reach.induct)
  case start
  then show ?case by (simp add: mts_init_def misses_def)
next
  case (step m m')
  then show ?case using mts_step_workers by blast
qed

lemma mts_stuck_log:
  assumes "mts_reach ops keeps m0 m" "ms_workers m0 = 0" "ms_busy m0 = []"
  shows "ms_workers m = 0 \<and> ms_busy m = [] \<and> ms_log m = ms_log m0"
  using assms(1)
proof (induction rule: mts_reach.induct)
  case (step m m')
  show ?case using step(2) step.IH by (elim mts_stepE) (auto simp: gfs_handler_def res_simps)
qed (use assms in simp)

context gf_io
begin

lemma mts_send_loop_full:
  assumes "healthy s" "rd_good f" "k < length (fbytes f)" "length (fbytes f) < 2 ^ 63" "length (fbytes f) - k < n"
  shows "\<exists>s'. mts_send_loop n put (of_nat (length (fbytes f))) (of_nat k) f s = Some (Inr s') \<and>
    sent s' = sent s @ drop k (fbytes f) \<and> healthy s'"
  using assms
proof (induction n arbitrary: k f s)
  case (Suc n)
  have w: "unat (of_nat j :: size_t) = j" if "j < 2 ^ 63" for j
    using that by (simp add: unat_of_nat take_bit_nat_eq_self_iff)
  have k: "unat (of_nat k :: size_t) = k" using Suc.prems(3,4) by (intro w) linarith
  let ?f = "f\<lparr>foff := k\<rparr>"
  obtain r d f' where rd: "fread 512 ?f = (r, d, f')" by (cases "fread 512 ?f")
  have g: "0 < r" "rd_good f'" using fread_good [OF rd] Suc.prems(2,3) by (simp_all add: rd_good_def)
  then have d: "r = int (length d)" "length d \<le> 512" "d = take (length d) (drop k (fbytes f))" "fbytes f' = fbytes f"
    using fread_cases [OF rd] by auto
  have dl: "length d \<le> length (fbytes f) - k" using d(3) by (metis length_drop length_take min.cobounded1 min.commute)
  have sz: "unat (size_of_int r) = length d" "size_of_int r > 0"
    using d(1,2) g(1) w [of "length d"] by (simp_all add: size_of_int_def word_less_nat_alt)
  obtain s1 where s1: "put d s = (int (length d), s1)" "sent s1 = sent s @ d" "healthy s1"
    using put_ok [OF Suc.prems(1)] by blast
  have tot: "of_nat k + size_of_int (int (length d)) = (of_nat (k + length d) :: size_t)" by (simp add: size_of_int_def)
  have un: "mts_send_loop (Suc n) put (of_nat (length (fbytes f))) (of_nat k) f s =
      (if of_nat (length (fbytes f)) > (of_nat (k + length d) :: size_t)
       then mts_send_loop n put (of_nat (length (fbytes f))) (of_nat (k + length d)) f' s1 else Some (Inr s1))"
    using rd k sz d(2) s1(1) tot by (simp add: Let_def)
  have le: "k + length d \<le> length (fbytes f)" using dl Suc.prems(3) by linarith
  then have cmp: "of_nat (length (fbytes f)) > (of_nat (k + length d) :: size_t) \<longleftrightarrow> k + length d < length (fbytes f)"
    using w [of "k + length d"] w [of "length (fbytes f)"] Suc.prems(4) by (simp add: word_less_nat_alt)
  have eq: "d @ drop (k + length d) (fbytes f) = drop k (fbytes f)"
    using d(3) by (metis append_take_drop_id drop_drop add.commute)
  show ?case
  proof (cases "k + length d < length (fbytes f)")
    case True
    have "0 < length d" using g(1) d(1) by linarith
    then have "length (fbytes f') - (k + length d) < n" using Suc.prems(5) True unfolding d(4) by linarith
    then obtain s' where "mts_send_loop n put (of_nat (length (fbytes f))) (of_nat (k + length d)) f' s1 = Some (Inr s')"
      "sent s' = sent s1 @ drop (k + length d) (fbytes f)" "healthy s'"
      using Suc.IH [OF s1(3) g(2), of "k + length d"] True Suc.prems(4) d(4) by auto
    then show ?thesis using un cmp True s1(2) eq by (simp add: append_assoc)
  next
    case False
    then have "drop (k + length d) (fbytes f) = []" by simp
    then show ?thesis using un cmp False s1(2,3) eq by (metis append_Nil2)
  qed
qed simp

lemma mts_serve_found:
  assumes "healthy s" "mt_content_get tab path = Inr fd" "fd \<noteq> -1" "fsz fd = Some (of_nat (length (fbytes (files fd))))"
    and "rd_good (files fd)" "fbytes (files fd) \<noteq> []" "length (fbytes (files fd)) < 2 ^ 63" "length (fbytes (files fd)) < n"
  shows "\<exists>s'. mts_serve n put puthdr tab files fsz path s = Some (Inr (True, s')) \<and>
    sent s' = sent s @ hdr_text S_GF_OK (of_nat (length (fbytes (files fd)))) @ fbytes (files fd)"
proof -
  let ?len = "of_nat (length (fbytes (files fd))) :: size_t"
  obtain s1 where s1: "snd (puthdr S_GF_OK ?len s) = s1" "sent s1 = sent s @ hdr_text S_GF_OK ?len" "healthy s1"
    using puthdr_ok [OF assms(1)] by (metis snd_conv)
  obtain s' where "mts_send_loop n put ?len 0 (files fd) s1 = Some (Inr s')" "sent s' = sent s1 @ fbytes (files fd)"
    using mts_send_loop_full [OF s1(3) assms(5), of 0 n] assms(6-8) by auto
  then show ?thesis using assms(2-4) s1 by (simp add: mts_serve_def)
qed

end

lemma mts_send_loop_stalled:
  assumes "\<And>d s. \<exists>s'. put d s = (0, s')" "tot < file_len" "rdplan f = []" "unat tot < length (fbytes f)"
  shows "mts_send_loop n put file_len tot f s = None"
  using assms(3,4)
proof (induction n arbitrary: f s)
  case (Suc n)
  let ?d = "take 512 (drop (unat tot) (fbytes f))"
  obtain s' where s': "put ?d s = (0, s')" using assms(1) by blast
  have len: "0 < length ?d" "length ?d \<le> 512" using Suc.prems(2) by auto
  then have "unat (of_nat (length ?d) :: size_t) = length ?d" by (simp add: unat_of_nat take_bit_nat_eq_self_iff)
  then have sz: "size_of_int (int (length ?d)) > 0" "unat (size_of_int (int (length ?d))) \<le> 512"
    using len by (simp_all add: size_of_int_def word_less_nat_alt del: length_take)
  have "fread 512 (f\<lparr>foff := unat tot\<rparr>) = (int (length ?d), ?d, f\<lparr>foff := unat tot + length ?d\<rparr>)"
    using Suc.prems(1) by (simp add: fread_def Let_def del: length_take)
  then show ?case
    using sz s' assms(2) Suc.IH [of "f\<lparr>foff := unat tot + length ?d\<rparr>" s'] Suc.prems
    by (simp add: Let_def size_of_int_def not_le del: length_take)
qed simp

subsection \<open>Properties\<close>

definition example_table :: "entry list" where
  "example_table = [\<lparr>fildes = 3, key = ''/a''\<rparr>]"

lemma example_get: "mt_content_get example_table ''/a'' = Inr 3" "mt_content_get example_table ''/b'' = Inr (-1)"
  by (simp_all add: mt_content_get_def example_table_def bsearch.simps Let_def res_simps)

definition example_source :: rfile where
  "example_source = \<lparr>fbytes = ''text'', foff = 0, rdplan = []\<rparr>"

text \<open>A worker that takes a request for a file of the table, over the Getfile library and whatever pieces
  \<open>pread\<close> and \<open>send\<close> work in, sends the header with the size and then exactly the bytes of the
  file, ends its loop, and goes on to the next request.\<close>

theorem mt_server_sends_file:
  assumes "gflib_healthy c" "mt_content_get tab path = Inr fd" "fd \<noteq> -1"
    and "fsz fd = Some (of_nat (length (fbytes (files fd))))" "rd_good (files fd)" "fbytes (files fd) \<noteq> []"
    and "length (fbytes (files fd)) < 2 ^ 63" "length (fbytes (files fd)) < n"
  shows "\<exists>c'. mts_serve n gflib_put gflib_puthdr tab files fsz path c = Some (Inr (True, c')) \<and>
    tx (snd c') = tx (snd c) @ hdr_ok (of_nat (length (fbytes (files fd)))) @ fbytes (files fd)"
  using gflib.mts_serve_found [of c tab path fd fsz files n] assms
  by (simp add: gflib_sent_def gflib_hdr_def gf_codes)

theorem mt_server_sends_file_witness:
  "\<exists>c'. mts_serve 9 gflib_put gflib_puthdr example_table (\<lambda>_. \<lparr>fbytes = ''text'', foff = 0, rdplan = [3]\<rparr>)
      (\<lambda>_. Some (of_nat (length ''text''))) ''/a'' (\<lparr>client_socket_fd = 5, ctx_file_len = 0\<rparr>, \<lparr>rx = [], tx = [], txplan = [70]\<rparr>) =
      Some (Inr (True, c')) \<and>
    tx (snd c') = tx (snd (\<lparr>client_socket_fd = 5, ctx_file_len = 0\<rparr>, \<lparr>rx = [], tx = [], txplan = [70]\<rparr>)) @
      hdr_ok (of_nat (length (fbytes \<lparr>fbytes = ''text'', foff = 0, rdplan = [3]\<rparr>))) @ fbytes \<lparr>fbytes = ''text'', foff = 0, rdplan = [3]\<rparr>"
  by (rule mt_server_sends_file [OF _ example_get(1)]) (simp_all add: gflib_healthy_def rd_good_def)

text \<open>C29. The pool loses a worker with every request for a file that is not in the table.  For any \<open>n\<close> workers,
  with the queue of steque.c: the worker that answers such a request leaves its loop; at most \<open>n\<close> of
  them are ever answered, and after \<open>n\<close> of them no request of any kind is answered any more.\<close>

theorem mt_server_pool_dies:
  assumes "mts_reach mt_ops (mts_keeps (\<lambda>p. mts_serve fuel put puthdr tab files fsz p s)) (mts_init (steque_init q) n) m"
  shows "(mt_content_get tab path = Inr (-1) \<longrightarrow>
      \<not> mts_keeps (\<lambda>p. mts_serve fuel put puthdr tab files fsz p s) path) \<and>
    misses m \<le> n \<and>
    (misses m = n \<longrightarrow> (\<forall>m'. mts_reach mt_ops (mts_keeps (\<lambda>p. mts_serve fuel put puthdr tab files fsz p s)) m m' \<longrightarrow>
      ms_log m' = ms_log m))"
  using mts_reach_workers [OF assms] mts_stuck_log [of mt_ops _ m] by (auto simp: mts_keeps_def mts_serve_def)

lemma mt_server_pool_dies_run:
  "\<exists>m. mts_reach mt_ops keeps (mts_init (steque_init example_paths) 1) m \<and> ms_log m = [(''/b'', keeps ''/b'')]"
proof -
  have wf: "steque_wf (steque_init example_paths)" "steque_abs (steque_init example_paths) = []"
    using steque_repI [OF steque_init_rep [of example_paths]] by auto
  have pl: "steque_place (Some 0) (steque_init example_paths)" "steque_room (steque_init example_paths)"
    by (simp_all add: steque_place_def steque_room_def steque_init_def example_paths_def INT_MAX_def)
  obtain q1 q2 where q: "steque_enqueue (Some 0) ''/b'' (steque_init example_paths) = Inr q1"
    "steque_pop 1 q1 = Inr (''/b'', q2)"
    using sq.enq_deq_singleton [OF wf pl] by blast
  have q1: "\<not> steque_isempty q1" using sq.enq_Inr [OF wf(1) pl(1) q(1)] sq.isempty_iff [of q1] by auto
  let ?m0 = "mts_init (steque_init example_paths) 1" and ?ops = "mt_ops"
  have "mts_reach ?ops keeps ?m0 (\<lparr>ms_queue = q1, ms_workers = 1, ms_busy = [], ms_log = []\<rparr>)"
    using mts_reach.step [OF mts_reach.start mts_step.handle [of ?ops "Some 0" ?m0 "''/b''"]] pl(1) q(1)
    by (simp add: mts_init_def mt_ops_def fifo_ops_def gfs_handler_def)
  then have "mts_reach ?ops keeps ?m0 (\<lparr>ms_queue = q2, ms_workers = 0, ms_busy = [''/b''], ms_log = []\<rparr>)"
    by (rule mts_reach.step)
      (use mts_step.take [of "\<lparr>ms_queue = q1, ms_workers = 1, ms_busy = [], ms_log = []\<rparr>" ?ops "''/b''" q2 keeps] q(2) q1
        in \<open>simp add: mt_ops_def fifo_ops_def\<close>)
  then have "mts_reach ?ops keeps ?m0 (\<lparr>ms_queue = q2, ms_workers = (if keeps ''/b'' then 1 else 0), ms_busy = [], ms_log = [(''/b'', keeps ''/b'')]\<rparr>)"
    by (rule mts_reach.step)
      (use mts_step.finish [of "\<lparr>ms_queue = q2, ms_workers = 0, ms_busy = [''/b''], ms_log = []\<rparr>" "[]" "''/b''" "[]" ?ops keeps]
        in \<open>cases "keeps ''/b''"; simp\<close>)
  then show ?thesis by force
qed

theorem mt_server_pool_dies_witness:
  "\<exists>m. misses m = 1 \<and> (\<forall>m'. mts_reach mt_ops (mts_keeps (\<lambda>p. mts_serve 9 (\<lambda>d s. (int (length d), s @ d)) (\<lambda>st n s. (0, s))
      example_table (\<lambda>_. example_source) (\<lambda>_. None) p [])) m m' \<longrightarrow> ms_log m' = ms_log m)"
proof -
  let ?k = "mts_keeps (\<lambda>p. mts_serve 9 (\<lambda>d s. (int (length d), s @ d)) (\<lambda>st n s. (0, s))
      example_table (\<lambda>_. example_source) (\<lambda>_. None) p [])"
  obtain m where m: "mts_reach mt_ops ?k (mts_init (steque_init example_paths) 1) m" "ms_log m = [(''/b'', ?k ''/b'')]"
    using mt_server_pool_dies_run by blast
  note t = mt_server_pool_dies [OF m(1), of "''/b''"]
  have "misses m = 1" using t m(2) example_get(2) by (simp add: misses_def)
  then show ?thesis using t by blast
qed

text \<open>When the peer is gone and the library's \<open>gfs_send\<close> takes nothing, the worker sends the same block
  again and again and never ends the request.\<close>

theorem mt_server_worker_spins:
  assumes "\<And>d s. \<exists>s'. put d s = (0, s')" "mt_content_get tab path = Inr fd" "fd \<noteq> -1"
    and "fsz fd = Some file_len" "0 < file_len" "fbytes (files fd) \<noteq> []" "rdplan (files fd) = []"
  shows "mts_serve n put puthdr tab files fsz path s = None"
  using mts_send_loop_stalled [of put 0 file_len "files fd" n] assms by (simp add: mts_serve_def)

theorem mt_server_worker_spins_witness:
  "mts_serve 100 (\<lambda>d s. (0, s)) (\<lambda>st n s. (0, s)) example_table (\<lambda>_. example_source) (\<lambda>_. Some 5) ''/a'' () = None"
  by (rule mt_server_worker_spins [OF _ example_get(1), where file_len = 5]) (simp_all add: example_source_def)

end
