(* ===== verification/Proxy.thy ===== *)
theory Proxy
  imports GFIO Files
begin

section \<open>The proxy's request handlers (pr3/server: handle_with_file.c, handle_with_curl.c)\<close>

text \<open>
  Each handler serves one request through \<open>gfs_sendheader\<close> and \<open>gfs_send\<close>, which are arguments (their
  contract is the locale \<open>gf_io\<close>).  Also arguments are the results of \<open>open\<close> and \<open>fstat\<close>, and libcurl,
  which is third-party code: \<open>curl_easy_perform\<close> is a function that may call the write callback, with
  its result code, response code and content length.
\<close>

definition SERVER_FAILURE :: int where "SERVER_FAILURE = -1"
definition ENOENT :: int where "ENOENT = 2"

text \<open>\<open>strncpy(buf, a, n); strncat(buf, b, n)\<close> into an array of \<open>n\<close> bytes.\<close>

definition join_path :: "nat \<Rightarrow> string \<Rightarrow> string \<Rightarrow> string res" where
  "join_path n a b =
    (if n \<le> length a then Inl (Ub Out_Of_Bounds)
     else if n \<le> length a + min (length b) n then Inl (Ub Out_Of_Bounds)
     else Inr (a @ take n b))"

subsection \<open>\<open>handle_with_file\<close>\<close>

text \<open>
  The loop that sends the file.  Its counters are \<open>size_t\<close>; they are natural numbers here, which is the same: the count
  is less than the length of the file before a round, which sends at most 1219 bytes more, and \<open>st_size\<close> is an \<open>off_t\<close>,
  below \<open>2 ^ 63\<close>.
\<close>

function hwf_loop :: "'s body_fn \<Rightarrow> nat \<Rightarrow> nat \<Rightarrow> rfile \<Rightarrow> 's \<Rightarrow> int \<times> rfile \<times> 's" where
  "hwf_loop put file_len cnt f s =
    (if cnt < file_len then
       case fread 1219 f of (r, d, f') \<Rightarrow>
         if r \<le> 0 then (SERVER_FAILURE, f', s)
         else case put d s of (w, s') \<Rightarrow>
           if w \<noteq> r then (SERVER_FAILURE, f', s')
           else hwf_loop put file_len (cnt + nat w) f' s'
     else (int cnt, f, s))"
  by pat_completeness auto
termination
  by (relation "measure (\<lambda>(put, file_len, cnt, f, s). file_len - cnt)") auto

declare hwf_loop.simps [simp del]

text \<open>\<open>opn\<close> is \<open>open\<close> (an errno or a file), \<open>fsize\<close> is \<open>fstat\<close>'s \<open>st_size\<close> (\<open>None\<close> when it fails).\<close>

definition handle_with_file ::
  "'s body_fn \<Rightarrow> 's hdr_fn \<Rightarrow> (string \<Rightarrow> int + rfile) \<Rightarrow> (rfile \<Rightarrow> nat option) \<Rightarrow>
   string \<Rightarrow> string \<Rightarrow> 's \<Rightarrow> (int \<times> 's) res" where
  "handle_with_file put puthdr opn fsize path data_dir s =
    bindr (join_path 1219 data_dir path) (\<lambda>name.
      case opn name of
        Inl errno \<Rightarrow>
          if errno = ENOENT then Inr (puthdr S_GF_FILE_NOT_FOUND 0 s)
          else Inr (SERVER_FAILURE, s)
      | Inr f \<Rightarrow>
        (case fsize f of None \<Rightarrow> Inr (SERVER_FAILURE, s)
         | Some file_len \<Rightarrow>
           let s' = snd (puthdr S_GF_OK (of_nat file_len) s)
           in case hwf_loop put file_len 0 f s' of (r, f', s'') \<Rightarrow> Inr (r, s'')))"

subsection \<open>\<open>write_callback\<close> and \<open>handle_with_curl\<close>\<close>

text \<open>The growing response buffer: \<open>response\<close> is the block \<open>realloc\<close> returned last.\<close>

record customdata =
  response :: "char list"
  filesize :: nat

text \<open>\<open>ok\<close> says whether \<open>realloc\<close> finds memory; the result is the number of bytes taken care of.\<close>

definition write_callback :: "bool \<Rightarrow> char list \<Rightarrow> customdata \<Rightarrow> nat \<times> customdata" where
  "write_callback ok data m =
    (if \<not> ok then (0, m)
     else (length data,
       m\<lparr>response := take (filesize m) (response m) @ data @ [NUL], filesize := filesize m + length data\<rparr>))"

text \<open>libcurl, as the handler uses it: \<open>perform\<close> gets the callback and the state behind
  \<open>CURLOPT_WRITEDATA\<close>.\<close>

record curl =
  perform :: "(char list \<Rightarrow> customdata \<Rightarrow> nat \<times> customdata) \<Rightarrow> customdata \<Rightarrow> int \<times> customdata"
  response_code :: int
  content_length :: int

text \<open>
  The send loop.  The second argument of \<open>gfs_send\<close> is \<open>chunk.response - bytes_sent\<close> and the third the
  whole size, so any call after the first reads before the start of the block.
\<close>

function hwc_loop :: "'s body_fn \<Rightarrow> customdata \<Rightarrow> size_t \<Rightarrow> 's \<Rightarrow> (size_t \<times> 's) res" where
  "hwc_loop put chunk bytes_sent s =
    (if unat bytes_sent < filesize chunk then
       if bytes_sent \<noteq> 0 \<or> length (response chunk) < filesize chunk then Inl (Ub Out_Of_Bounds)
       else case put (take (filesize chunk) (response chunk)) s of (w, s') \<Rightarrow>
         let nbytes = size_of_int w in
         if nbytes = 0 then Inr (bytes_sent, s')
         else hwc_loop put chunk (bytes_sent + nbytes) s'
     else Inr (bytes_sent, s))"
  by pat_completeness auto
termination
  by (relation "measure (\<lambda>(put, chunk, bytes_sent, s). if bytes_sent = 0 then 1 else 0)") auto

declare hwc_loop.simps [simp del]

text \<open>
  The content length is a double that is converted to \<open>size_t\<close>; libcurl reports -1 when it is not known,
  and that conversion is undefined.  The result is the handler's \<open>ssize_t\<close>.
\<close>

definition handle_with_curl ::
  "'s body_fn \<Rightarrow> 's hdr_fn \<Rightarrow> curl \<Rightarrow> string \<Rightarrow> string \<Rightarrow> 's \<Rightarrow> (int \<times> 's) res" where
  "handle_with_curl put puthdr c path arg s =
    bindr (join_path 4096 arg path) (\<lambda>url.
      let (result, chunk) = perform c (write_callback True) \<lparr>response = [NUL], filesize = 0\<rparr> in
      if result = 0 then
        if response_code c = 200 then
          if content_length c < 0 then Inl (Ub Bad_Conversion)
          else let s' = snd (puthdr S_GF_OK (size_of_int (content_length c)) s)
               in bindr (hwc_loop put chunk 0 s') (\<lambda>(n, s''). Inr (sint n, s''))
        else if response_code c = 404 then Inr (puthdr S_GF_FILE_NOT_FOUND 0 s)
        else Inr (SERVER_FAILURE, s)
      else Inr (0, s))"

text \<open>The documented behaviour of a successful transfer: the body is handed over in order, in pieces.\<close>

definition curl_delivers :: "curl \<Rightarrow> char list list \<Rightarrow> bool" where
  "curl_delivers c chunks \<longleftrightarrow>
    (\<forall>cb m. perform c cb m = (0, foldl (\<lambda>m d. snd (cb d m)) m chunks))"

subsection \<open>Lemmas\<close>

definition resp_ok :: "customdata \<Rightarrow> char list \<Rightarrow> bool" where
  "resp_ok m body \<longleftrightarrow> filesize m = length body \<and> response m = body @ [NUL]"

lemma write_callback_ok: "resp_ok m body \<Longrightarrow>
    fst (write_callback True d m) = length d \<and> resp_ok (snd (write_callback True d m)) (body @ d)"
  by (simp add: write_callback_def resp_ok_def)

lemma write_callback_all: "resp_ok m body \<Longrightarrow>
    resp_ok (foldl (\<lambda>m d. snd (write_callback True d m)) m chunks) (body @ concat chunks)"
  by (induction chunks arbitrary: m body) (auto dest: write_callback_ok, metis append_assoc write_callback_ok)

lemma join_path_ok: "length a + length b < n \<Longrightarrow> join_path n a b = Inr (a @ b)"
  by (simp add: join_path_def)

lemma word_len: "n < 2 ^ 63 \<Longrightarrow>
    unat (word_of_nat n :: size_t) = n \<and> sint (word_of_nat n :: size_t) = int n"
  by (simp add: unat_of_nat take_bit_nat_eq_self_iff signed_of_nat signed_take_bit_int_eq_self)

lemma hwc_loop_whole:
  assumes "resp_ok chunk body" "length body < 2 ^ 63"
    and "put body s1 = (int (length body), s2)" "sent s2 = sent s1 @ body"
  shows "\<exists>s3. hwc_loop put chunk 0 s1 = Inr (of_nat (length body), s3) \<and> sent s3 = sent s1 @ body"
proof (cases "body = []")
  case True
  then show ?thesis using assms(1) by (simp add: hwc_loop.simps [of put chunk 0] resp_ok_def)
next
  case False
  then have pos: "0 < length body" by simp
  then have "(word_of_nat (length body) :: size_t) \<noteq> 0"
    using word_len [OF assms(2)] by (metis less_irrefl unat_0)
  then show ?thesis
    using assms pos word_len [OF assms(2)]
    by (simp add: hwc_loop.simps [of put chunk 0] hwc_loop.simps [of put chunk "word_of_nat (length body)"]
        resp_ok_def Let_def size_of_int_def)
qed

lemma hwc_loop_partial:
  assumes "resp_ok chunk body" "length body < 2 ^ 63"
    and "put body s1 = (int n, s2)" "0 < n" "n < length body"
  shows "hwc_loop put chunk 0 s1 = Inl (Ub Out_Of_Bounds)"
proof -
  have w: "unat (word_of_nat n :: size_t) = n" using word_len [of n] assms(2,5) by simp
  then have "(word_of_nat n :: size_t) \<noteq> 0" using assms(4) by (metis less_irrefl unat_0)
  moreover have "body \<noteq> []" using assms(5) by auto
  ultimately show ?thesis
    using assms w
    by (simp add: hwc_loop.simps [of put chunk 0] hwc_loop.simps [of put chunk "word_of_nat n"]
        resp_ok_def Let_def size_of_int_def)
qed

context gf_io
begin

lemma hwf_loop_full:
  "healthy s \<Longrightarrow> rd_good f \<Longrightarrow> cnt = foff f \<Longrightarrow> foff f \<le> length (fbytes f) \<Longrightarrow> file_len = length (fbytes f) \<Longrightarrow>
   \<exists>f' s'. hwf_loop put file_len cnt f s = (int file_len, f', s') \<and>
     sent s' = sent s @ drop (foff f) (fbytes f) \<and> healthy s'"
proof (induction "file_len - cnt" arbitrary: cnt f s rule: less_induct)
  case less
  show ?case
  proof (cases "cnt < file_len")
    case False
    then have "hwf_loop put file_len cnt f s = (int cnt, f, s)"
      by (simp add: hwf_loop.simps [of put file_len cnt f s])
    then show ?thesis using False less.prems by simp
  next
    case True
    obtain r d f' where rd: "fread 1219 f = (r, d, f')" by (cases "fread 1219 f")
    have r: "0 < r" "rd_good f'" using fread_good [OF rd] less.prems True by auto
    then have d: "r = int (length d)" "d = take (length d) (drop (foff f) (fbytes f))"
      "foff f' = foff f + length d" "fbytes f' = fbytes f"
      using fread_cases [OF rd] by auto
    obtain s1 where s1: "put d s = (int (length d), s1)" "sent s1 = sent s @ d" "healthy s1"
      using put_ok [OF less.prems(1)] by blast
    have dl: "length d \<le> length (fbytes f) - foff f"
      using d(2) by (metis length_drop length_take min.cobounded1 min.commute)
    have lt: "file_len - (cnt + length d) < file_len - cnt" using True r(1) d(1) by linarith
    have le: "foff f' \<le> length (fbytes f')" unfolding d(3,4) using less.prems(4) dl by linarith
    have "\<exists>f'' s'. hwf_loop put file_len (cnt + length d) f' s1 = (int file_len, f'', s') \<and>
        sent s' = sent s1 @ drop (foff f') (fbytes f') \<and> healthy s'"
      using less.hyps [OF lt s1(3) r(2) _ le] less.prems(2,3,5) d(3,4) by simp
    moreover have "hwf_loop put file_len cnt f s = hwf_loop put file_len (cnt + length d) f' s1"
      using True rd r d(1) s1(1) by (simp add: hwf_loop.simps [of put file_len cnt])
    moreover have "d @ drop (foff f') (fbytes f') = drop (foff f) (fbytes f)"
      using d by (metis append_take_drop_id drop_drop add.commute)
    ultimately show ?thesis using s1(2) by auto
  qed
qed

lemma handle_with_file_sends:
  assumes "healthy s" "length data_dir + length path < 1219"
    and "opn (data_dir @ path) = Inr f" "rd_good f" "foff f = 0" "fsize f = Some (length (fbytes f))"
  shows "\<exists>s'. handle_with_file put puthdr opn fsize path data_dir s = Inr (int (length (fbytes f)), s') \<and>
    sent s' = sent s @ hdr_text S_GF_OK (of_nat (length (fbytes f))) @ fbytes f"
proof -
  obtain s1 where s1: "snd (puthdr S_GF_OK (of_nat (length (fbytes f))) s) = s1"
      "sent s1 = sent s @ hdr_text S_GF_OK (of_nat (length (fbytes f)))" "healthy s1"
    using puthdr_ok [OF assms(1)] by (metis snd_conv)
  obtain f' s' where "hwf_loop put (length (fbytes f)) 0 f s1 = (int (length (fbytes f)), f', s')"
      "sent s' = sent s1 @ fbytes f"
    using hwf_loop_full [OF s1(3) assms(4), of 0 "length (fbytes f)"] assms(5) by auto
  then show ?thesis
    using assms s1 by (simp add: handle_with_file_def join_path_ok)
qed

lemma handle_with_curl_sends:
  assumes "healthy s" "length arg + length path < 4096" "curl_delivers c chunks"
    and "response_code c = 200" "content_length c = int (length (concat chunks))"
    and "length (concat chunks) < 2 ^ 63"
  shows "\<exists>s'. handle_with_curl put puthdr c path arg s = Inr (int (length (concat chunks)), s') \<and>
    sent s' = sent s @ hdr_text S_GF_OK (of_nat (length (concat chunks))) @ concat chunks"
proof -
  let ?body = "concat chunks" and ?cb = "write_callback True" and ?m = "\<lparr>response = [NUL], filesize = 0\<rparr>"
  define chunk where "chunk = foldl (\<lambda>m d. snd (?cb d m)) ?m chunks"
  have p: "perform c ?cb ?m = (0, chunk)" using assms(3) by (simp add: curl_delivers_def chunk_def)
  have ok: "resp_ok chunk ?body"
    using write_callback_all [of ?m "[]" chunks] by (simp add: chunk_def resp_ok_def)
  obtain s1 where s1: "snd (puthdr S_GF_OK (of_nat (length ?body)) s) = s1"
      "sent s1 = sent s @ hdr_text S_GF_OK (of_nat (length ?body))" "healthy s1"
    using puthdr_ok [OF assms(1)] by (metis snd_conv)
  obtain s2 where s2: "put ?body s1 = (int (length ?body), s2)" "sent s2 = sent s1 @ ?body"
    using put_ok [OF s1(3)] by blast
  note len = word_len [OF assms(6)]
  have "\<exists>s3. hwc_loop put chunk 0 s1 = Inr (of_nat (length ?body), s3) \<and> sent s3 = sent s1 @ ?body"
    by (rule hwc_loop_whole [where sent = sent and put = put, OF ok assms(6) s2])
  then show ?thesis
    using assms p s1 len by (auto simp: handle_with_curl_def join_path_ok size_of_int_def)
qed

end

lemma curl_delivers_perform:
  "curl_delivers c chunks \<Longrightarrow>
    \<exists>m. perform c (write_callback True) \<lparr>response = [NUL], filesize = 0\<rparr> = (0, m) \<and> resp_ok m (concat chunks)"
  using write_callback_all [of "\<lparr>response = [NUL], filesize = 0\<rparr>" "[]" chunks]
  by (simp add: curl_delivers_def resp_ok_def)

subsection \<open>Properties\<close>

definition example_file :: rfile where
  "example_file = \<lparr>fbytes = ''some bytes'', foff = 0, rdplan = [3, 4]\<rparr>"

definition example_conn :: conn where
  "example_conn = (\<lparr>client_socket_fd = 5, ctx_file_len = 0\<rparr>, \<lparr>rx = [], tx = [], txplan = [70]\<rparr>)"

text \<open>C34. The file handler of the proxy over the Getfile library: a file that opens is sent whole, behind a
  header with its size, whatever pieces \<open>read\<close> delivers it in, and the handler returns the size.\<close>

theorem handle_with_file_ok:
  assumes "gflib_healthy c" "length data_dir + length path < 1219" "opn (data_dir @ path) = Inr f"
    and "rd_good f" "foff f = 0" "fsize f = Some (length (fbytes f))"
  shows "\<exists>c'. handle_with_file gflib_put gflib_puthdr opn fsize path data_dir c =
      Inr (int (length (fbytes f)), c') \<and>
    tx (snd c') = tx (snd c) @ hdr_ok (of_nat (length (fbytes f))) @ fbytes f"
  using gflib.handle_with_file_sends [of c data_dir path opn f fsize] assms
  by (simp add: gflib_sent_def gflib_hdr_def gf_codes)

theorem handle_with_file_ok_witness:
  "\<exists>c'. handle_with_file gflib_put gflib_puthdr (\<lambda>n. Inr example_file) (\<lambda>f. Some (length (fbytes f)))
      ''/a'' ''/data'' example_conn = Inr (int (length (fbytes example_file)), c') \<and>
    tx (snd c') = tx (snd example_conn) @ hdr_ok (of_nat (length (fbytes example_file))) @ fbytes example_file"
  by (rule handle_with_file_ok) (simp_all add: example_conn_def example_file_def gflib_healthy_def rd_good_def)

text \<open>C35. The curl handler on a successful download whose length libcurl knows: the response is collected
  by the callback in any number of pieces and sent whole behind a header with its length.\<close>

theorem handle_with_curl_ok:
  assumes "gflib_healthy c" "length arg + length path < 4096" "curl_delivers cu chunks"
    and "response_code cu = 200" "content_length cu = int (length (concat chunks))"
    and "length (concat chunks) < 2 ^ 63"
  shows "\<exists>c'. handle_with_curl gflib_put gflib_puthdr cu path arg c = Inr (int (length (concat chunks)), c') \<and>
    tx (snd c') = tx (snd c) @ hdr_ok (of_nat (length (concat chunks))) @ concat chunks"
  using gflib.handle_with_curl_sends [OF assms(1-3) assms(4-6)]
  by (simp add: gflib_sent_def gflib_hdr_def gf_codes)

definition example_curl :: curl where
  "example_curl = \<lparr>perform = (\<lambda>cb m. (0, foldl (\<lambda>m d. snd (cb d m)) m [''ab'', ''cde''])),
    response_code = 200, content_length = 5\<rparr>"

theorem handle_with_curl_ok_witness:
  "\<exists>c'. handle_with_curl gflib_put gflib_puthdr example_curl ''/a'' ''http://s'' example_conn =
      Inr (int (length (concat [''ab'', ''cde''])), c') \<and>
    tx (snd c') = tx (snd example_conn) @ hdr_ok (of_nat (length (concat [''ab'', ''cde'']))) @
      concat [''ab'', ''cde'']"
  by (rule handle_with_curl_ok)
    (simp_all add: example_conn_def example_curl_def gflib_healthy_def curl_delivers_def)

text \<open>When the library accepts only a part of the response, the second round of the curl handler's
  send loop computes \<open>chunk.response - bytes_sent\<close> and reads in front of the buffer, with any library.\<close>

theorem handle_with_curl_partial_send:
  assumes "curl_delivers cu chunks" "response_code cu = 200" "content_length cu \<ge> 0"
    and "length arg + length path < 4096"
    and "\<And>s. \<exists>n s'. put (concat chunks) s = (int n, s') \<and> 0 < n \<and> n < length (concat chunks)"
    and "length (concat chunks) < 2 ^ 63"
  shows "handle_with_curl put puthdr cu path arg s = Inl (Ub Out_Of_Bounds)"
proof -
  obtain m where m: "perform cu (write_callback True) \<lparr>response = [NUL], filesize = 0\<rparr> = (0, m)"
    "resp_ok m (concat chunks)"
    using curl_delivers_perform [OF assms(1)] by blast
  define s1 where "s1 = snd (puthdr S_GF_OK (size_of_int (content_length cu)) s)"
  obtain n s2 where n: "put (concat chunks) s1 = (int n, s2)" "0 < n" "n < length (concat chunks)"
    using assms(5) by blast
  have "hwc_loop put m 0 s1 = Inl (Ub Out_Of_Bounds)"
    using hwc_loop_partial [of m "concat chunks" put s1 n] m(2) assms(6) n by simp
  then show ?thesis using m(1) assms by (simp add: handle_with_curl_def join_path_ok s1_def [symmetric])
qed

theorem handle_with_curl_partial_send_witness:
  "handle_with_curl (\<lambda>d s. (int 1, s @ take 1 d)) (\<lambda>st n s. (0, s)) example_curl ''/a'' ''http://s'' [] =
    Inl (Ub Out_Of_Bounds)"
  by (rule handle_with_curl_partial_send [of _ "[''ab'', ''cde'']"])
    (auto simp: example_curl_def curl_delivers_def intro!: exI [of _ "1::nat"])

end
