(* ===== verification/Mains.thy ===== *)
theory Mains
  imports Echo FileTransfer GFDownload MTServer SegmentPool Proxy
begin

section \<open>The command lines of the other programs\<close>

text \<open>
  The remaining \<open>main\<close> functions: gfserver_main.c of pr1/gflib and gfclient_download.c of pr1/mtgf up to the point where
  they start the server or the threads; the two webproxy.c with the calls they make of the server library (gfserver.o, which
  has no source), and their signal handlers; simplecached.c with its threads and its signal handler.  Where the source exits with \<open>__LINE__\<close>, the number is the line.
\<close>

subsection \<open>pr1/gflib/gfserver_main.c\<close>

record gfmain_opts =
  gm_port :: ushort
  gm_content :: "string option"

definition gfmain_default :: gfmain_opts where
  "gfmain_default = \<lparr>gm_port = 10880, gm_content = Some ''content.txt''\<rparr>"

definition gfmain_option :: "gfmain_opts \<Rightarrow> char \<Rightarrow> string option \<Rightarrow> gfmain_opts res" where
  "gfmain_option o1 c arg =
    (if c = CHR ''p'' then bindr (atoi_arg arg) (\<lambda>n. Inr (o1\<lparr>gm_port := to_ushort n\<rparr>))
     else if c = CHR ''m'' then Inr (o1\<lparr>gm_content := arg\<rparr>)
     else if c = CHR ''h'' then Inl (Exit 0)
     else Inl (Exit 1))"

text \<open>The table is read before the port is checked; \<open>file\<close> gives the contents of the content file.
  The result is the table and the server object that \<open>gfserver_serve\<close> gets, with \<open>h\<close> as its handler.\<close>

definition gfserver_main ::
  "opt list \<Rightarrow> (string \<Rightarrow> char list option) \<Rightarrow> open_fn \<Rightarrow> qsort_fn \<Rightarrow> 'a handler \<Rightarrow> 'a gfserver \<Rightarrow> (entry list \<times> 'a gfserver) res" where
  "gfserver_main args file opn qs h created =
    bindr (getopt_loop gfmain_option gfmain_default args) (\<lambda>o1.
    bindr (content_init opn qs (Option.bind (gm_content o1) file)) (\<lambda>(rc, tab).
      if uint (gm_port o1) > 65331 then Inl (Exit EXIT_FAILURE)
      else Inr (tab, gfserver_set_handlerarg None (gfserver_set_maxpending 35
        (gfserver_set_port (gm_port o1) (gfserver_set_handler (Some h) created))))))"

subsection \<open>pr1/mtgf/gfclient_download.c\<close>

record mtclient_opts =
  mo_workload :: "string option"
  mo_nrequests :: int
  mo_server :: "string option"
  mo_port :: ushort
  mo_nthreads :: int

definition mtclient_default :: mtclient_opts where
  "mtclient_default = \<lparr>mo_workload = Some ''workload.txt'', mo_nrequests = 12, mo_server = Some ''localhost'',
    mo_port = 10880, mo_nthreads = 16\<rparr>"

definition mtclient_option :: "mtclient_opts \<Rightarrow> char \<Rightarrow> string option \<Rightarrow> mtclient_opts res" where
  "mtclient_option o1 c arg =
    (if c = CHR ''r'' then bindr (atoi_arg arg) (\<lambda>n. Inr (o1\<lparr>mo_nrequests := n\<rparr>))
     else if c = CHR ''s'' then Inr (o1\<lparr>mo_server := arg\<rparr>)
     else if c = CHR ''t'' then bindr (atoi_arg arg) (\<lambda>n. Inr (o1\<lparr>mo_nthreads := n\<rparr>))
     else if c = CHR ''p'' then bindr (atoi_arg arg) (\<lambda>n. Inr (o1\<lparr>mo_port := to_ushort n\<rparr>))
     else if c = CHR ''n'' then Inr o1
     else if c = CHR ''w'' then Inr (o1\<lparr>mo_workload := arg\<rparr>)
     else if c = CHR ''h'' then Inl (Exit 0)
     else Inl (Exit 1))"

text \<open>Up to the creation of the threads.\<close>

definition mtclient_setup :: "opt list \<Rightarrow> (string \<Rightarrow> string option) \<Rightarrow> (mtclient_opts \<times> workload) res" where
  "mtclient_setup args wlfile =
    bindr (getopt_loop mtclient_option mtclient_default args) (\<lambda>o1.
    bindr (workload_init (Option.bind (mo_workload o1) wlfile) wl_static) (\<lambda>(rc, w).
      if rc \<noteq> EXIT_SUCCESS then Inl (Exit EXIT_FAILURE)
      else if uint (mo_port o1) > 65331 then Inl (Exit EXIT_FAILURE)
      else if mo_nthreads o1 < 1 \<or> mo_nthreads o1 > 1572 then Inl (Exit EXIT_FAILURE)
      else Inr (o1, w)))"

subsection \<open>The two webproxy.c and simplecached.c\<close>

record webproxy_opts =
  wp_port :: ushort
  wp_nworkers :: ushort
  wp_server :: "string option"

definition webproxy_default :: webproxy_opts where
  "webproxy_default = \<lparr>wp_port = 20121, wp_nworkers = 9,
    wp_server = Some ''https://raw.githubusercontent.com/gt-cs6200/image_data''\<rparr>"

definition webproxy_option :: "webproxy_opts \<Rightarrow> char \<Rightarrow> string option \<Rightarrow> webproxy_opts res" where
  "webproxy_option o1 c arg =
    (if c = CHR ''x'' \<or> c = CHR ''q'' then Inr o1
     else if c = CHR ''p'' then bindr (atoi_arg arg) (\<lambda>n. Inr (o1\<lparr>wp_port := to_ushort n\<rparr>))
     else if c = CHR ''h'' then Inl (Exit 0)
     else if c = CHR ''t'' then bindr (atoi_arg arg) (\<lambda>n. Inr (o1\<lparr>wp_nworkers := to_ushort n\<rparr>))
     else if c = CHR ''s'' then Inr (o1\<lparr>wp_server := arg\<rparr>)
     else Inl (Exit 1))"

definition webproxy_setup :: "opt list \<Rightarrow> webproxy_opts res" where
  "webproxy_setup args =
    bindr (getopt_loop webproxy_option webproxy_default args) (\<lambda>o1.
      if uint (wp_port o1) < 1024 then Inl (Exit 82)
      else if wp_server o1 = None then Inl (Exit 87)
      else if uint (wp_nworkers o1) < 1 \<or> uint (wp_nworkers o1) > 520 then Inl (Exit 92)
      else Inr o1)"

record cacheproxy_opts = webproxy_opts +
  cp_nsegments :: "32 word"
  cp_segsize :: size_t

definition cacheproxy_default :: cacheproxy_opts where
  "cacheproxy_default = webproxy_opts.extend webproxy_default \<lparr>cp_nsegments = 4, cp_segsize = 5014\<rparr>"

definition cacheproxy_option :: "cacheproxy_opts \<Rightarrow> char \<Rightarrow> string option \<Rightarrow> cacheproxy_opts res" where
  "cacheproxy_option o1 c arg =
    (if c = CHR ''p'' then bindr (atoi_arg arg) (\<lambda>n. Inr (o1\<lparr>wp_port := to_ushort n\<rparr>))
     else if c = CHR ''n'' then bindr (atoi_arg arg) (\<lambda>n. Inr (o1\<lparr>cp_nsegments := word_of_int n\<rparr>))
     else if c = CHR ''s'' then Inr (o1\<lparr>wp_server := arg\<rparr>)
     else if c = CHR ''z'' then bindr (atoi_arg arg) (\<lambda>n. Inr (o1\<lparr>cp_segsize := size_of_int n\<rparr>))
     else if c = CHR ''t'' then bindr (atoi_arg arg) (\<lambda>n. Inr (o1\<lparr>wp_nworkers := to_ushort n\<rparr>))
     else if c \<in> {CHR ''i'', CHR ''x'', CHR ''l''} then Inr o1
     else if c = CHR ''h'' then Inl (Exit 0)
     else Inl (Exit 92))"

definition cacheproxy_setup :: "opt list \<Rightarrow> cacheproxy_opts res" where
  "cacheproxy_setup args =
    bindr (getopt_loop cacheproxy_option cacheproxy_default args) (\<lambda>o1.
      if cp_segsize o1 < 128 then Inl (Exit 121)
      else if wp_server o1 = None then Inl (Exit 126)
      else if uint (wp_port o1) < 1024 then Inl (Exit 131)
      else if cp_nsegments o1 < 1 then Inl (Exit 136)
      else if uint (wp_nworkers o1) < 1 \<or> uint (wp_nworkers o1) > 520 then Inl (Exit 141)
      else Inr o1)"

record simplecached_opts =
  sc_nthreads :: int
  sc_cachedir :: "string option"
  sc_delay :: size_t

definition simplecached_default :: simplecached_opts where
  "simplecached_default = \<lparr>sc_nthreads = 7, sc_cachedir = Some ''locals.txt'', sc_delay = 0\<rparr>"

definition simplecached_option :: "simplecached_opts \<Rightarrow> char \<Rightarrow> string option \<Rightarrow> simplecached_opts res" where
  "simplecached_option o1 c arg =
    (if c = CHR ''c'' then Inr (o1\<lparr>sc_cachedir := arg\<rparr>)
     else if c = CHR ''h'' then Inl (Exit 0)
     else if c = CHR ''t'' then bindr (atoi_arg arg) (\<lambda>n. Inr (o1\<lparr>sc_nthreads := n\<rparr>))
     else if c = CHR ''d'' then bindr (atoi_arg arg) (\<lambda>n. Inr (o1\<lparr>sc_delay := size_of_int n\<rparr>))
     else if c \<in> {CHR ''i'', CHR ''l'', CHR ''x''} then Inr o1
     else Inl (Exit 1))"

text \<open>Up to the creation of the message queue: the options, the signals (\<open>sig_ok\<close>: both were registered) and the table.\<close>

definition simplecached_setup ::
  "bool \<Rightarrow> opt list \<Rightarrow> (string \<Rightarrow> char list option) \<Rightarrow> open_fn \<Rightarrow> qsort_fn \<Rightarrow> (simplecached_opts \<times> entry list) res" where
  "simplecached_setup sig_ok args file opn qs =
    bindr (getopt_loop simplecached_option simplecached_default args) (\<lambda>o1.
      if sc_delay o1 > 5000000 then Inl (Exit 100)
      else if sc_nthreads o1 > 31415 \<or> sc_nthreads o1 < 1 then Inl (Exit 105)
      else if \<not> sig_ok then Inl (Exit CACHE_FAILURE)
      else bindr (simplecache_init opn qs (Option.bind (sc_cachedir o1) file)) (\<lambda>(rc, tab). Inr (o1, tab)))"

text \<open>The loop that creates the threads: which ids it has written.  \<open>pthread_create\<close> returns 0 or a positive error number, \<open>create t\<close>.\<close>

fun create_workers :: "(nat \<Rightarrow> int) \<Rightarrow> nat \<Rightarrow> nat \<Rightarrow> bool list" where
  "create_workers create t 0 = []"
| "create_workers create t (Suc n) =
    (create t = 0) # (if create t < 0 then replicate n False else create_workers create (Suc t) n)"

record mq_attr =
  mq_maxmsg :: int
  mq_msgsize :: int
  mq_curmsgs :: int
  mq_flags :: int

definition attr :: mq_attr where
  "attr = \<lparr>mq_maxmsg = 10, mq_msgsize = 1024, mq_curmsgs = 0, mq_flags = 0\<rparr>"

text \<open>
  \<open>main\<close> until it waits in \<open>pthread_join\<close> for the first thread, which never ends: the table, the attributes of the queue and which
  threads run.  A failure of \<open>mq_open\<close> is only printed.  The join of an id that was not written is undefined.
\<close>

definition simplecached_main ::
  "bool \<Rightarrow> (nat \<Rightarrow> int) \<Rightarrow> opt list \<Rightarrow> (string \<Rightarrow> char list option) \<Rightarrow> open_fn \<Rightarrow> qsort_fn \<Rightarrow>
   (simplecached_opts \<times> entry list \<times> mq_attr \<times> bool list) res" where
  "simplecached_main sig_ok create args file opn qs =
    bindr (simplecached_setup sig_ok args file opn qs) (\<lambda>(o1, tab).
    let ws = create_workers create 0 (nat (sc_nthreads o1))
    in if hd ws then Inr (o1, tab, attr, ws) else Inl (Ub Uninitialised))"

definition SIGINT :: int where "SIGINT = 2"
definition SIGTERM :: int where "SIGTERM = 15"

text \<open>The handler of simplecached.c: the exit, and the descriptors that are still open; other signals change nothing.\<close>

definition simplecached_sig_handler :: "int \<Rightarrow> entry list \<Rightarrow> int set \<Rightarrow> (fault \<times> int set) option" where
  "simplecached_sig_handler signo tab fds =
    (if signo = SIGTERM \<or> signo = SIGINT then Some (Exit signo, fst (simplecache_destroy tab fds)) else None)"

text \<open>The handler of gfserver_main.c of pr1/mtgf.\<close>

definition mts_sig_handler :: "int \<Rightarrow> fault option" where
  "mts_sig_handler signo = (if signo = SIGINT \<or> signo = SIGTERM then Some (Exit signo) else None)"

subsection \<open>The calls of the server library\<close>

datatype gf_call = Gfserver_Init ushort | Set_Maxnpending int | Set_Worker_Func string | Set_Port ushort
  | Set_Worker_Arg nat "string option" | Gfserver_Serve | Gfserver_Stop

text \<open>The loop over the workers.\<close>

fun worker_args :: "nat \<Rightarrow> nat \<Rightarrow> string option \<Rightarrow> gf_call list" where
  "worker_args i 0 server = []"
| "worker_args i (Suc n) server = Set_Worker_Arg i server # worker_args (Suc i) n server"

definition proxy_calls :: "string \<Rightarrow> ('b webproxy_opts_scheme) \<Rightarrow> gf_call list" where
  "proxy_calls worker o1 =
    [Gfserver_Init (wp_nworkers o1), Set_Maxnpending 321, Set_Worker_Func worker, Set_Port (wp_port o1)] @
    worker_args 0 (unat (wp_nworkers o1)) (wp_server o1) @ [Gfserver_Serve]"

definition webproxy_main :: "bool \<Rightarrow> opt list \<Rightarrow> gf_call list res" where
  "webproxy_main sig_ok args =
    (if \<not> sig_ok then Inl (Exit SERVER_FAILURE)
     else bindr (webproxy_setup args) (\<lambda>o1. Inr (proxy_calls ''handle_with_curl'' o1)))"

text \<open>The number of segments, an \<open>unsigned int\<close>, is passed on as an \<open>int\<close>.\<close>

definition cacheproxy_main ::
  "bool \<Rightarrow> (nat \<Rightarrow> addr option) \<Rightarrow> shm_details steque \<Rightarrow> opt list \<Rightarrow> (shm_details steque \<times> gf_call list) res" where
  "cacheproxy_main sig_ok mal q args =
    (if \<not> sig_ok then Inl (Exit SERVER_FAILURE)
     else bindr (cacheproxy_setup args) (\<lambda>o1.
       bindr (initSharedMemory mal (nat (sint (cp_nsegments o1))) (cp_segsize o1) q) (\<lambda>q'.
         Inr (q', proxy_calls ''handle_with_cache'' o1))))"

definition webproxy_sig_handler :: "int \<Rightarrow> (fault \<times> gf_call list) option" where
  "webproxy_sig_handler signo =
    (if signo = SIGTERM \<or> signo = SIGINT then Some (Exit signo, [Gfserver_Stop]) else None)"

text \<open>The handler of the cache proxy: the names it unlinks, the call and the exit; \<open>None\<close> in the place of the exit is a return.\<close>

definition cacheproxy_sig_handler :: "int \<Rightarrow> shm_details steque \<Rightarrow> (string list \<times> gf_call list \<times> fault option) res option" where
  "cacheproxy_sig_handler signo q =
    (if signo = SIGTERM \<or> signo = SIGINT then
       map_option (\<lambda>r. bindr r (\<lambda>(us, q'). Inr (us, [Gfserver_Stop], Some (Exit signo)))) (sig_handler q)
     else Some (Inr ([], [], None)))"

lemma worker_args_eq: "worker_args i n server = map (\<lambda>j. Set_Worker_Arg j server) [i..<i + n]"
proof (induction n arbitrary: i)
  case (Suc n)
  have "[i..<i + Suc n] = i # [Suc i..<Suc i + n]" by (simp add: upt_rec)
  then show ?case using Suc.IH [of "Suc i"] by simp
qed simp

lemma create_workers_all: "\<forall>t. 0 \<le> create t \<Longrightarrow> create_workers create t n = map (\<lambda>j. create j = 0) [t..<t + n]"
proof (induction n arbitrary: t)
  case (Suc n)
  have "[t..<t + Suc n] = t # [Suc t..<Suc t + n]" by (simp add: upt_rec)
  moreover have "\<not> create t < 0" using Suc.prems by (simp add: not_less)
  ultimately show ?case using Suc.IH [of "Suc t"] Suc.prems by simp
qed simp

subsection \<open>Properties\<close>

text \<open>The port option of six programs, for any argument that \<open>atoi\<close> reads as \<open>k\<close>.  The servers of pr1/echo
  and pr1/transfer check the number itself; the others assign it to an \<open>unsigned short\<close> first, so they
  check (and use) its remainder: 66561 is accepted as the port 1025, and the test against 65535 in the
  clients of pr1/echo and pr1/transfer is never true.\<close>

theorem port_options:
  assumes "atoi s = Inr k"
  shows "(returns (echoserver_setup [(CHR ''p'', Some s)]) \<longleftrightarrow> 1025 \<le> k \<and> k \<le> 65535) \<and>
    (returns (transferserver_setup [(CHR ''p'', Some s)]) \<longleftrightarrow> 1025 \<le> k \<and> k \<le> 65535) \<and>
    (returns (echoclient_setup [(CHR ''p'', Some s)]) \<longleftrightarrow> 1025 \<le> k mod 65536) \<and>
    (returns (transferclient_setup [(CHR ''p'', Some s)]) \<longleftrightarrow> 1025 \<le> k mod 65536) \<and>
    (returns (download_setup [(CHR ''p'', Some s)]) \<longleftrightarrow> k mod 65536 \<le> 65331) \<and>
    (returns (webproxy_setup [(CHR ''p'', Some s)]) \<longleftrightarrow> 1024 \<le> k mod 65536)"
proof -
  have e: "returns (echoserver_setup [(CHR ''p'', Some s)]) \<longleftrightarrow> 1025 \<le> k \<and> k \<le> 65535"
    "returns (transferserver_setup [(CHR ''p'', Some s)]) \<longleftrightarrow> 1025 \<le> k \<and> k \<le> 65535"
    using assms by (auto simp: echoserver_setup_def echoserver_option_def echoserver_default_def atoi_arg_def port_bad_def
        transferserver_setup_def transferserver_option_def transferserver_default_def)
  have c: "returns (echoclient_setup [(CHR ''p'', Some s)]) \<longleftrightarrow> 1025 \<le> k mod 65536"
    "returns (transferclient_setup [(CHR ''p'', Some s)]) \<longleftrightarrow> 1025 \<le> k mod 65536"
    using assms by (auto simp: echoclient_setup_def echoclient_option_def echoclient_default_def atoi_arg_def port_bad_mod
        transferclient_setup_def transferclient_option_def transferclient_default_def uint_to_ushort)
  have d: "returns (download_setup [(CHR ''p'', Some s)]) \<longleftrightarrow> k mod 65536 \<le> 65331"
    "returns (webproxy_setup [(CHR ''p'', Some s)]) \<longleftrightarrow> 1024 \<le> k mod 65536"
    using assms by (auto simp: download_setup_def download_option_def download_default_def atoi_arg_def
        webproxy_setup_def webproxy_option_def webproxy_default_def uint_to_ushort)
  show ?thesis using e c d by blast
qed

lemma atoi_66561: "atoi ''66561'' = Inr 66561"
  by (simp add: atoi_def Let_def isspace_def isdigit_def digits_def undec_def digit_val_def int_ok_def INT_MAX_def INT_MIN_def)

theorem port_options_witness:
  "\<not> returns (echoserver_setup [(CHR ''p'', Some ''66561'')]) \<and> returns (echoclient_setup [(CHR ''p'', Some ''66561'')])"
  using port_options [OF atoi_66561] by simp


text \<open>A negative number of segments is accepted by the cache proxy (it is tested as an \<open>unsigned int\<close>) and makes an empty
  pool: the server starts, and in every state its workers can reach each of them is before the pool or asleep,
  so no request is ever answered.\<close>

theorem cacheproxy_negative_segments:
  assumes "atoi s = Inr k" "k < 0"
  shows "\<exists>q'. cacheproxy_main True mal q [(CHR ''n'', Some s)] =
      Inr (q', proxy_calls ''handle_with_cache'' (cacheproxy_default\<lparr>cp_nsegments := word_of_int k\<rparr>)) \<and>
    (\<forall>W m i. pool_reach W q' m \<longrightarrow> pl_pc m i = K_Enter \<or> pl_pc m i = K_Sleep)"
proof -
  let ?o = "cacheproxy_default\<lparr>cp_nsegments := word_of_int k\<rparr>"
  have k: "- 2147483648 \<le> k" using assms(1) by (auto simp: atoi_def Let_def int_ok_def INT_MIN_def split: if_splits)
  then have "signed_take_bit 31 k = k" using assms(2) by (intro signed_take_bit_int_eq_self) simp_all
  then have si: "sint (word_of_int k :: 32 word) = k" by (simp add: sint_sbintrunc')
  then have n: "\<not> (word_of_int k :: 32 word) < 1" using assms(2) by (auto simp: word_less_nat_alt unat_eq_zero)
  have su: "cacheproxy_setup [(CHR ''n'', Some s)] = Inr ?o"
    using assms(1) n by (simp add: cacheproxy_setup_def cacheproxy_option_def cacheproxy_default_def webproxy_default_def
        atoi_arg_def webproxy_opts.defs)
  have "initSharedMemory mal (nat (sint (cp_nsegments ?o))) (cp_segsize ?o) q = Inr (steque_init q)"
    using si assms(2) by (simp add: initSharedMemory_def)
  then have "cacheproxy_main True mal q [(CHR ''n'', Some s)] = Inr (steque_init q, proxy_calls ''handle_with_cache'' ?o)"
    by (simp add: cacheproxy_main_def su)
  moreover have "steque_isempty (steque_init q)" by (simp add: steque_isempty_def steque_init_def)
  ultimately show ?thesis using pool_empty_reach by blast
qed

theorem cacheproxy_negative_segments_witness:
  "\<exists>q' calls. cacheproxy_main True Some \<lparr>nodes = Map.empty, frontp = None, backp = None, N = 0\<rparr> [(CHR ''n'', Some ''-1'')] = Inr (q', calls) \<and>
    pl_pc \<lparr>pl_queue = q', pl_pc = \<lambda>_. K_Enter\<rparr> 0 = K_Enter"
proof -
  have "atoi ''-1'' = Inr (-1)"
    by (simp add: atoi_def Let_def isspace_def isdigit_def digits_def undec_def digit_val_def int_ok_def INT_MAX_def INT_MIN_def)
  then show ?thesis
    using cacheproxy_negative_segments [of "''-1''" "-1" Some "\<lparr>nodes = Map.empty, frontp = None, backp = None, N = 0\<rparr>"] by auto
qed

end
