(* ===== verification/DfsServer.thy ===== *)
theory DfsServer
  imports CStr
begin

section \<open>The distributed file system: hosts and the server (pr4/dfslib-servernode-p1.cpp)\<close>

text \<open>
  The server keeps the files of its mount path; the five remote procedures of dfs-service.proto are
  methods of \<open>DFSServiceImpl\<close>.  A host has files, directories and what opening a path answers.
  gRPC is a parameter: a method gets the messages its reader delivers and the answers of
  \<open>IsCancelled\<close>, and returns its status and the messages it has written.  The kernel is one too: \<open>h_readable\<close>, \<open>h_writable\<close> and
  \<open>h_removable\<close> say of each path whether \<open>open\<close> and \<open>remove\<close> would succeed (\<open>remove\<close> does not for a directory that is not empty,
  so \<open>h_removable\<close> must be false for it: the entries of directories are not followed), \<open>h_now\<close> is the clock during a call.
  A new file does not change the size and times of its directory here, and paths are files of their own: \<open>a\<close> and \<open>./a\<close> are two.
\<close>

subsection \<open>Hosts\<close>

text \<open>A file with its bytes, a directory with the size \<open>stat\<close> reports, each with mtime and ctime.\<close>

datatype fnode = Reg "char list" int int | Dir int int int

record sinfo =
  st_size :: int
  st_mtime :: int
  st_ctime :: int

fun node_stat :: "fnode \<Rightarrow> sinfo" where
  "node_stat (Reg bs m c) = \<lparr>st_size = int (length bs), st_mtime = m, st_ctime = c\<rparr>"
| "node_stat (Dir n m c) = \<lparr>st_size = n, st_mtime = m, st_ctime = c\<rparr>"

record host =
  h_tree :: "string \<rightharpoonup> fnode"
  h_readable :: "string \<Rightarrow> bool"
  h_writable :: "string \<Rightarrow> bool"
  h_removable :: "string \<Rightarrow> bool"
  h_now :: int

definition stat_path :: "host \<Rightarrow> string \<Rightarrow> sinfo option" where
  "stat_path h p = map_option node_stat (h_tree h p)"

text \<open>
  \<open>ifstream\<close>: a read that is cut short by the end puts the stream into a failed state, and a read of a
  failed stream delivers nothing.  A file that could not be opened is a failed stream; a directory opens, but
  cannot be read.  No stream throws: no code asks for exceptions.
\<close>

record istream =
  is_data :: "char list"
  is_good :: bool

definition open_in :: "host \<Rightarrow> string \<Rightarrow> istream" where
  "open_in h p =
    (case h_tree h p of
       Some (Reg bs m c) \<Rightarrow> if h_readable h p then \<lparr>is_data = bs, is_good = True\<rparr> else \<lparr>is_data = [], is_good = False\<rparr>
     | _ \<Rightarrow> \<lparr>is_data = [], is_good = False\<rparr>)"

definition is_read :: "nat \<Rightarrow> istream \<Rightarrow> char list \<times> istream" where
  "is_read n s =
    (if is_good s then
       let d = take n (is_data s) in (d, \<lparr>is_data = drop n (is_data s), is_good = (length d = n)\<rparr>)
     else ([], s))"

text \<open>\<open>ofstream\<close> with \<open>ios::out\<close>: the file is made or emptied; writes to a stream that is not open are lost.\<close>

definition is_dir :: "host \<Rightarrow> string \<Rightarrow> bool" where
  "is_dir h p \<longleftrightarrow> (case h_tree h p of Some (Dir n m c) \<Rightarrow> True | _ \<Rightarrow> False)"

definition put_file :: "string \<Rightarrow> char list \<Rightarrow> host \<Rightarrow> host" where
  "put_file p bs h = h\<lparr>h_tree := (h_tree h)(p \<mapsto> Reg bs (h_now h) (h_now h))\<rparr>"

definition drop_file :: "string \<Rightarrow> host \<Rightarrow> host" where
  "drop_file p h = h\<lparr>h_tree := (h_tree h)(p := None)\<rparr>"

definition open_out :: "string \<Rightarrow> host \<Rightarrow> bool \<times> host" where
  "open_out p h =
    (if h_writable h p \<and> \<not> is_dir h p then (True, put_file p [] h)
     else (False, h))"

definition os_write :: "bool \<Rightarrow> string \<Rightarrow> char list \<Rightarrow> host \<Rightarrow> host" where
  "os_write opened p d h =
    (if opened then
       case h_tree h p of
         Some (Reg bs m c) \<Rightarrow> put_file p (bs @ d) h
       | _ \<Rightarrow> h
     else h)"

lemma put_file_simps [simp]:
  "h_tree (put_file p bs h) = (h_tree h)(p \<mapsto> Reg bs (h_now h) (h_now h))"
  "h_readable (put_file p bs h) = h_readable h" "h_writable (put_file p bs h) = h_writable h"
  "h_removable (put_file p bs h) = h_removable h" "h_now (put_file p bs h) = h_now h"
  "put_file p bs (put_file p cs h) = put_file p bs h"
  by (simp_all add: put_file_def)

lemma drop_file_simps [simp]:
  "h_tree (drop_file p h) = (h_tree h)(p := None)"
  "h_readable (drop_file p h) = h_readable h" "h_writable (drop_file p h) = h_writable h"
  "h_removable (drop_file p h) = h_removable h" "h_now (drop_file p h) = h_now h"
  by (simp_all add: drop_file_def)

lemma put_file_same: "h_tree h p = Some (Reg bs (h_now h) (h_now h)) \<Longrightarrow> put_file p bs h = h"
  by (simp add: put_file_def fun_upd_idem)

lemma is_dir_simps [simp]:
  "is_dir (put_file p bs h) q \<longleftrightarrow> q \<noteq> p \<and> is_dir h q" "is_dir (drop_file p h) q \<longleftrightarrow> q \<noteq> p \<and> is_dir h q"
  by (simp_all add: is_dir_def)

text \<open>The conversion of an \<open>off_t\<close> to \<open>int\<close>.\<close>

definition off_to_int :: "int \<Rightarrow> int" where
  "off_to_int i = sint (word_of_int i :: 32 word)"

lemma off_to_int_small: "0 \<le> i \<Longrightarrow> i \<le> INT_MAX \<Longrightarrow> off_to_int i = i"
  by (simp add: off_to_int_def INT_MAX_def sint_sbintrunc' signed_take_bit_int_eq_self)

subsection \<open>Messages and status codes\<close>

text \<open>The codes the sources name, and the others that the library may report.\<close>

datatype rpc_code = OK | CANCELLED | DEADLINE_EXCEEDED | NOT_FOUND | INTERNAL | Rpc_Other nat

record statResponse =
  filsize :: "32 word"
  m_time :: "64 word"
  c_time :: "64 word"

record Item =
  it_filename :: string
  it_mtime :: "64 word"

subsection \<open>The methods of \<open>DFSServiceImpl\<close>\<close>

text \<open>\<open>mp\<close> is \<open>mount_path\<close>; \<open>canc i\<close> is the answer of the \<open>i\<close>th call of \<open>IsCancelled\<close> in a request.\<close>

definition WrapPath :: "string \<Rightarrow> string \<Rightarrow> string" where
  "WrapPath mp filepath = mp @ filepath"

text \<open>The loop of \<open>fetchFile\<close>; \<open>None\<close>: still running after that many turns.\<close>

fun fetch_loop :: "nat \<Rightarrow> (nat \<Rightarrow> bool) \<Rightarrow> nat \<Rightarrow> int \<Rightarrow> int \<Rightarrow> istream \<Rightarrow> char list list \<Rightarrow> (rpc_code \<times> char list list) res option" where
  "fetch_loop 0 canc i filesize bytes_read s out = None"
| "fetch_loop (Suc n) canc i filesize bytes_read s out =
    (if bytes_read < filesize then
       if canc i then Some (Inr (DEADLINE_EXCEEDED, out))
       else case is_read 1024 s of (d, s') \<Rightarrow>
         if bytes_read + int (length d) > INT_MAX then Some (Inl (Ub Signed_Overflow))
         else fetch_loop n canc (Suc i) filesize (bytes_read + int (length d)) s' (out @ [d])
     else Some (Inr (OK, out)))"

definition fetchFile :: "nat \<Rightarrow> string \<Rightarrow> (nat \<Rightarrow> bool) \<Rightarrow> string \<Rightarrow> host \<Rightarrow> (rpc_code \<times> char list list) res option" where
  "fetchFile fuel mp canc filepath h =
    (let wrappedPath = WrapPath mp filepath in
     case stat_path h wrappedPath of None \<Rightarrow> Some (Inr (NOT_FOUND, []))
     | Some filestat \<Rightarrow> fetch_loop fuel canc 0 (off_to_int (st_size filestat)) 0 (open_in h wrappedPath) [])"

text \<open>\<open>storeFile\<close>; the file name is in the metadata of the call, and is empty when it is missing there.\<close>

fun store_loop :: "(nat \<Rightarrow> bool) \<Rightarrow> nat \<Rightarrow> string \<Rightarrow> bool \<Rightarrow> char list list \<Rightarrow> host \<Rightarrow> rpc_code \<times> host" where
  "store_loop canc i p opened [] h = (OK, h)"
| "store_loop canc i p opened (d # ds) h =
    (if canc i then (DEADLINE_EXCEEDED, h) else store_loop canc (Suc i) p opened ds (os_write opened p d h))"

definition storeFile :: "string \<Rightarrow> (nat \<Rightarrow> bool) \<Rightarrow> string option \<Rightarrow> char list list \<Rightarrow> host \<Rightarrow> rpc_code \<times> host" where
  "storeFile mp canc filename msgs h =
    (let wrappedPath = WrapPath mp (case filename of None \<Rightarrow> [] | Some f \<Rightarrow> f)
     in case open_out wrappedPath h of (opened, h') \<Rightarrow> store_loop canc 0 wrappedPath opened msgs h')"

definition getFileAttrs :: "string \<Rightarrow> (nat \<Rightarrow> bool) \<Rightarrow> string \<Rightarrow> host \<Rightarrow> rpc_code \<times> statResponse" where
  "getFileAttrs mp canc filename h =
    (let none = \<lparr>filsize = 0, m_time = 0, c_time = 0\<rparr> in
     if canc 0 then (DEADLINE_EXCEEDED, none)
     else case stat_path h (WrapPath mp filename) of None \<Rightarrow> (NOT_FOUND, none)
     | Some fi \<Rightarrow> (OK, \<lparr>filsize = word_of_int (st_size fi), m_time = word_of_int (st_mtime fi), c_time = word_of_int (st_ctime fi)\<rparr>))"

text \<open>The response of \<open>deleteFile\<close> is the file name it was called with.\<close>

definition deleteFile :: "string \<Rightarrow> (nat \<Rightarrow> bool) \<Rightarrow> string \<Rightarrow> host \<Rightarrow> rpc_code \<times> string \<times> host" where
  "deleteFile mp canc filepath h =
    (if canc 0 then (DEADLINE_EXCEEDED, [], h)
     else let wrappedPath = WrapPath mp filepath in
       case stat_path h wrappedPath of None \<Rightarrow> (NOT_FOUND, filepath, h)
       | Some fi \<Rightarrow>
         if h_removable h wrappedPath then (OK, filepath, drop_file wrappedPath h)
         else (CANCELLED, filepath, h))"

text \<open>\<open>listFiles\<close> on the names \<open>readdir\<close> returns; a directory that does not open is a null pointer.\<close>

fun list_loop :: "string \<Rightarrow> (nat \<Rightarrow> bool) \<Rightarrow> nat \<Rightarrow> host \<Rightarrow> string list \<Rightarrow> Item list \<Rightarrow> rpc_code \<times> Item list" where
  "list_loop mp canc i h [] items = (OK, items)"
| "list_loop mp canc i h (name # names) items =
    (if canc i then (DEADLINE_EXCEEDED, items)
     else case stat_path h (WrapPath mp name) of
       None \<Rightarrow> list_loop mp canc (Suc i) h names items
     | Some fi \<Rightarrow>
       list_loop mp canc (Suc i) h names (items @ [\<lparr>it_filename = name, it_mtime = word_of_int (st_mtime fi)\<rparr>]))"

definition listFiles :: "string \<Rightarrow> (nat \<Rightarrow> bool) \<Rightarrow> string list option \<Rightarrow> host \<Rightarrow> (rpc_code \<times> Item list) res" where
  "listFiles mp canc dirents h =
    (case dirents of None \<Rightarrow> Inl (Ub Null_Deref) | Some names \<Rightarrow> Inr (list_loop mp canc 0 h names []))"

end
