(* ===== verification/DfsMount.thy ===== *)
theory DfsMount
  imports DfsServer Options
begin

section \<open>The mounting client (pr4/part2)\<close>

text \<open>
  dfs-client-p2.cpp: the command line, the commands, and the thread that turns inotify events into calls of
  the client node; dfslibx-clientnode-p2.cpp: the base class of the node.  The class \<open>DFSClientNodeP2\<close> and dfs-utils.h are not in the repository: the
  node's \<open>Store\<close>, \<open>Delete\<close> and so on are the calls this model returns, in order, and
  \<open>dfs_clean_path\<close> and the size of an event header are arguments.
\<close>

subsection \<open>\<open>DFSClientNode\<close>\<close>

record cnode =
  nd_deadline :: "int option"
  nd_client_id :: string
  nd_mount_path :: string
  nd_unmounting :: bool
  nd_stub :: "string option"

text \<open>\<open>host\<close> is the array that \<open>gethostname\<close> has filled, \<open>tid\<close> the printed id of the thread.  A deadline that was never set is \<open>None\<close>.\<close>

definition DFSClientNode :: "char list \<Rightarrow> string \<Rightarrow> cnode res" where
  "DFSClientNode host tid =
    bindr (cstr host) (\<lambda>h. Inr \<lparr>nd_deadline = None, nd_client_id = h @ ''T'' @ tid, nd_mount_path = ''mnt/client/'',
      nd_unmounting = False, nd_stub = None\<rparr>)"

definition node_Unmount :: "cnode \<Rightarrow> cnode" where
  "node_Unmount nd = nd\<lparr>nd_unmounting := True\<rparr>"

definition Unmounting :: "cnode \<Rightarrow> bool" where
  "Unmounting nd = nd_unmounting nd"

definition ClientId :: "cnode \<Rightarrow> string" where
  "ClientId nd = nd_client_id nd"

text \<open>The channel is named by the address it was made for.\<close>

definition CreateStub :: "string \<Rightarrow> cnode \<Rightarrow> cnode" where
  "CreateStub channel nd = nd\<lparr>nd_stub := Some channel\<rparr>"

definition node_SetMountPath :: "string \<Rightarrow> cnode \<Rightarrow> cnode" where
  "node_SetMountPath path nd = nd\<lparr>nd_mount_path := path\<rparr>"

definition node_SetDeadlineTimeout :: "int \<Rightarrow> cnode \<Rightarrow> cnode" where
  "node_SetDeadlineTimeout deadline nd = nd\<lparr>nd_deadline := Some deadline\<rparr>"

definition SetClientId :: "string \<Rightarrow> cnode \<Rightarrow> cnode" where
  "SetClientId i nd = nd\<lparr>nd_client_id := i\<rparr>"

definition MountPath :: "cnode \<Rightarrow> string" where
  "MountPath nd = nd_mount_path nd"

definition node_WrapPath :: "cnode \<Rightarrow> string \<Rightarrow> string" where
  "node_WrapPath nd filepath = nd_mount_path nd @ filepath"

subsection \<open>\<open>DFSClient\<close>\<close>

text \<open>A \<open>NotifyStruct\<close>; its thread is moved into a vector of \<open>Mount\<close>, so it is not joinable any more.\<close>

record notify =
  nt_fd :: int
  nt_wd :: int
  nt_flags :: "32 word"
  nt_joinable :: bool

record dclient =
  dc_deadline :: "int option"
  dc_mount_path :: string
  dc_node :: cnode
  dc_events :: "notify list"
  dc_async :: bool

definition InitializeClientNode :: "string \<Rightarrow> dclient \<Rightarrow> dclient" where
  "InitializeClientNode server_address c = c\<lparr>dc_node := CreateStub server_address (dc_node c)\<rparr>"

definition SetMountPath :: "(string \<Rightarrow> string) \<Rightarrow> string \<Rightarrow> dclient \<Rightarrow> dclient" where
  "SetMountPath dfs_clean_path path c =
    (let p = dfs_clean_path path in c\<lparr>dc_mount_path := p, dc_node := node_SetMountPath p (dc_node c)\<rparr>)"

definition SetDeadlineTimeout :: "int \<Rightarrow> dclient \<Rightarrow> dclient" where
  "SetDeadlineTimeout deadline c =
    c\<lparr>dc_deadline := Some deadline, dc_node := node_SetDeadlineTimeout deadline (dc_node c)\<rparr>"

definition IN_MODIFY :: "32 word" where "IN_MODIFY = 0x002"
definition IN_CREATE :: "32 word" where "IN_CREATE = 0x100"
definition IN_DELETE :: "32 word" where "IN_DELETE = 0x200"

unbundle bit_operations_syntax

definition event_flags :: "32 word" where
  "event_flags = IN_CREATE OR IN_MODIFY OR IN_DELETE"

text \<open>\<open>Mount\<close> up to the joining of the threads; \<open>fd\<close> and \<open>wd\<close> are what the two inotify calls return.  The parameter
  is a reference: \<open>None\<close> is one to the client's own \<open>mount_path\<close>, as in \<open>ProcessCommand\<close>, so that the slash appended
  there is seen through it.  The second result is the path that is watched.\<close>

definition Mount :: "int \<Rightarrow> int \<Rightarrow> string option \<Rightarrow> dclient \<Rightarrow> (dclient \<times> string) res" where
  "Mount fd wd filepath c =
    (let path = (case filepath of None \<Rightarrow> dc_mount_path c | Some p \<Rightarrow> p) in
     if path = [] then Inl (Ub Out_Of_Bounds)
     else let c1 = c\<lparr>dc_mount_path := if last path \<noteq> CHR ''/'' then path @ ''/'' else path\<rparr> in
       if fd < 0 then Inl (Exit (-1))
       else Inr (c1\<lparr>dc_events := dc_events c1 @ [\<lparr>nt_fd = fd, nt_wd = wd, nt_flags = event_flags, nt_joinable = False\<rparr>],
                  dc_async := False\<rparr>, case filepath of None \<Rightarrow> dc_mount_path c1 | Some p \<Rightarrow> p))"

text \<open>\<open>Unmount\<close> and its calls.  \<open>std::unique\<close> moves the first of every run of equal elements to the front and does not shorten the
  vector: the rest of the elements stay where they are.\<close>

datatype ucall = Detach | Inotify_Rm_Watch int int | Close int

definition std_unique :: "'a list \<Rightarrow> 'a list" where
  "std_unique xs = remdups_adj xs @ drop (length (remdups_adj xs)) xs"

definition Unmount :: "dclient \<Rightarrow> dclient \<times> ucall list" where
  "Unmount c =
    (let watches = concat (map (\<lambda>e. (if nt_joinable e then [Detach] else []) @ [Inotify_Rm_Watch (nt_wd e) (nt_fd e)]) (dc_events c));
         closes = map Close (std_unique (map nt_fd (dc_events c)));
         async = (if dc_async c then [Detach] else [])
     in (c\<lparr>dc_node := node_Unmount (dc_node c), dc_events := [], dc_async := False\<rparr>, watches @ closes @ async))"

text \<open>\<open>ProcessCommand\<close>: what it calls, in order; the mount is \<open>Mount\<close> on the client's own path.  The first \<open>if\<close> has no \<open>else\<close>.\<close>

datatype pcall = P_Mount | P_Fetch string | P_Store string | P_Delete string | P_List | P_Stat string | P_Unknown

definition ProcessCommand :: "string \<Rightarrow> string \<Rightarrow> pcall list" where
  "ProcessCommand command filename =
    (if command = ''mount'' then [P_Mount] else []) @
    (if command = ''fetch'' then [P_Fetch filename]
     else if command = ''store'' then [P_Store filename]
     else if command = ''delete'' then [P_Delete filename]
     else if command = ''list'' then [P_List]
     else if command = ''stat'' then [P_Stat filename]
     else [P_Unknown])"


subsection \<open>Events\<close>

text \<open>
  The pattern \<open>.*\.(jpg|png|gif|txt|xlsx|docx|md|psd)$\<close>, matched against the whole name; a dot of the pattern
  does not match a line terminator.
\<close>

definition extensions :: "string list" where
  "extensions = [''jpg'', ''png'', ''gif'', ''txt'', ''xlsx'', ''docx'', ''md'', ''psd'']"

definition ext_match :: "string \<Rightarrow> string \<Rightarrow> bool" where
  "ext_match filename ext =
    (let n = length filename - Suc (length ext) in
     Suc (length ext) \<le> length filename \<and> drop n filename = CHR ''.'' # ext \<and> list_all (\<lambda>c. c \<noteq> LF \<and> c \<noteq> CR) (take n filename))"

definition regex_match :: "string \<Rightarrow> bool" where
  "regex_match filename = list_ex (ext_match filename) extensions"

text \<open>\<open>filename.substr(filename.find_last_of("/") + 1)\<close>; \<open>npos + 1\<close> is 0.\<close>

definition after_slash :: "string \<Rightarrow> string" where
  "after_slash filename = rev (takeWhile (\<lambda>c. c \<noteq> CHR ''/'') (rev filename))"

datatype ncall = N_Store string | N_Delete string

definition InotifyEventCallback :: "32 word \<Rightarrow> string \<Rightarrow> ncall list" where
  "InotifyEventCallback evmask filename =
    (if \<not> regex_match filename then []
     else let basename = after_slash filename in
       (if evmask AND IN_CREATE \<noteq> 0 then [N_Store basename] else []) @
       (if evmask AND IN_MODIFY \<noteq> 0 then [N_Store basename] else []) @
       (if evmask AND IN_DELETE \<noteq> 0 then [N_Delete basename] else []))"

text \<open>
  An event in the buffer (\<open>struct inotify_event\<close>): wd, mask, cookie and len of four bytes each, low byte first, then the name.
  The field is read with \<open>u32_at\<close>; a read outside the buffer is a fault.
\<close>

definition u32_at :: "char list \<Rightarrow> nat \<Rightarrow> nat res" where
  "u32_at buf i =
    (if i + 4 \<le> length buf then
       Inr (of_char (buf ! i) + 256 * of_char (buf ! (i + 1)) + 65536 * of_char (buf ! (i + 2)) + 16777216 * of_char (buf ! (i + 3)))
     else Inl (Ub Out_Of_Bounds))"

definition char_at :: "char list \<Rightarrow> nat \<Rightarrow> char res" where
  "char_at buf i = (if i < length buf then Inr (buf ! i) else Inl (Ub Out_Of_Bounds))"

text \<open>
  The loop over the \<open>len\<close> bytes that were read; \<open>esize\<close> is \<open>DFS_I_EVENT_SIZE\<close> and \<open>None\<close> means still looping.
  The sum of the \<open>int\<close> index and the \<open>size_t\<close> is cut down to an \<open>int\<close>.
\<close>

fun watch_loop :: "nat \<Rightarrow> nat \<Rightarrow> 32 word \<Rightarrow> string \<Rightarrow> char list \<Rightarrow> int \<Rightarrow> int \<Rightarrow> ncall list \<Rightarrow> ncall list res option" where
  "watch_loop 0 esize event_type path buf len index calls = None"
| "watch_loop (Suc n) esize event_type path buf len index calls =
    (if index < len then
       if index < 0 then Some (Inl (Ub Out_Of_Bounds))
       else
         let k = nat index;
             step = bindr (u32_at buf (k + 4)) (\<lambda>m.
               let evmask = word_of_nat m :: 32 word in
               bindr (if event_type AND evmask \<noteq> 0 then
                   bindr (char_at buf (k + 16)) (\<lambda>c.
                     if c \<noteq> CHR ''.'' then bindr (cstr (drop (k + 16) buf)) (\<lambda>name. Inr (InotifyEventCallback evmask (path @ name)))
                     else Inr [])
                 else Inr []) (\<lambda>cs.
               bindr (u32_at buf (k + 12)) (\<lambda>elen. Inr (cs, off_to_int (index + int esize + int elen)))))
         in case step of Inl e \<Rightarrow> Some (Inl e)
            | Inr (cs, index') \<Rightarrow> watch_loop n esize event_type path buf len index' (calls @ cs)
     else Some (Inr calls))"

text \<open>One turn of the thread: what a \<open>read\<close> returns goes to the front of the buffer, the rest stays.  A failed read has length -1.
  \<open>InotifyWatcherCallback\<close>, a method of a class that is not in the repository, is taken to run its argument once.\<close>

definition watch_turn :: "nat \<Rightarrow> nat \<Rightarrow> 32 word \<Rightarrow> cnode \<Rightarrow> char list option \<Rightarrow> char list \<Rightarrow> (ncall list \<times> char list) res option" where
  "watch_turn fuel esize event_type nd rd buf =
    (case rd of None \<Rightarrow> map_option (\<lambda>r. bindr r (\<lambda>cs. Inr (cs, buf))) (watch_loop fuel esize event_type (MountPath nd) buf (-1) 0 [])
     | Some d \<Rightarrow> let buf' = d @ drop (length d) buf in
         map_option (\<lambda>r. bindr r (\<lambda>cs. Inr (cs, buf'))) (watch_loop fuel esize event_type (MountPath nd) buf' (int (length d)) 0 []))"

text \<open>The thread on a sequence of reads; it has no way to end.\<close>

fun InotifyWatcher :: "nat \<Rightarrow> nat \<Rightarrow> 32 word \<Rightarrow> cnode \<Rightarrow> char list option list \<Rightarrow> char list \<Rightarrow> ncall list res option" where
  "InotifyWatcher fuel esize event_type nd [] buf = Some (Inr [])"
| "InotifyWatcher fuel esize event_type nd (rd # rds) buf =
    (case watch_turn fuel esize event_type nd rd buf of
       None \<Rightarrow> None
     | Some (Inl e) \<Rightarrow> Some (Inl e)
     | Some (Inr (cs, buf')) \<Rightarrow> map_option (\<lambda>r. bindr r (\<lambda>cs'. Inr (cs @ cs'))) (InotifyWatcher fuel esize event_type nd rds buf'))"


subsection \<open>What the kernel writes is what the watcher reads\<close>

text \<open>An event as the kernel writes it: the name is followed by one NUL or more up to the length of the event.\<close>

record ievent =
  ie_wd :: nat
  ie_mask :: nat
  ie_cookie :: nat
  ie_name :: string
  ie_pad :: nat

definition u32_bytes :: "nat \<Rightarrow> char list" where
  "u32_bytes n = [char_of (n mod 256), char_of (n div 256 mod 256), char_of (n div 65536 mod 256), char_of (n div 16777216 mod 256)]"

definition event_bytes :: "ievent \<Rightarrow> char list" where
  "event_bytes e = u32_bytes (ie_wd e) @ u32_bytes (ie_mask e) @ u32_bytes (ie_cookie e) @
    u32_bytes (length (ie_name e) + ie_pad e) @ ie_name e @ replicate (ie_pad e) NUL"

definition event_ok :: "ievent \<Rightarrow> bool" where
  "event_ok e \<longleftrightarrow> ie_mask e < 2 ^ 32 \<and> length (ie_name e) + ie_pad e < 2 ^ 32 \<and> 0 < ie_pad e \<and> NUL \<notin> set (ie_name e)"

text \<open>What the watcher of a directory should do for an event.\<close>

definition event_calls :: "32 word \<Rightarrow> string \<Rightarrow> ievent \<Rightarrow> ncall list" where
  "event_calls event_type path e =
    (if event_type AND word_of_nat (ie_mask e) \<noteq> 0 \<and> \<not> (\<exists>r. ie_name e = CHR ''.'' # r)
     then InotifyEventCallback (word_of_nat (ie_mask e)) (path @ ie_name e) else [])"

lemma length_u32_bytes [simp]: "length (u32_bytes n) = 4"
  by (simp add: u32_bytes_def)

lemma u32_at_bytes:
  assumes "n < 2 ^ 32"
  shows "u32_at (pre @ u32_bytes n @ r) (length pre) = Inr n"
proof -
  have d: "n div 65536 = n div 256 div 256" "n div 16777216 = n div 256 div 256 div 256"
    using div_mult2_eq [of n 256 256] div_mult2_eq [of n 256 65536] div_mult2_eq [of "n div 256" 256 256] by simp_all
  have "n div 16777216 < 256" using assms by (simp add: less_mult_imp_div_less)
  then have top: "n div 16777216 mod 256 = n div 16777216" by simp
  have "n mod 256 + 256 * (n div 256 mod 256) + 65536 * (n div 65536 mod 256) + 16777216 * (n div 16777216) = n"
    using mod_mult_div_eq [of n 256] mod_mult_div_eq [of "n div 256" 256] mod_mult_div_eq [of "n div 256 div 256" 256]
    unfolding d by linarith
  then show ?thesis by (simp add: u32_at_def u32_bytes_def nth_append top)
qed

lemma length_event_bytes: "length (event_bytes e) = 16 + (length (ie_name e) + ie_pad e)"
  by (simp add: event_bytes_def)

lemma u32_at_event:
  assumes "event_ok e"
  shows "u32_at (pre @ event_bytes e @ r) (length pre + 4) = Inr (ie_mask e)"
    and "u32_at (pre @ event_bytes e @ r) (length pre + 12) = Inr (length (ie_name e) + ie_pad e)"
  using u32_at_bytes [of "ie_mask e" "pre @ u32_bytes (ie_wd e)"]
    u32_at_bytes [of "length (ie_name e) + ie_pad e" "pre @ u32_bytes (ie_wd e) @ u32_bytes (ie_mask e) @ u32_bytes (ie_cookie e)"] assms
  by (simp_all add: event_ok_def event_bytes_def)

lemma char_at_app: "char_at (xs @ c # ys) (length xs) = Inr c"
  by (simp add: char_at_def)

lemma name_at_event:
  assumes "event_ok e"
  shows "cstr (drop (length pre + 16) (pre @ event_bytes e @ r)) = Inr (ie_name e)"
    and "char_at (pre @ event_bytes e @ r) (length pre + 16) = Inr (case ie_name e of [] \<Rightarrow> NUL | c # cs \<Rightarrow> c)"
proof -
  have d: "pre @ event_bytes e @ r = (pre @ u32_bytes (ie_wd e) @ u32_bytes (ie_mask e) @ u32_bytes (ie_cookie e) @
      u32_bytes (length (ie_name e) + ie_pad e)) @ ie_name e @ replicate (ie_pad e) NUL @ r"
    by (simp add: event_bytes_def)
  have k: "length pre + 16 = length (pre @ u32_bytes (ie_wd e) @ u32_bytes (ie_mask e) @ u32_bytes (ie_cookie e) @
      u32_bytes (length (ie_name e) + ie_pad e))" by simp
  obtain m where m: "ie_pad e = Suc m" using assms by (cases "ie_pad e") (auto simp: event_ok_def)
  show "cstr (drop (length pre + 16) (pre @ event_bytes e @ r)) = Inr (ie_name e)"
    unfolding d k using assms by (simp add: event_ok_def m)
  show "char_at (pre @ event_bytes e @ r) (length pre + 16) = Inr (case ie_name e of [] \<Rightarrow> NUL | c # cs \<Rightarrow> c)"
    unfolding d k by (cases "ie_name e") (simp_all only: m replicate_Suc append_Nil append_Cons char_at_app list.case)
qed

lemma watch_loop_event:
  assumes "event_ok e" "int (length pre + length (event_bytes e) + length r) \<le> INT_MAX" "int (length pre) < len"
  shows "watch_loop (Suc n) 16 event_type path (pre @ event_bytes e @ r) len (int (length pre)) calls =
    watch_loop n 16 event_type path (pre @ event_bytes e @ r) len (int (length (pre @ event_bytes e))) (calls @ event_calls event_type path e)"
proof -
  have i: "off_to_int (int (length pre) + int 16 + int (length (ie_name e) + ie_pad e)) = int (length (pre @ event_bytes e))"
    using assms(2) by (subst off_to_int_small) (simp_all add: length_event_bytes)
  show ?thesis
    unfolding watch_loop.simps using assms(1,3) i
    by (simp add: u32_at_event name_at_event event_calls_def Let_def del: drop_append split: list.split)
qed

lemma watch_loop_events:
  assumes "\<forall>e\<in>set es. event_ok e" "int (length pre + length (concat (map event_bytes es)) + length r) \<le> INT_MAX"
    and "length es < n"
  shows "watch_loop n 16 event_type path (pre @ concat (map event_bytes es) @ r) (int (length pre + length (concat (map event_bytes es))))
      (int (length pre)) calls = Some (Inr (calls @ concat (map (event_calls event_type path) es)))"
  using assms
proof (induction es arbitrary: pre n calls)
  case Nil
  then obtain k where "n = Suc k" by (cases n) auto
  then show ?case by simp
next
  case (Cons e es)
  let ?rest = "concat (map event_bytes es)"
  obtain k where n: "n = Suc k" using Cons.prems(3) by (cases n) auto
  have "watch_loop n 16 event_type path (pre @ event_bytes e @ ?rest @ r) (int (length pre + length (event_bytes e @ ?rest))) (int (length pre)) calls =
    watch_loop k 16 event_type path (pre @ event_bytes e @ ?rest @ r) (int (length pre + length (event_bytes e @ ?rest)))
      (int (length (pre @ event_bytes e))) (calls @ event_calls event_type path e)"
    unfolding n by (rule watch_loop_event) (use Cons.prems(1,2) in \<open>simp_all add: length_event_bytes\<close>)
  also have "\<dots> = Some (Inr ((calls @ event_calls event_type path e) @ concat (map (event_calls event_type path) es)))"
    using Cons.IH [of "pre @ event_bytes e" k "calls @ event_calls event_type path e"] Cons.prems n by (simp add: add.assoc)
  finally show ?case by simp
qed

text \<open>C18. For any sequence of reads, each a sequence of whole events that fits the buffer, the watcher calls for every event, in order,
  what that event asks for, and nothing else: events of no interest and hidden files are skipped, and what is left in the buffer
  from earlier reads is never taken for an event.  As many turns of the loop as there are events, and one, are enough.\<close>

theorem watcher_calls_events:
  assumes "\<forall>es\<in>set reads. (\<forall>e\<in>set es. event_ok e) \<and> length (concat (map event_bytes es)) \<le> length buf \<and> length es < fuel"
    and "int (length buf) \<le> INT_MAX"
  shows "InotifyWatcher fuel 16 event_type nd (map (\<lambda>es. Some (concat (map event_bytes es))) reads) buf =
    Some (Inr (concat (map (\<lambda>es. concat (map (event_calls event_type (MountPath nd)) es)) reads)))"
  using assms
proof (induction reads arbitrary: buf)
  case (Cons es reads)
  let ?d = "concat (map event_bytes es)"
  have len: "length (?d @ drop (length ?d) buf) = length buf" using Cons.prems(1) by simp
  have "int (length ?d + length (drop (length ?d) buf)) \<le> INT_MAX" using len Cons.prems(2) by (simp only: length_append)
  then have "watch_turn fuel 16 event_type nd (Some ?d) buf =
      Some (Inr (concat (map (event_calls event_type (MountPath nd)) es), ?d @ drop (length ?d) buf))"
    using watch_loop_events [of es "[]" "drop (length ?d) buf" fuel event_type "MountPath nd" "[]"] Cons.prems(1)
    by (simp add: watch_turn_def Let_def del: length_concat length_drop)
  moreover have "InotifyWatcher fuel 16 event_type nd (map (\<lambda>es. Some (concat (map event_bytes es))) reads) (?d @ drop (length ?d) buf) =
      Some (Inr (concat (map (\<lambda>es. concat (map (event_calls event_type (MountPath nd)) es)) reads)))"
    using Cons.prems len by (intro Cons.IH) (metis list.set_intros(2), metis)
  ultimately show ?case by simp
qed simp


definition ev :: "nat \<Rightarrow> string \<Rightarrow> ievent" where
  "ev m name = \<lparr>ie_wd = 1, ie_mask = m, ie_cookie = 0, ie_name = name, ie_pad = 16 - length name\<rparr>"

theorem watcher_calls_events_witness:
  "(\<lambda>nd buf. InotifyWatcher 9 16 event_flags nd
      (map (\<lambda>es. Some (concat (map event_bytes es))) [[ev 256 ''a.txt'', ev 2 ''a.txt'', ev 256 ''.a.txt''], [ev 512 ''b.md'', ev 512 ''b.c'']]) buf)
    \<lparr>nd_deadline = None, nd_client_id = [], nd_mount_path = ''m/'', nd_unmounting = False, nd_stub = None\<rparr> (replicate 1000 CHR ''x'') =
   Some (Inr [N_Store ''a.txt'', N_Store ''a.txt'', N_Delete ''b.md''])"
proof -
  let ?nd = "\<lparr>nd_deadline = None, nd_client_id = [], nd_mount_path = ''m/'', nd_unmounting = False, nd_stub = None\<rparr>"
  let ?reads = "[[ev 256 ''a.txt'', ev 2 ''a.txt'', ev 256 ''.a.txt''], [ev 512 ''b.md'', ev 512 ''b.c'']]"
  have r: "\<forall>es\<in>set ?reads. (\<forall>e\<in>set es. event_ok e) \<and> length (concat (map event_bytes es)) \<le> length (replicate 1000 CHR ''x'') \<and> length es < 9"
    by (simp add: event_ok_def ev_def length_event_bytes)
  have "concat (map (\<lambda>es. concat (map (event_calls event_flags ''m/'') es)) ?reads) = [N_Store ''a.txt'', N_Store ''a.txt'', N_Delete ''b.md'']"
    by (simp add: event_calls_def ev_def event_flags_def IN_CREATE_def IN_MODIFY_def IN_DELETE_def
        InotifyEventCallback_def regex_match_def extensions_def ext_match_def after_slash_def Let_def)
  then show ?thesis using watcher_calls_events [OF r, of event_flags ?nd] by (simp add: INT_MAX_def MountPath_def)
qed

text \<open>A visible file with one of the extensions, in a mount path that ends in a slash: a create stores it, a modification stores it,
  a removal deletes it, under its own name, and an event that says several does them in this order.\<close>

theorem event_calls_own_name:
  assumes "ie_name e = stem @ CHR ''.'' # ext" "ext \<in> set extensions" "CHR ''/'' \<notin> set stem" "stem \<noteq> []" "hd stem \<noteq> CHR ''.''"
    and "LF \<notin> set (path @ stem)" "CR \<notin> set (path @ stem)"
  shows "event_calls event_flags (path @ ''/'') e =
    (if word_of_nat (ie_mask e) AND IN_CREATE \<noteq> 0 then [N_Store (ie_name e)] else []) @
    (if word_of_nat (ie_mask e) AND IN_MODIFY \<noteq> 0 then [N_Store (ie_name e)] else []) @
    (if word_of_nat (ie_mask e) AND IN_DELETE \<noteq> 0 then [N_Delete (ie_name e)] else [])"
proof -
  let ?m = "word_of_nat (ie_mask e) :: 32 word"
  have ext: "CHR ''/'' \<notin> set ext" using assms(2) by (auto simp: extensions_def)
  have b: "after_slash (path @ ''/'' @ ie_name e) = ie_name e"
    using assms(1,3) ext by (simp add: after_slash_def takeWhile_append)
  have "ext_match (path @ ''/'' @ ie_name e) ext"
    using assms(1,6,7) by (auto simp: ext_match_def Let_def list_all_iff)
  then have r: "regex_match (path @ ''/'' @ ie_name e)" using assms(2) by (auto simp: regex_match_def list_ex_iff)
  have h: "\<not> (\<exists>r. ie_name e = CHR ''.'' # r)" using assms(1,4,5) by (cases stem) auto
  have "event_flags AND ?m = 0 \<Longrightarrow> ?m AND IN_CREATE = 0 \<and> ?m AND IN_MODIFY = 0 \<and> ?m AND IN_DELETE = 0"
    by (simp add: event_flags_def bit.conj_disj_distrib bit.conj_disj_distrib2 or_eq_0_iff and.commute)
  then show ?thesis using b r h by (simp add: event_calls_def InotifyEventCallback_def Let_def)
qed

theorem event_calls_own_name_witness: "event_calls event_flags (''m'' @ ''/'') (ev 256 ''a.txt'') = [N_Store ''a.txt'']"
  using event_calls_own_name [of "ev 256 ''a.txt''" "''a''" "''txt''" "''m''"]
  by (simp add: ev_def extensions_def IN_CREATE_def IN_MODIFY_def IN_DELETE_def)


subsection \<open>\<open>main\<close>\<close>

text \<open>\<open>std::stoi\<close> throws when there is no number or when it is not an \<open>int\<close>; nobody catches it.\<close>

definition stoi :: "string option \<Rightarrow> int res" where
  "stoi a =
    (case a of None \<Rightarrow> Inl (Ub Null_Deref)
     | Some s \<Rightarrow>
       let t = dropWhile isspace s;
           neg = (t \<noteq> [] \<and> hd t = CHR ''-'');
           u = (if t \<noteq> [] \<and> hd t \<in> {CHR ''-'', CHR ''+''} then tl t else t);
           v = int (undec (takeWhile isdigit u));
           i = (if neg then - v else v)
       in if takeWhile isdigit u = [] \<or> \<not> int_ok i then Inl Abort else Inr i)"

text \<open>\<open>std::string(optarg)\<close>: the long options may come without an argument.\<close>

definition string_arg :: "string option \<Rightarrow> string res" where
  "string_arg a = (case a of None \<Rightarrow> Inl (Ub Null_Deref) | Some s \<Rightarrow> Inr s)"

record dfs_opts =
  do_deadline :: int
  do_debug :: int
  do_mount :: string
  do_server :: string

definition dfs_default :: "int \<Rightarrow> dfs_opts" where
  "dfs_default ll_error = \<lparr>do_deadline = 10000, do_debug = ll_error, do_mount = [], do_server = ''0.0.0.0:42001''\<rparr>"

definition Usage :: fault where "Usage = Exit 1"

definition dfs_option :: "dfs_opts \<Rightarrow> char \<Rightarrow> string option \<Rightarrow> dfs_opts res" where
  "dfs_option o1 c arg =
    (if c = CHR ''a'' then bindr (string_arg arg) (\<lambda>s. Inr (o1\<lparr>do_server := s\<rparr>))
     else if c = CHR ''d'' then bindr (stoi arg) (\<lambda>n. Inr (o1\<lparr>do_debug := n\<rparr>))
     else if c = CHR ''m'' then bindr (string_arg arg) (\<lambda>s. Inr (o1\<lparr>do_mount := s\<rparr>))
     else if c = CHR ''t'' then bindr (stoi arg) (\<lambda>n. Inr (o1\<lparr>do_deadline := n\<rparr>))
     else if c = CHR ''h'' then Inl Usage
     else if c = CHR ''?'' then Inl (Exit 1)
     else Inl Abort)"

text \<open>The loop over the other arguments, which sees an empty one as a missing one.\<close>

fun positionals :: "string \<Rightarrow> string \<Rightarrow> string list \<Rightarrow> string \<times> string" where
  "positionals command filename [] = (command, filename)"
| "positionals command filename (a # as) =
    (if command = [] then positionals a filename as
     else if filename = [] then positionals command a as
     else positionals command filename as)"

text \<open>\<open>s.find(x) != npos\<close>\<close>

fun str_find :: "string \<Rightarrow> string \<Rightarrow> bool" where
  "str_find [] x = (x = [])"
| "str_find (c # cs) x = (take (length x) (c # cs) = x \<or> str_find cs x)"

definition all_commands :: string where "all_commands = ''fetch store delete list stat mount sync''"
definition nonpath_commands :: string where "nonpath_commands = ''list mount sync''"

text \<open>
  \<open>ll_error\<close> is the number of \<open>LL_ERROR\<close>, \<open>cwd\<close> the answer of \<open>getcwd\<close>, \<open>found\<close> tells which paths can be statted, \<open>c0\<close> is the global
  client.  The result: the client when the command is processed, the new log level if it is set, and the calls.
\<close>

definition dfs_main ::
  "int \<Rightarrow> (string \<Rightarrow> string) \<Rightarrow> string option \<Rightarrow> (string \<Rightarrow> bool) \<Rightarrow> opt list \<Rightarrow> string list \<Rightarrow> dclient \<Rightarrow> (dclient \<times> int option \<times> pcall list) res" where
  "dfs_main ll_error dfs_clean_path cwd found opts args c0 =
    (case cwd of None \<Rightarrow> Inl (Exit 1)
     | Some working_directory \<Rightarrow>
       bindr (getopt_loop dfs_option (dfs_default ll_error) opts) (\<lambda>o1.
       let level = (if 0 < do_debug o1 \<and> do_debug o1 \<le> 3 then Some (do_debug o1 + 1) else None);
           mount_path = (if do_mount o1 = [] then working_directory @ ''/mnt/client'' else do_mount o1)
       in if \<not> found mount_path then Inl (Exit 1)
          else case positionals [] [] args of (command, filename) \<Rightarrow>
            if command = [] then Inl Usage
            else if \<not> str_find all_commands command then Inl Usage
            else if filename = [] \<and> \<not> str_find nonpath_commands command then Inl Usage
            else let c = InitializeClientNode (do_server o1) (SetDeadlineTimeout (do_deadline o1) (SetMountPath dfs_clean_path mount_path c0))
              in Inr (c, level, ProcessCommand command filename)))"

text \<open>\<open>HandleSignal\<close>\<close>

definition HandleSignal :: "dclient \<Rightarrow> fault \<times> dclient \<times> ucall list" where
  "HandleSignal c = (Exit 0, Unmount c)"

lemma str_find_iff: "str_find s x \<longleftrightarrow> (\<exists>p r. s = p @ x @ r)"
proof (induction s)
  case (Cons c cs)
  show ?case
  proof
    assume "str_find (c # cs) x"
    then consider "take (length x) (c # cs) = x" | "str_find cs x" by auto
    then show "\<exists>p r. c # cs = p @ x @ r"
    proof cases
      case 1
      then have "c # cs = [] @ x @ drop (length x) (c # cs)" by (metis append_Nil append_take_drop_id)
      then show ?thesis by blast
    next
      case 2
      then obtain p r where "cs = p @ x @ r" using Cons.IH by blast
      then have "c # cs = (c # p) @ x @ r" by simp
      then show ?thesis by blast
    qed
  next
    assume "\<exists>p r. c # cs = p @ x @ r"
    then obtain p r where e: "c # cs = p @ x @ r" by blast
    show "str_find (c # cs) x"
    proof (cases p)
      case Nil
      then have "take (length x) (c # cs) = x" using e by simp
      then show ?thesis by simp
    next
      case (Cons d p')
      then show ?thesis using e Cons.IH by auto
    qed
  qed
qed auto

text \<open>The command line without options, with a command and a file name, on the default mount path: it is accepted when the
  command is a piece of the string of all commands (as \<open>s\<close> and \<open>e delete l\<close> are, by \<open>str_find_iff\<close>) and ends with status 1 otherwise; the client has
  the cleaned path and the deadline of 10000; and the report of an unknown command is made for every accepted
  command but the five operations, also for \<open>mount\<close>.\<close>

theorem dfs_main_commands:
  assumes "found (w @ ''/mnt/client'')" "command \<noteq> []" "filename \<noteq> []"
  shows "(\<exists>c level calls. dfs_main ll clean (Some w) found [] [command, filename] cl = Inr (c, level, calls) \<and>
      str_find all_commands command \<and>
      dc_mount_path c = clean (w @ ''/mnt/client'') \<and> nd_mount_path (dc_node c) = dc_mount_path c \<and>
      nd_deadline (dc_node c) = Some 10000 \<and>
      (P_Unknown \<in> set calls \<longleftrightarrow> command \<notin> {''fetch'', ''store'', ''delete'', ''list'', ''stat''})) \<or>
    dfs_main ll clean (Some w) found [] [command, filename] cl = Inl (Exit 1) \<and>
      \<not> str_find all_commands command"
proof (cases "str_find all_commands command")
  case True
  then show ?thesis using assms
    by (simp add: dfs_main_def dfs_default_def Let_def InitializeClientNode_def SetDeadlineTimeout_def
        SetMountPath_def node_SetDeadlineTimeout_def node_SetMountPath_def CreateStub_def ProcessCommand_def)
next
  case False
  then show ?thesis using assms
    by (simp add: dfs_main_def dfs_default_def Let_def Usage_def)
qed

definition c_init :: dclient where
  "c_init = \<lparr>dc_deadline = None, dc_mount_path = [],
    dc_node = \<lparr>nd_deadline = None, nd_client_id = ''idT1'', nd_mount_path = ''mnt/client/'', nd_unmounting = False, nd_stub = None\<rparr>,
    dc_events = [], dc_async = False\<rparr>"

theorem dfs_main_commands_witness:
  "\<exists>c level calls. dfs_main 1 (\<lambda>p. p @ ''/'') (Some ''/home'') (\<lambda>_. True) [] [''sync'', ''f''] c_init = Inr (c, level, calls) \<and>
    P_Unknown \<in> set calls"
proof -
  have "str_find all_commands ''sync''" by (simp add: all_commands_def)
  then show ?thesis
    using dfs_main_commands [where found = "\<lambda>_. True" and w = "''/home''" and command = "''sync''" and filename = "''f''"
      and ll = 1 and clean = "\<lambda>p. p @ ''/''" and cl = c_init] by auto
qed

text \<open>A client that mounted a path of a watch and is then ended by a signal: it leaves with status 0, closes the
  inotify descriptor once and asks for the removal of the watch with the two descriptors exchanged
  (\<open>inotify_rm_watch(wd, fd)\<close>), so unless they are equal no watch of \<open>fd\<close> is removed by the call.\<close>

theorem mount_signal_unmount:
  assumes "dc_mount_path c \<noteq> []" "0 \<le> fd" "dc_events c = []"
  shows "\<exists>c1 c2. Mount fd wd None c = Inr (c1, dc_mount_path c1) \<and> last (dc_mount_path c1) = CHR ''/'' \<and>
    HandleSignal c1 = (Exit 0, c2, [Inotify_Rm_Watch wd fd, Close fd]) \<and> Unmounting (dc_node c2) \<and> dc_events c2 = []"
  using assms by (simp add: Mount_def Let_def HandleSignal_def Unmount_def std_unique_def Unmounting_def node_Unmount_def)

theorem mount_signal_unmount_witness:
  "\<exists>c1 c2. Mount 3 1 None (c_init\<lparr>dc_mount_path := ''m''\<rparr>) = Inr (c1, dc_mount_path c1) \<and>
    HandleSignal c1 = (Exit 0, c2, [Inotify_Rm_Watch 1 3, Close 3])"
  using mount_signal_unmount [of "c_init\<lparr>dc_mount_path := ''m''\<rparr>" 3 1] by (auto simp: c_init_def)

end
