(* ===== verification/Getopt.thy ===== *)
theory Getopt
  imports Options "HOL-Library.Sublist"
begin

section \<open>The scanner of command lines\<close>

text \<open>
  \<open>getopt_long\<close> of the C library, as every \<open>main\<close> calls it: with a string of short options that does not start with \<open>:\<close>,
  \<open>+\<close> or \<open>-\<close>, a table whose entries have no flag, and until it returns -1.  The results of all the calls are
  computed in one pass, which leaves the other arguments (the operands), in order, as the calls leave them at the end of
  \<open>argv\<close>.  What is printed on an error is left out.
\<close>

datatype has_arg = No_argument | Required_argument | Optional_argument

record loption =
  lo_name :: string
  lo_arg :: has_arg
  lo_val :: char

text \<open>The string of short options and the table of the long ones.\<close>

type_synonym opttab = "string \<times> loption list"

definition short_arg :: "string \<Rightarrow> char \<Rightarrow> has_arg option" where
  "short_arg os c =
    (if c = CHR '':'' \<or> c = CHR '';'' then None
     else case dropWhile (\<lambda>d. d \<noteq> c) os of [] \<Rightarrow> None
     | _ # rest \<Rightarrow> Some (if take 2 rest = ''::'' then Optional_argument
         else if take 1 rest = '':'' then Required_argument else No_argument))"

text \<open>An entry with exactly this name, or else the entries that begin with it, which must not differ.\<close>

definition long_match :: "loption list \<Rightarrow> string \<Rightarrow> loption option" where
  "long_match tab n =
    (case find (\<lambda>l. lo_name l = n) tab of Some l \<Rightarrow> Some l
     | None \<Rightarrow> case filter (\<lambda>l. prefix n (lo_name l)) tab of [] \<Rightarrow> None
       | l # ls \<Rightarrow> if \<forall>k\<in>set ls. lo_arg k = lo_arg l \<and> lo_val k = lo_val l then Some l else None)"

text \<open>What one argument yields: results, and an option that takes the next argument as its own.\<close>

type_synonym scanned = "opt list \<times> char option"

fun scan_short :: "string \<Rightarrow> string \<Rightarrow> scanned" where
  "scan_short os [] = ([], None)"
| "scan_short os (c # cs) =
    (case short_arg os c of
       None \<Rightarrow> apfst (Cons (CHR ''?'', None)) (scan_short os cs)
     | Some No_argument \<Rightarrow> apfst (Cons (c, None)) (scan_short os cs)
     | Some Optional_argument \<Rightarrow> ([(c, if cs = [] then None else Some cs)], None)
     | Some Required_argument \<Rightarrow> if cs = [] then ([], Some c) else ([(c, Some cs)], None))"

definition scan_long :: "loption list \<Rightarrow> string \<Rightarrow> scanned" where
  "scan_long tab s =
    (case long_match tab (takeWhile (\<lambda>c. c \<noteq> CHR ''='') s) of None \<Rightarrow> ([(CHR ''?'', None)], None)
     | Some l \<Rightarrow> case dropWhile (\<lambda>c. c \<noteq> CHR ''='') s of
         [] \<Rightarrow> if lo_arg l = Required_argument then ([], Some (lo_val l)) else ([(lo_val l, None)], None)
       | _ # v \<Rightarrow> ([if lo_arg l = No_argument then (CHR ''?'', None) else (lo_val l, Some v)], None))"

definition is_operand :: "string \<Rightarrow> bool" where
  "is_operand a \<longleftrightarrow> a = [] \<or> a = ''-'' \<or> hd a \<noteq> CHR ''-''"

definition scan_word :: "opttab \<Rightarrow> string \<Rightarrow> scanned" where
  "scan_word tab a =
    (if take 2 a = ''--'' then scan_long (snd tab) (drop 2 a) else scan_short (fst tab) (tl a))"

fun getopt_long :: "opttab \<Rightarrow> string list \<Rightarrow> opt list \<times> string list" where
  "getopt_long tab [] = ([], [])"
| "getopt_long tab (a # as) =
    (if a = ''--'' then ([], as)
     else if is_operand a then apsnd (Cons a) (getopt_long tab as)
     else case scan_word tab a of
       (os, None) \<Rightarrow> apfst (append os) (getopt_long tab as)
     | (os, Some c) \<Rightarrow> case as of
         [] \<Rightarrow> (os @ [(CHR ''?'', None)], [])
       | b # bs \<Rightarrow> apfst (append (os @ [(c, Some b)])) (getopt_long tab bs))"

subsection \<open>Spellings\<close>

text \<open>
  The ways to write options.  The \<open>cs\<close> in front are flags in the same argument, the names of long options may be
  abbreviated.
\<close>

datatype item = Flags string | Short_sep string char string | Short_att string char string
  | Long_flag string | Long_eq string string | Long_sep string string | Operand string

fun spell :: "item \<Rightarrow> string list" where
  "spell (Flags cs) = [''-'' @ cs]"
| "spell (Short_sep cs c v) = [''-'' @ cs @ [c], v]"
| "spell (Short_att cs c v) = [''-'' @ cs @ [c] @ v]"
| "spell (Long_flag n) = [''--'' @ n]"
| "spell (Long_eq n v) = [''--'' @ n @ ''='' @ v]"
| "spell (Long_sep n v) = [''--'' @ n, v]"
| "spell (Operand s) = [s]"

definition flag_of :: "string \<Rightarrow> char \<Rightarrow> bool" where
  "flag_of os c \<longleftrightarrow> short_arg os c = Some No_argument"

definition long_of :: "loption list \<Rightarrow> string \<Rightarrow> (has_arg \<Rightarrow> bool) \<Rightarrow> bool" where
  "long_of tab n P \<longleftrightarrow> CHR ''='' \<notin> set n \<and> (case long_match tab n of None \<Rightarrow> False | Some l \<Rightarrow> P (lo_arg l))"

fun item_ok :: "opttab \<Rightarrow> item \<Rightarrow> bool" where
  "item_ok tab (Flags cs) \<longleftrightarrow> cs \<noteq> [] \<and> hd cs \<noteq> CHR ''-'' \<and> list_all (flag_of (fst tab)) cs"
| "item_ok tab (Short_sep cs c v) \<longleftrightarrow> hd (cs @ [c]) \<noteq> CHR ''-'' \<and> list_all (flag_of (fst tab)) cs \<and>
    short_arg (fst tab) c = Some Required_argument"
| "item_ok tab (Short_att cs c v) \<longleftrightarrow> hd (cs @ [c]) \<noteq> CHR ''-'' \<and> list_all (flag_of (fst tab)) cs \<and> v \<noteq> [] \<and>
    short_arg (fst tab) c \<in> {Some Required_argument, Some Optional_argument}"
| "item_ok tab (Long_flag n) \<longleftrightarrow> n \<noteq> [] \<and> long_of (snd tab) n (\<lambda>a. a \<noteq> Required_argument)"
| "item_ok tab (Long_eq n v) \<longleftrightarrow> long_of (snd tab) n (\<lambda>a. a \<noteq> No_argument)"
| "item_ok tab (Long_sep n v) \<longleftrightarrow> n \<noteq> [] \<and> long_of (snd tab) n (\<lambda>a. a = Required_argument)"
| "item_ok tab (Operand s) \<longleftrightarrow> is_operand s"

definition long_val :: "opttab \<Rightarrow> string \<Rightarrow> char" where
  "long_val tab n = lo_val (the (long_match (snd tab) n))"

fun item_opts :: "opttab \<Rightarrow> item \<Rightarrow> opt list" where
  "item_opts tab (Flags cs) = map (\<lambda>c. (c, None)) cs"
| "item_opts tab (Short_sep cs c v) = map (\<lambda>c. (c, None)) cs @ [(c, Some v)]"
| "item_opts tab (Short_att cs c v) = map (\<lambda>c. (c, None)) cs @ [(c, Some v)]"
| "item_opts tab (Long_flag n) = [(long_val tab n, None)]"
| "item_opts tab (Long_eq n v) = [(long_val tab n, Some v)]"
| "item_opts tab (Long_sep n v) = [(long_val tab n, Some v)]"
| "item_opts tab (Operand s) = []"

fun item_operands :: "item \<Rightarrow> string list" where
  "item_operands (Operand s) = [s]"
| "item_operands _ = []"

lemma scan_flags: "list_all (flag_of os) cs \<Longrightarrow>
    scan_short os (cs @ ds) = apfst (append (map (\<lambda>c. (c, None)) cs)) (scan_short os ds)"
  by (induction cs) (auto simp: flag_of_def apfst_def map_prod_def split: prod.splits)

lemma take_eq_plain:
  assumes "CHR ''='' \<notin> set n"
  shows "takeWhile (\<lambda>c. c \<noteq> CHR ''='') n = n" "dropWhile (\<lambda>c. c \<noteq> CHR ''='') n = []"
  using assms by (auto simp: takeWhile_eq_all_conv)

lemma take_eq_value:
  assumes "CHR ''='' \<notin> set n"
  shows "takeWhile (\<lambda>c. c \<noteq> CHR ''='') (n @ CHR ''='' # v) = n"
    and "dropWhile (\<lambda>c. c \<noteq> CHR ''='') (n @ CHR ''='' # v) = CHR ''='' # v"
  using assms by (induction n) auto

lemma long_ofE:
  assumes "long_of tab n P"
  obtains l where "long_match tab n = Some l" "P (lo_arg l)" "CHR ''='' \<notin> set n"
  using assms by (auto simp: long_of_def split: option.splits)

lemma apfst_pair: "apfst (append os) p = (os @ fst p, snd p)" and apsnd_pair: "apsnd (Cons a) q = (fst q, a # snd q)"
  by (simp_all add: apfst_def apsnd_def map_prod_def split: prod.splits)

lemma getopt_word: "a \<noteq> ''--'' \<Longrightarrow> \<not> is_operand a \<Longrightarrow> scan_word tab a = (os, None) \<Longrightarrow>
    getopt_long tab (a # as) = (os @ fst (getopt_long tab as), snd (getopt_long tab as))"
  by (simp add: apfst_pair)

lemma getopt_word_arg: "a \<noteq> ''--'' \<Longrightarrow> \<not> is_operand a \<Longrightarrow> scan_word tab a = (os, Some c) \<Longrightarrow>
    getopt_long tab (a # b # bs) = (os @ (c, Some b) # fst (getopt_long tab bs), snd (getopt_long tab bs))"
  by (simp add: apfst_pair)

lemma getopt_operand: "is_operand a \<Longrightarrow>
    getopt_long tab (a # as) = (fst (getopt_long tab as), a # snd (getopt_long tab as))"
  by (auto simp: apsnd_pair is_operand_def)

lemma short_word: "cs \<noteq> [] \<Longrightarrow> hd cs \<noteq> CHR ''-'' \<Longrightarrow>
    CHR ''-'' # cs \<noteq> ''--'' \<and> \<not> is_operand (CHR ''-'' # cs) \<and> scan_word tab (CHR ''-'' # cs) = scan_short (fst tab) cs"
  by (cases cs) (auto simp: is_operand_def scan_word_def)

lemma long_word: "n \<noteq> [] \<Longrightarrow> CHR ''-'' # CHR ''-'' # n \<noteq> ''--'' \<and> \<not> is_operand (CHR ''-'' # CHR ''-'' # n) \<and>
    scan_word tab (CHR ''-'' # CHR ''-'' # n) = scan_long (snd tab) n"
  by (auto simp: is_operand_def scan_word_def)

lemma scan_long_plain: "long_of tab n (\<lambda>a. a \<noteq> Required_argument) \<Longrightarrow>
    scan_long tab n = ([(lo_val (the (long_match tab n)), None)], None)"
  by (erule long_ofE) (simp add: scan_long_def take_eq_plain)

lemma scan_long_next: "long_of tab n (\<lambda>a. a = Required_argument) \<Longrightarrow>
    scan_long tab n = ([], Some (lo_val (the (long_match tab n))))"
  by (erule long_ofE) (simp add: scan_long_def take_eq_plain)

lemma scan_long_value: "long_of tab n (\<lambda>a. a \<noteq> No_argument) \<Longrightarrow>
    scan_long tab (n @ CHR ''='' # v) = ([(lo_val (the (long_match tab n)), Some v)], None)"
  by (erule long_ofE) (simp add: scan_long_def take_eq_value)

text \<open>One item is read as what it means, whatever follows it.\<close>

lemma getopt_item:
  assumes "item_ok tab i"
  shows "getopt_long tab (spell i @ as) =
    (item_opts tab i @ fst (getopt_long tab as), item_operands i @ snd (getopt_long tab as))"
proof (cases i)
  case (Flags cs)
  then have "scan_short (fst tab) cs = (map (\<lambda>c. (c, None)) cs, None)"
    using assms scan_flags [of "fst tab" cs "[]"] by simp
  then show ?thesis using Flags assms short_word [of cs tab] by (simp add: getopt_word del: getopt_long.simps)
next
  case (Short_sep cs c v)
  then have "scan_short (fst tab) (cs @ [c]) = (map (\<lambda>c. (c, None)) cs, Some c)"
    using assms scan_flags [of "fst tab" cs "[c]"] by simp
  then show ?thesis using Short_sep assms short_word [of "cs @ [c]" tab]
    by (simp add: getopt_word_arg del: getopt_long.simps)
next
  case (Short_att cs c v)
  then have "scan_short (fst tab) (cs @ c # v) = (map (\<lambda>c. (c, None)) cs @ [(c, Some v)], None)"
    using assms scan_flags [of "fst tab" cs "c # v"] by auto
  moreover have "hd (cs @ c # v) = hd (cs @ [c])" by (cases cs) simp_all
  ultimately show ?thesis using Short_att assms short_word [of "cs @ c # v" tab]
    by (simp add: getopt_word del: getopt_long.simps)
next
  case (Long_flag n)
  then show ?thesis using assms long_word [of n tab] scan_long_plain [of "snd tab" n]
    by (simp add: getopt_word long_val_def del: getopt_long.simps)
next
  case (Long_eq n v)
  then show ?thesis using assms long_word [of "n @ CHR ''='' # v" tab] scan_long_value [of "snd tab" n]
    by (simp add: getopt_word long_val_def del: getopt_long.simps)
next
  case (Long_sep n v)
  then show ?thesis using assms long_word [of n tab] scan_long_next [of "snd tab" n]
    by (simp add: getopt_word_arg long_val_def del: getopt_long.simps)
next
  case (Operand s)
  then show ?thesis using assms by (simp add: getopt_operand del: getopt_long.simps)
qed

lemma getopt_items:
  "list_all (item_ok tab) is \<Longrightarrow> getopt_long tab (concat (map spell is) @ as) =
    (concat (map (item_opts tab) is) @ fst (getopt_long tab as),
     concat (map item_operands is) @ snd (getopt_long tab as))"
  by (induction "is") (simp_all add: getopt_item del: getopt_long.simps)

lemma getopt_loop_append: "getopt_loop f o1 (xs @ ys) = bindr (getopt_loop f o1 xs) (\<lambda>o2. getopt_loop f o2 ys)"
  by (induction f o1 xs rule: getopt_loop.induct) (auto simp: bindr_def split: sum.splits)

end
