(* ===== verification/CommandLines.thy ===== *)
theory CommandLines
  imports Mains DfsMount Getopt
begin

section \<open>The command lines of the programs\<close>

text \<open>
  For every program the options as \<open>main\<close> gives them to \<open>getopt_long\<close> (\<open>_tab\<close>: the string in the call and the table
  \<open>gLongOptions\<close>), the options its usage text names (\<open>_usage\<close>), and the loop over them with the switch of \<open>main\<close>.  The
  theorems are about whole command lines: what is documented works in every spelling, with the exceptions shown.
\<close>

abbreviation lopt :: "string \<Rightarrow> has_arg \<Rightarrow> char \<Rightarrow> loption" where
  "lopt n a v \<equiv> \<lparr>lo_name = n, lo_arg = a, lo_val = v\<rparr>"

subsection \<open>Tables and usage texts\<close>

text \<open>pr1/echo/echoserver.c\<close>

definition echoserver_tab :: opttab where
  "echoserver_tab = (''hx:m:p:'', [lopt ''help'' No_argument (CHR ''h''),
    lopt ''port'' Required_argument (CHR ''p''),
    lopt ''maxnpending'' Required_argument (CHR ''m'')])"

definition echoserver_usage :: string where "echoserver_usage = ''pmh''"

text \<open>pr1/echo/echoclient.c\<close>

definition echoclient_tab :: opttab where
  "echoclient_tab = (''p:s:m:hx'', [lopt ''server'' Required_argument (CHR ''s''),
    lopt ''port'' Required_argument (CHR ''p''),
    lopt ''message'' Required_argument (CHR ''m''),
    lopt ''help'' No_argument (CHR ''h'')])"

definition echoclient_usage :: string where "echoclient_usage = ''spmh''"

text \<open>pr1/transfer/transferserver.c\<close>

definition transferserver_tab :: opttab where
  "transferserver_tab = (''hf:xp:'', [lopt ''help'' No_argument (CHR ''h''),
    lopt ''port'' Required_argument (CHR ''p''),
    lopt ''filename'' Required_argument (CHR ''f'')])"

definition transferserver_usage :: string where "transferserver_usage = ''hfp''"

text \<open>pr1/transfer/transferclient.c\<close>

definition transferclient_tab :: opttab where
  "transferclient_tab = (''xp:s:h:o:'', [lopt ''server'' Required_argument (CHR ''s''),
    lopt ''output'' Required_argument (CHR ''o''),
    lopt ''port'' Required_argument (CHR ''p''),
    lopt ''help'' No_argument (CHR ''h'')])"

definition transferclient_usage :: string where "transferclient_usage = ''hpso''"

text \<open>pr1/gflib/gfserver_main.c\<close>

definition gfmain_tab :: opttab where
  "gfmain_tab = (''hal:p:m:'', [lopt ''help'' No_argument (CHR ''h''),
    lopt ''content'' Required_argument (CHR ''m''),
    lopt ''port'' Required_argument (CHR ''p'')])"

definition gfmain_usage :: string where "gfmain_usage = ''hmp''"

text \<open>pr1/gflib/gfclient_download.c\<close>

definition download_tab :: opttab where
  "download_tab = (''l:rhp:s:n:'', [lopt ''help'' No_argument (CHR ''h''),
    lopt ''nrequests'' Required_argument (CHR ''n''),
    lopt ''port'' Required_argument (CHR ''p''),
    lopt ''workload-path'' Required_argument (CHR ''l''),
    lopt ''server'' Required_argument (CHR ''s'')])"

definition download_usage :: string where "download_usage = ''hspwr''"

text \<open>pr1/mtgf/gfserver_main.c\<close>

definition mts_tab :: opttab where
  "mts_tab = (''p:d:rhm:t:'', [lopt ''help'' No_argument (CHR ''h''),
    lopt ''delay'' Required_argument (CHR ''d''),
    lopt ''nthreads'' Required_argument (CHR ''t''),
    lopt ''content'' Required_argument (CHR ''m''),
    lopt ''port'' Required_argument (CHR ''p'')])"

definition mts_usage :: string where "mts_usage = ''htmpd''"

text \<open>pr1/mtgf/gfclient_download.c\<close>

definition mtclient_tab :: opttab where
  "mtclient_tab = (''p:n:hs:t:r:w:'', [lopt ''help'' No_argument (CHR ''h''),
    lopt ''nrequests'' Required_argument (CHR ''r''),
    lopt ''server'' Required_argument (CHR ''s''),
    lopt ''port'' Required_argument (CHR ''p''),
    lopt ''workload-path'' Required_argument (CHR ''w''),
    lopt ''nthreads'' Required_argument (CHR ''t'')])"

definition mtclient_usage :: string where "mtclient_usage = ''hspwtr''"

text \<open>pr3/server/webproxy.c\<close>

definition webproxy_tab :: opttab where
  "webproxy_tab = (''qp:s:t:xh'', [lopt ''help'' No_argument (CHR ''h''),
    lopt ''port'' Required_argument (CHR ''p''),
    lopt ''server'' Required_argument (CHR ''s''),
    lopt ''thread-count'' Required_argument (CHR ''t'')])"

definition webproxy_usage :: string where "webproxy_usage = ''psth''"

text \<open>pr3/cache/webproxy.c\<close>

definition cacheproxy_tab :: opttab where
  "cacheproxy_tab = (''s:qt:hn:xp:z:l'', [lopt ''segment-count'' Required_argument (CHR ''n''),
    lopt ''port'' Required_argument (CHR ''p''),
    lopt ''thread-count'' Required_argument (CHR ''t''),
    lopt ''server'' Required_argument (CHR ''s''),
    lopt ''segment-size'' Required_argument (CHR ''z''),
    lopt ''help'' No_argument (CHR ''h''),
    lopt ''hidden'' No_argument (CHR ''i'')])"

definition cacheproxy_usage :: string where "cacheproxy_usage = ''nptszh''"

text \<open>pr3/cache/simplecached.c\<close>

definition simplecached_tab :: opttab where
  "simplecached_tab = (''id:c:hlxt:'', [lopt ''cachedir'' Required_argument (CHR ''c''),
    lopt ''nthreads'' Required_argument (CHR ''t''),
    lopt ''help'' No_argument (CHR ''h''),
    lopt ''hidden'' No_argument (CHR ''i''),
    lopt ''delay'' Required_argument (CHR ''d'')])"

definition simplecached_usage :: string where "simplecached_usage = ''ctdh''"

text \<open>pr4/part2/dfs-client-p2.cpp\<close>

definition dfs_tab :: opttab where
  "dfs_tab = (''a:d:m:r:t:h'', [lopt ''address'' Optional_argument (CHR ''a''),
    lopt ''debug_level'' Optional_argument (CHR ''d''),
    lopt ''mount_path'' Optional_argument (CHR ''m''),
    lopt ''deadline_timeout'' Optional_argument (CHR ''t''),
    lopt ''help'' No_argument (CHR ''h'')])"

definition dfs_usage :: string where "dfs_usage = ''admth''"

definition fault_of :: "'a res \<Rightarrow> fault option" where
  "fault_of r = (case r of Inl e \<Rightarrow> Some e | Inr _ \<Rightarrow> None)"

subsection \<open>All programs\<close>

datatype program = Echoserver | Echoclient | Transferserver | Transferclient | Gfserver | Gfclient
  | Mtserver | Mtclient | Webproxy | Cacheproxy | Simplecached | Dfsclient

fun options_of :: "program \<Rightarrow> opttab" where
  "options_of Echoserver = echoserver_tab"
| "options_of Echoclient = echoclient_tab"
| "options_of Transferserver = transferserver_tab"
| "options_of Transferclient = transferclient_tab"
| "options_of Gfserver = gfmain_tab"
| "options_of Gfclient = download_tab"
| "options_of Mtserver = mts_tab"
| "options_of Mtclient = mtclient_tab"
| "options_of Webproxy = webproxy_tab"
| "options_of Cacheproxy = cacheproxy_tab"
| "options_of Simplecached = simplecached_tab"
| "options_of Dfsclient = dfs_tab"

fun usage :: "program \<Rightarrow> string" where
  "usage Echoserver = echoserver_usage"
| "usage Echoclient = echoclient_usage"
| "usage Transferserver = transferserver_usage"
| "usage Transferclient = transferclient_usage"
| "usage Gfserver = gfmain_usage"
| "usage Gfclient = download_usage"
| "usage Mtserver = mts_usage"
| "usage Mtclient = mtclient_usage"
| "usage Webproxy = webproxy_usage"
| "usage Cacheproxy = cacheproxy_usage"
| "usage Simplecached = simplecached_usage"
| "usage Dfsclient = dfs_usage"

text \<open>How the loop over the options ends the process, if it does; \<open>ll\<close> is the number of \<open>LL_ERROR\<close> in pr4.\<close>

fun option_loop :: "int \<Rightarrow> program \<Rightarrow> opt list \<Rightarrow> fault option" where
  "option_loop ll Echoserver os = fault_of (getopt_loop echoserver_option echoserver_default os)"
| "option_loop ll Echoclient os = fault_of (getopt_loop echoclient_option echoclient_default os)"
| "option_loop ll Transferserver os = fault_of (getopt_loop transferserver_option transferserver_default os)"
| "option_loop ll Transferclient os = fault_of (getopt_loop transferclient_option transferclient_default os)"
| "option_loop ll Gfserver os = fault_of (getopt_loop gfmain_option gfmain_default os)"
| "option_loop ll Gfclient os = fault_of (getopt_loop download_option download_default os)"
| "option_loop ll Mtserver os = fault_of (getopt_loop mts_option mts_default os)"
| "option_loop ll Mtclient os = fault_of (getopt_loop mtclient_option mtclient_default os)"
| "option_loop ll Webproxy os = fault_of (getopt_loop webproxy_option webproxy_default os)"
| "option_loop ll Cacheproxy os = fault_of (getopt_loop cacheproxy_option cacheproxy_default os)"
| "option_loop ll Simplecached os = fault_of (getopt_loop simplecached_option simplecached_default os)"
| "option_loop ll Dfsclient os = fault_of (getopt_loop dfs_option (dfs_default ll) os)"

definition main_options :: "int \<Rightarrow> program \<Rightarrow> string list \<Rightarrow> fault option" where
  "main_options ll p argv = option_loop ll p (fst (getopt_long (options_of p) argv))"

subsection \<open>The switches\<close>

lemma getopt_loop_ok:
  "(\<And>c a o1. (c, a) \<in> set os \<Longrightarrow> returns (f o1 c a)) \<Longrightarrow> fault_of (getopt_loop f o1 os) = None"
proof (induction os arbitrary: o1)
  case (Cons x os)
  obtain c a where x: "x = (c, a)" by force
  then obtain o2 where "f o1 c a = Inr o2" using Cons.prems [of c a o1] by (auto simp: returns_def split: sum.splits)
  then show ?case using x Cons by (simp add: fault_of_def)
qed (simp add: fault_of_def)

lemma fault_of_append: "fault_of (getopt_loop f o1 xs) = None \<Longrightarrow>
    \<exists>o2. getopt_loop f o1 xs = Inr o2 \<and> getopt_loop f o1 (xs @ ys) = getopt_loop f o2 ys"
  by (auto simp: fault_of_def getopt_loop_append split: sum.splits)

text \<open>An option with an argument is one that can have it.\<close>

definition takes_arg :: "opttab \<Rightarrow> char \<Rightarrow> bool" where
  "takes_arg tab c \<longleftrightarrow> short_arg (fst tab) c \<in> {Some Required_argument, Some Optional_argument} \<or>
    (\<exists>l\<in>set (snd tab). lo_val l = c \<and> lo_arg l \<noteq> No_argument)"

lemma long_match_in: "long_match tab n = Some l \<Longrightarrow> l \<in> set tab"
  by (auto simp: long_match_def find_Some_iff filter_eq_Cons_iff split: option.splits list.splits if_splits)

lemma item_takes_arg:
  assumes "item_ok tab i" "(c, Some v) \<in> set (item_opts tab i)"
  shows "takes_arg tab c"
  using assms
  by (cases i) (auto simp: takes_arg_def long_val_def elim!: long_ofE dest: long_match_in)

lemma stoi_dec: "int n \<le> INT_MAX \<Longrightarrow> stoi (Some (dec n)) = Inr (int n)"
proof -
  assume n: "int n \<le> INT_MAX"
  have h: "hd (dec n) \<noteq> CHR ''-''" "hd (dec n) \<noteq> CHR ''+''"
    using isdigit_not_CR [OF hd_dec [of n]] by auto
  have "dropWhile isspace (dec n) = dec n"
    using hd_dec [of n] by (cases "dec n") auto
  with h n show ?thesis by (simp add: stoi_def Let_def int_ok_def INT_MIN_def)
qed

lemmas usage_defs = echoserver_usage_def echoclient_usage_def transferserver_usage_def transferclient_usage_def
  gfmain_usage_def download_usage_def mts_usage_def mtclient_usage_def webproxy_usage_def cacheproxy_usage_def
  simplecached_usage_def dfs_usage_def

lemmas switch_defs = echoserver_option_def echoclient_option_def transferserver_option_def transferclient_option_def
  gfmain_option_def download_option_def mts_option_def mtclient_option_def webproxy_option_def cacheproxy_option_def
  simplecached_option_def dfs_option_def

text \<open>A documented option with a decimal argument, as the switch gets it.\<close>

definition documented :: "program \<Rightarrow> opt \<Rightarrow> bool" where
  "documented p x \<longleftrightarrow> fst x \<in> set (usage p) \<and> fst x \<noteq> CHR ''h'' \<and> (\<exists>n. int n \<le> INT_MAX \<and> snd x = Some (dec n))"

lemma gfclient_no_args: "\<not> takes_arg (options_of Gfclient) (CHR ''w'')" "\<not> takes_arg (options_of Gfclient) (CHR ''r'')"
  by (simp_all add: takes_arg_def download_tab_def short_arg_def)

text \<open>Every switch has a case for the documented options that \<open>getopt_long\<close> knows with an argument.\<close>

definition case_ok :: "('o \<Rightarrow> char \<Rightarrow> string option \<Rightarrow> 'o res) \<Rightarrow> opttab \<Rightarrow> string \<Rightarrow> bool" where
  "case_ok f tab us \<longleftrightarrow> (\<forall>c\<in>set us. c \<noteq> CHR ''h'' \<longrightarrow> takes_arg tab c \<longrightarrow> (\<forall>o1 n. int n \<le> INT_MAX \<longrightarrow> returns (f o1 c (Some (dec n)))))"

lemma switches_ok:
  shows "case_ok echoserver_option echoserver_tab echoserver_usage"
  and "case_ok echoclient_option echoclient_tab echoclient_usage"
  and "case_ok transferserver_option transferserver_tab transferserver_usage"
  and "case_ok transferclient_option transferclient_tab transferclient_usage"
  and "case_ok gfmain_option gfmain_tab gfmain_usage"
  and "case_ok download_option download_tab download_usage"
  and "case_ok mts_option mts_tab mts_usage"
  and "case_ok mtclient_option mtclient_tab mtclient_usage"
  and "case_ok webproxy_option webproxy_tab webproxy_usage"
  and "case_ok cacheproxy_option cacheproxy_tab cacheproxy_usage"
  and "case_ok simplecached_option simplecached_tab simplecached_usage"
  and "case_ok dfs_option dfs_tab dfs_usage"
  by (simp_all add: case_ok_def usage_defs switch_defs atoi_arg_def atoi_dec stoi_dec string_arg_def
      gfclient_no_args [simplified])

lemma loop_case_ok:
  assumes "case_ok f tab us"
    and "\<And>x. x \<in> set os \<Longrightarrow> fst x \<in> set us \<and> fst x \<noteq> CHR ''h'' \<and> takes_arg tab (fst x) \<and> (\<exists>n. int n \<le> INT_MAX \<and> snd x = Some (dec n))"
  shows "fault_of (getopt_loop f o1 os) = None"
  using assms by (intro getopt_loop_ok) (fastforce simp: case_ok_def)

lemmas loops_ok = switches_ok [THEN loop_case_ok]

lemma documented_accepted:
  assumes "\<And>x. x \<in> set os \<Longrightarrow> documented p x \<and> takes_arg (options_of p) (fst x)"
  shows "option_loop ll p os = None"
  using assms by (cases p) (auto simp: documented_def intro!: loops_ok)

lemma getopt_tail: "getopt_long tab [] = ([], [])" "getopt_long tab (''--'' # rest) = ([], rest)"
  by simp_all

subsection \<open>Properties\<close>

text \<open>C26. Command lines in all programs.  Let a command line be made of options of the usage text (other than \<open>h\<close>) with decimal arguments up to \<open>INT_MAX\<close>, each in any
  of the spellings that the program's own table allows for an option with an argument (\<open>-p 80\<close>, \<open>-p80\<close>, behind flags, \<open>--port=80\<close>,
  \<open>--port 80\<close> unless the table calls the argument optional, abbreviated), in any order, with operands between them and any arguments
  after \<open>--\<close>: the loop over the options gets exactly these options in this order and does not end the program, and the operands are left in
  order.  The usage texts promise more than the tables: \<open>-w\<close> and \<open>-r\<close> of gfclient_download have no argument there
  (\<open>documented_options_fail\<close>), nor have the long options of pr4 without \<open>=\<close>.\<close>

theorem documented_command_lines:
  assumes "list_all (item_ok (options_of p)) is" "list_all (\<lambda>i. list_all (documented p) (item_opts (options_of p) i)) is"
    and "tail = [] \<and> rest = [] \<or> tail = ''--'' # rest"
  shows "\<exists>os. getopt_long (options_of p) (concat (map spell is) @ tail) = (os, concat (map item_operands is) @ rest) \<and>
    os = concat (map (item_opts (options_of p)) is) \<and> option_loop ll p os = None"
proof -
  have "getopt_long (options_of p) tail = ([], rest)" using assms(3) by auto
  moreover have "option_loop ll p (concat (map (item_opts (options_of p)) is)) = None"
  proof (rule documented_accepted)
    fix x
    assume "x \<in> set (concat (map (item_opts (options_of p)) is))"
    then obtain i where i: "i \<in> set is" "x \<in> set (item_opts (options_of p) i)" by auto
    then have "documented p x" "item_ok (options_of p) i" using assms(1,2) by (auto simp: list_all_iff)
    then show "documented p x \<and> takes_arg (options_of p) (fst x)"
      using i(2) item_takes_arg [of "options_of p" i] by (cases x) (auto simp: documented_def)
  qed
  ultimately show ?thesis using getopt_items [OF assms(1)] by simp
qed

lemma dec_80: "dec 80 = ''80''"
  by (simp add: dec.simps digit_char_def digits_def)

theorem documented_command_lines_witness:
  "\<exists>os. getopt_long (options_of Mtclient) [''-p80'', ''--nthr=80'', ''x'', ''-w'', ''80'', ''--'', ''-y''] = (os, [''x'', ''-y'']) \<and>
    os = [(CHR ''p'', Some ''80''), (CHR ''t'', Some ''80''), (CHR ''w'', Some ''80'')] \<and> option_loop 0 Mtclient os = None"
proof -
  let ?is = "[Short_att [] (CHR ''p'') (dec 80), Long_eq ''nthr'' (dec 80), Operand ''x'', Short_sep [] (CHR ''w'') (dec 80)]"
  have i: "\<exists>n. int n \<le> INT_MAX \<and> dec 80 = dec n" by (rule exI [of _ 80]) (simp add: INT_MAX_def)
  have "list_all (item_ok (options_of Mtclient)) ?is"
    by (simp add: mtclient_tab_def short_arg_def long_of_def long_match_def is_operand_def)
  moreover have v: "long_val (options_of Mtclient) ''nthr'' = CHR ''t''"
    by (simp add: mtclient_tab_def long_val_def long_match_def)
  moreover have "list_all (\<lambda>i. list_all (documented Mtclient) (item_opts (options_of Mtclient) i)) ?is"
    using v i by (simp add: documented_def mtclient_usage_def)
  ultimately show ?thesis
    using documented_command_lines [of Mtclient ?is "[''--'', ''-y'']" "[''-y'']" 0] by (simp add: dec_80)
qed

text \<open>An option on which the switch ends the process, behind an accepted beginning of the command line.\<close>

lemma fault_after:
  assumes "list_all (item_ok tab) is" "fault_of (getopt_loop f o1 (fst (getopt_long tab (concat (map spell is))))) = None"
    and "fst (getopt_long tab as) = (c, a) # os" "\<And>o2. f o2 c a = Inl e"
  shows "fault_of (getopt_loop f o1 (fst (getopt_long tab (concat (map spell is) @ as)))) = Some e"
proof -
  have "fst (getopt_long tab (concat (map spell is) @ as)) = fst (getopt_long tab (concat (map spell is))) @ (c, a) # os"
    using getopt_items [OF assms(1), of as] getopt_items [OF assms(1), of "[]"] assms(3) by simp
  then show ?thesis
    using fault_of_append [OF assms(2), of "(c, a) # os"] assms(4) by (auto simp: fault_of_def)
qed

text \<open>Documented options that do not work.  After any accepted options, and whatever follows: \<open>-w\<close> and \<open>-r\<close>
  end the download client of pr1/gflib with status 1 (the first is called \<open>-l\<close> in the code, the second \<open>-n\<close>; \<open>-r\<close> is
  known, without an argument, but has no case); and \<open>-h\<close> of the transfer client needs an argument, so that at the end of
  the command line it gives status 1 like an unknown option, and before any other word it takes the word and gives status 0.\<close>

theorem documented_options_fail:
  assumes "list_all (item_ok (options_of Gfclient)) is" "main_options ll Gfclient (concat (map spell is)) = None"
    and "list_all (item_ok (options_of Transferclient)) js" "main_options ll Transferclient (concat (map spell js)) = None"
  shows "CHR ''w'' \<in> set (usage Gfclient) \<and> main_options ll Gfclient (concat (map spell is) @ ''-w'' # as) = Some (Exit 1) \<and>
    CHR ''r'' \<in> set (usage Gfclient) \<and> main_options ll Gfclient (concat (map spell is) @ ''-r'' # as) = Some (Exit 1) \<and>
    CHR ''h'' \<in> set (usage Transferclient) \<and>
    main_options ll Transferclient (concat (map spell js) @ [''-h'']) = Some (Exit 1) \<and>
    main_options ll Transferclient (concat (map spell js) @ ''-h'' # a # as) = Some (Exit 0)"
proof -
  have w: "fst (getopt_long download_tab (''-w'' # as)) = (CHR ''?'', None) # fst (getopt_long download_tab as)"
    and r: "fst (getopt_long download_tab (''-r'' # as)) = (CHR ''r'', None) # fst (getopt_long download_tab as)"
    by (simp_all add: is_operand_def scan_word_def download_tab_def short_arg_def apfst_pair)
  have h: "fst (getopt_long transferclient_tab [''-h'']) = [(CHR ''?'', None)]"
    and ha: "fst (getopt_long transferclient_tab (''-h'' # a # as)) = (CHR ''h'', Some a) # fst (getopt_long transferclient_tab as)"
    by (simp_all add: is_operand_def scan_word_def transferclient_tab_def short_arg_def apfst_pair)
  note g = fault_after [OF assms(1) [simplified] assms(2) [unfolded main_options_def, simplified]]
  note t = fault_after [OF assms(3) [simplified] assms(4) [unfolded main_options_def, simplified]]
  show ?thesis
    using g [OF w] g [OF r] t [OF h] t [OF ha]
    by (simp add: main_options_def download_option_def transferclient_option_def usage_defs)
qed

theorem documented_options_fail_witness:
  "main_options 0 Gfclient [''-w'', ''wl.txt''] = Some (Exit 1) \<and> main_options 0 Transferclient [''-h''] = Some (Exit 1)"
  using documented_options_fail [of "[]" 0 "[]" "[''wl.txt'']"]
  by (simp add: main_options_def fault_of_def)

lemma fault_of_Some: "fault_of r = Some e \<longleftrightarrow> r = Inl e"
  by (simp add: fault_of_def split: sum.splits)

lemma dfs_long_cases: "long_match (snd dfs_tab) n = Some l \<Longrightarrow> lo_val l \<noteq> CHR ''h'' \<Longrightarrow>
    lo_val l \<in> {CHR ''a'', CHR ''d'', CHR ''m'', CHR ''t''} \<and> lo_arg l = Optional_argument"
  by (drule long_match_in) (auto simp: dfs_tab_def)

text \<open>C36. The long options of the client of pr4.  Written as the usage text has them (\<open>--address <address>\<close>, or any abbreviation), their
  argument is not theirs: the table calls it optional, which \<open>getopt_long\<close> takes only behind \<open>=\<close>.  So \<open>main\<close>
  makes a string or a number of a null pointer, whatever came before and comes after; with \<open>=\<close> the option is accepted.\<close>

theorem dfs_long_options_crash:
  assumes "list_all (item_ok (options_of Dfsclient)) is" "main_options ll Dfsclient (concat (map spell is)) = None"
    and "item_ok (options_of Dfsclient) (Long_flag n)" "long_val (options_of Dfsclient) n \<noteq> CHR ''h''" "int k \<le> INT_MAX"
  shows "dfs_main ll clean (Some w) found (fst (getopt_long (options_of Dfsclient) (concat (map spell is) @ (''--'' @ n) # as))) args c0 =
      Inl (Ub Null_Deref) \<and>
    main_options ll Dfsclient (concat (map spell is) @ [''--'' @ n @ ''='' @ dec k]) = None"
proof -
  obtain l where l: "long_match (snd dfs_tab) n = Some l" "CHR ''='' \<notin> set n" "n \<noteq> []"
    using assms(3) by (auto elim: long_ofE)
  then have v: "lo_val l \<in> {CHR ''a'', CHR ''d'', CHR ''m'', CHR ''t''}" "lo_arg l = Optional_argument" "long_val dfs_tab n = lo_val l"
    using dfs_long_cases [OF l(1)] assms(4) by (simp_all add: long_val_def)
  have "fst (getopt_long dfs_tab ((''--'' @ n) # as)) = (lo_val l, None) # fst (getopt_long dfs_tab as)"
    using getopt_item [OF assms(3), of as] v(3) by (simp del: getopt_long.simps)
  moreover have "dfs_option o2 (lo_val l) None = Inl (Ub Null_Deref)" for o2
    using v(1) by (auto simp: dfs_option_def string_arg_def stoi_def)
  ultimately have c: "getopt_loop dfs_option (dfs_default ll)
      (fst (getopt_long dfs_tab (concat (map spell is) @ (''--'' @ n) # as))) = Inl (Ub Null_Deref)"
    using fault_after [OF assms(1) [simplified] assms(2) [unfolded main_options_def, simplified]] by (simp add: fault_of_Some)
  have "item_ok dfs_tab (Long_eq n (dec k))" using l v(2) by (simp add: long_of_def)
  then have "fst (getopt_long dfs_tab (concat (map spell is) @ [''--'' @ n @ ''='' @ dec k])) =
      fst (getopt_long dfs_tab (concat (map spell is))) @ [(lo_val l, Some (dec k))]"
    using getopt_items [of dfs_tab "is @ [Long_eq n (dec k)]" "[]"] getopt_items [of dfs_tab "is" "[]"] assms(1) v(3) by simp
  moreover obtain o2 where "getopt_loop dfs_option (dfs_default ll) (fst (getopt_long dfs_tab (concat (map spell is))) @
      [(lo_val l, Some (dec k))]) = getopt_loop dfs_option o2 [(lo_val l, Some (dec k))]"
    using fault_of_append [OF assms(2) [unfolded main_options_def, simplified]] by blast
  moreover obtain o3 where "dfs_option o2 (lo_val l) (Some (dec k)) = Inr o3"
    using v(1) assms(5) by (auto simp: dfs_option_def string_arg_def stoi_dec)
  ultimately have "main_options ll Dfsclient (concat (map spell is) @ [''--'' @ n @ ''='' @ dec k]) = None"
    by (simp add: main_options_def fault_of_def)
  with c show ?thesis by (simp add: dfs_main_def)
qed

theorem dfs_long_options_crash_witness:
  "dfs_main 1 (\<lambda>p. p) (Some ''/w'') (\<lambda>_. True) (fst (getopt_long (options_of Dfsclient) [''--addr'', ''h:1'', ''list'']))
    [] c_init = Inl (Ub Null_Deref)"
proof -
  have "long_match (snd (options_of Dfsclient)) ''addr'' = Some (lopt ''address'' Optional_argument (CHR ''a''))"
    by (simp add: dfs_tab_def long_match_def)
  moreover have "main_options 1 Dfsclient (concat (map spell [])) = None"
    by (simp add: main_options_def fault_of_def)
  ultimately show ?thesis
    using dfs_long_options_crash [of "[]" 1 "''addr''" 0 "\<lambda>p. p" "''/w''" "\<lambda>_. True" "[''h:1'', ''list'']" "[]" c_init]
    by (simp add: long_of_def long_val_def INT_MAX_def del: getopt_long.simps)
qed

end
