(* ===== verification/CachePrograms.thy ===== *)
theory CachePrograms
  imports CacheProps CommandLines
begin

section \<open>The two programs of pr3/cache from their command lines on\<close>

text \<open>
  webproxy.c and simplecached.c together: what their \<open>main\<close> functions make of the words of their command lines and of the
  list of files is a start of the system of \<open>CacheSystem\<close>, and the system then serves the files of the list.  The
  workers of the cache run (\<open>pthread_create\<close> succeeds for each), \<open>malloc\<close> gives free blocks.
\<close>

subsection \<open>What the start-up leaves\<close>








subsection \<open>Property\<close>







text \<open>The test for at least 128 bytes is one of a \<open>size_t\<close>: a negative size passes it, and the cache cannot make a buffer of that size.\<close>

lemma cacheproxy_negative_size:
  "cacheproxy_setup (fst (getopt_long (options_of Cacheproxy) [''--segment-size=-1''])) = Inr (cacheproxy_default\<lparr>cp_segsize := -1\<rparr>)"
  "STACK_ROOM < unat (-1 :: size_t)"
  "s_cx m = C_Start \<Longrightarrow> \<exists>m'. sendResponse True (unat (-1 :: size_t)) flen m m' \<and> s_fault m' = Some (Ub Out_Of_Bounds)"
proof -
  have "atoi ''-1'' = Inr (-1)"
    by (simp add: atoi_def Let_def isspace_def isdigit_def digits_def undec_def digit_val_def int_ok_def INT_MAX_def INT_MIN_def)
  moreover have "fst (getopt_long cacheproxy_tab [''--segment-size=-1'']) = [(CHR ''z'', Some ''-1'')]"
    by (simp add: is_operand_def scan_word_def scan_long_def long_match_def cacheproxy_tab_def)
  ultimately show "cacheproxy_setup (fst (getopt_long (options_of Cacheproxy) [''--segment-size=-1''])) = Inr (cacheproxy_default\<lparr>cp_segsize := -1\<rparr>)"
    by (simp add: cacheproxy_setup_def cacheproxy_option_def cacheproxy_default_def webproxy_default_def atoi_arg_def
        webproxy_opts.defs size_of_int_def word_less_nat_alt unsigned_minus_1_eq_mask mask_eq_exp_minus_1)
  show l: "STACK_ROOM < unat (-1 :: size_t)" by (simp add: STACK_ROOM_def unsigned_minus_1_eq_mask mask_eq_exp_minus_1)
  show "\<exists>m'. sendResponse True (unat (-1 :: size_t)) flen m m' \<and> s_fault m' = Some (Ub Out_Of_Bounds)" if "s_cx m = C_Start"
    using sendResponse.c_stack [OF that _ l, of True] by fastforce
qed


end
