(* ===== verification/MTPool.thy ===== *)
theory MTPool
  imports MTServer
begin

section \<open>The worker pool of the multithreaded server with its condition variable (pr1/mtgf)\<close>

text \<open>
  The pool of \<open>MTServer\<close> in detail: the thread of the library that runs \<open>gfs_handler\<close> for one request after another, and the threads of
  \<open>thread_handle_req\<close>.  The code under the mutex is one step, and each \<open>pthread_cond_signal\<close>, which is called after the mutex was released, one
  of its own, so other threads run in between.  The answer to a request is one step; \<open>keeps\<close> says for which requests the worker goes on.
\<close>

subsection \<open>States and steps\<close>

text \<open>
  A worker is about to lock the mutex (or was woken), asleep, before its signal with a request, before the answer, or has left its loop.
  \<open>tp_signal\<close>: the handler has put a request into the queue and is before its signal.
\<close>

datatype mworker = M_Enter | M_Sleep | M_Took string | M_Serve string | M_End

record 'q mtpool =
  tp_queue :: 'q
  tp_pc :: "nat \<Rightarrow> mworker"
  tp_signal :: bool
  tp_todo :: "string list"
  tp_log :: "(string \<times> bool) list"

text \<open>\<open>pthread_cond_signal\<close> wakes one of the threads that sleep, if there is one.\<close>

definition wakes_one :: "nat \<Rightarrow> (nat \<Rightarrow> mworker) \<Rightarrow> (nat \<Rightarrow> mworker) \<Rightarrow> bool" where
  "wakes_one n pc pc' \<longleftrightarrow>
    (if \<exists>i<n. pc i = M_Sleep then \<exists>i<n. pc i = M_Sleep \<and> pc' = pc(i := M_Enter) else pc' = pc)"

text \<open>\<open>gfs_handler\<close>; \<open>p\<close> is the block that \<open>malloc\<close> returns in the enqueue.\<close>

inductive handler_step :: "('p, string, 'q) qops \<Rightarrow> nat \<Rightarrow> 'q mtpool \<Rightarrow> 'q mtpool \<Rightarrow> bool" for ops n where
  h_enqueue: "\<not> tp_signal y \<Longrightarrow> tp_todo y = path # rest \<Longrightarrow> q_malloc ops p (tp_queue y) \<Longrightarrow> q_enq ops p path (tp_queue y) = Inr q' \<Longrightarrow>
    handler_step ops n y (y\<lparr>tp_queue := q', tp_signal := True, tp_todo := rest\<rparr>)"
| h_signal: "tp_signal y \<Longrightarrow> wakes_one n (tp_pc y) pc' \<Longrightarrow>
    handler_step ops n y (y\<lparr>tp_pc := pc', tp_signal := False\<rparr>)"

text \<open>\<open>thread_handle_req\<close>.\<close>

inductive thread_step :: "('p, string, 'q) qops \<Rightarrow> (string \<Rightarrow> bool) \<Rightarrow> nat \<Rightarrow> 'q mtpool \<Rightarrow> 'q mtpool \<Rightarrow> bool" for ops keeps n where
  t_sleep: "i < n \<Longrightarrow> tp_pc y i = M_Enter \<Longrightarrow> q_isempty ops (tp_queue y) \<Longrightarrow>
    thread_step ops keeps n y (y\<lparr>tp_pc := (tp_pc y)(i := M_Sleep)\<rparr>)"
| t_take: "i < n \<Longrightarrow> tp_pc y i = M_Enter \<Longrightarrow> \<not> q_isempty ops (tp_queue y) \<Longrightarrow> q_deq ops (tp_queue y) = Inr (r, q') \<Longrightarrow>
    thread_step ops keeps n y (y\<lparr>tp_queue := q', tp_pc := (tp_pc y)(i := M_Took r)\<rparr>)"
| t_signal: "i < n \<Longrightarrow> tp_pc y i = M_Took r \<Longrightarrow> wakes_one n ((tp_pc y)(i := M_Serve r)) pc' \<Longrightarrow>
    thread_step ops keeps n y (y\<lparr>tp_pc := pc'\<rparr>)"
| t_serve: "i < n \<Longrightarrow> tp_pc y i = M_Serve r \<Longrightarrow>
    thread_step ops keeps n y (y\<lparr>tp_pc := (tp_pc y)(i := if keeps r then M_Enter else M_End), tp_log := (r, keeps r) # tp_log y\<rparr>)"

definition tp_step :: "('p, string, 'q) qops \<Rightarrow> (string \<Rightarrow> bool) \<Rightarrow> nat \<Rightarrow> 'q mtpool \<Rightarrow> 'q mtpool \<Rightarrow> bool" where
  "tp_step ops keeps n y y' \<longleftrightarrow> handler_step ops n y y' \<or> thread_step ops keeps n y y'"

definition tp_start :: "'q \<Rightarrow> string list \<Rightarrow> 'q mtpool" where
  "tp_start q reqs = \<lparr>tp_queue = q, tp_pc = \<lambda>_. M_Enter, tp_signal = False, tp_todo = reqs, tp_log = []\<rparr>"

inductive tp_run :: "('p, string, 'q) qops \<Rightarrow> (string \<Rightarrow> bool) \<Rightarrow> nat \<Rightarrow> 'q mtpool \<Rightarrow> nat \<Rightarrow> 'q mtpool \<Rightarrow> bool" for ops keeps n y0 where
  tp_run_start: "tp_run ops keeps n y0 0 y0"
| tp_run_step: "tp_run ops keeps n y0 k y \<Longrightarrow> tp_step ops keeps n y y' \<Longrightarrow> tp_run ops keeps n y0 (Suc k) y'"

text \<open>With wake-ups without a signal.\<close>

inductive tp_reach :: "('p, string, 'q) qops \<Rightarrow> (string \<Rightarrow> bool) \<Rightarrow> nat \<Rightarrow> 'q mtpool \<Rightarrow> 'q mtpool \<Rightarrow> bool" for ops keeps n y0 where
  tp_reach_start: "tp_reach ops keeps n y0 y0"
| tp_reach_step: "tp_reach ops keeps n y0 y \<Longrightarrow> tp_step ops keeps n y y' \<Longrightarrow> tp_reach ops keeps n y0 y'"
| tp_reach_spurious: "tp_reach ops keeps n y0 y \<Longrightarrow> i < n \<Longrightarrow> tp_pc y i = M_Sleep \<Longrightarrow>
    tp_reach ops keeps n y0 (y\<lparr>tp_pc := (tp_pc y)(i := M_Enter)\<rparr>)"

lemma tp_run_reach: "tp_run ops keeps n y0 k y \<Longrightarrow> tp_reach ops keeps n y0 y"
  by (induction rule: tp_run.induct) (auto intro: tp_reach.intros)

subsection \<open>The pool of \<open>MTServer\<close>\<close>

fun m_busy :: "mworker \<Rightarrow> string multiset" where
  "m_busy (M_Took r) = {#r#}" | "m_busy (M_Serve r) = {#r#}" | "m_busy M_Enter = {#}" | "m_busy M_Sleep = {#}" | "m_busy M_End = {#}"

fun m_free :: "mworker \<Rightarrow> nat" where
  "m_free M_Enter = 1" | "m_free M_Sleep = 1" | "m_free (M_Took r) = 0" | "m_free (M_Serve r) = 0" | "m_free M_End = 0"

text \<open>A state of the pool and one of \<open>MTServer\<close> that agree: the same queue and answers, as many workers that are free, the same requests being answered.\<close>

definition same_pool :: "nat \<Rightarrow> 'q mtpool \<Rightarrow> 'q mts \<Rightarrow> bool" where
  "same_pool n y m \<longleftrightarrow> ms_queue m = tp_queue y \<and> ms_log m = tp_log y \<and> ms_workers m = (\<Sum>i<n. m_free (tp_pc y i)) \<and>
    mset (ms_busy m) = (\<Sum>i<n. m_busy (tp_pc y i))"

lemma wakes_one_sum:
  fixes f :: "mworker \<Rightarrow> 'a :: cancel_comm_monoid_add"
  assumes "wakes_one n pc pc'" "f M_Enter = f M_Sleep"
  shows "(\<Sum>j<n. f (pc' j)) = (\<Sum>j<n. f (pc j))"
  using assms sum_upd_same [of _ n f M_Enter pc] by (auto simp: wakes_one_def simp del: fun_upd_apply split: if_splits)


lemma step_same_pool:
  assumes "tp_step ops keeps n y y'" "same_pool n y m" "mts_reach ops keeps m0 m"
  shows "\<exists>m'. mts_reach ops keeps m0 m' \<and> same_pool n y' m'"
proof -
  have go: ?thesis if "mts_step ops keeps m m'" "same_pool n y' m'" for m' using mts_reach.step [OF assms(3) that(1)] that(2) by blast
  from assms(1) consider "handler_step ops n y y'" | "thread_step ops keeps n y y'" by (auto simp: tp_step_def)
  then show ?thesis
  proof cases
    case 1
    then show ?thesis
    proof (cases rule: handler_step.cases)
      case (h_enqueue path rest p q')
      then have "mts_step ops keeps m (m\<lparr>ms_queue := q'\<rparr>)"
        using mts_step.handle [of ops p m path] assms(2) by (simp add: gfs_handler_def same_pool_def)
      then show ?thesis by (rule go) (use assms(2) h_enqueue in \<open>simp add: same_pool_def\<close>)
    next
      case (h_signal pc')
      then have "same_pool n y' m"
        using assms(2) wakes_one_sum [of n "tp_pc y" pc' m_free] wakes_one_sum [of n "tp_pc y" pc' m_busy] by (simp add: same_pool_def)
      then show ?thesis using assms(3) by blast
    qed
  next
    case 2
    then show ?thesis
    proof (cases rule: thread_step.cases)
      case (t_sleep i)
      then have "same_pool n y' m"
        using assms(2) sum_upd_same [OF t_sleep(2), of m_free M_Sleep "tp_pc y"] sum_upd_same [OF t_sleep(2), of m_busy M_Sleep "tp_pc y"]
        by (simp add: same_pool_def del: fun_upd_apply)
      then show ?thesis using assms(3) by blast
    next
      case (t_take i r q')
      note u = sum_upd [OF t_take(2), of m_free "tp_pc y" "M_Took r"] sum_upd [OF t_take(2), of m_busy "tp_pc y" "M_Took r"]
      define w where "w = (\<Sum>j<n. m_free (((tp_pc y)(i := M_Took r)) j))"
      let ?m = "m\<lparr>ms_queue := q', ms_workers := ms_workers m - 1, ms_busy := r # ms_busy m\<rparr>"
      have f: "ms_workers m = w + 1" "ms_queue m = tp_queue y" "ms_log m = tp_log y" "mset (ms_busy m) = (\<Sum>j<n. m_busy (tp_pc y j))"
        using u(1) t_take(3) assms(2) by (simp_all add: same_pool_def w_def del: fun_upd_apply)
      have "mts_step ops keeps m ?m" by (rule mts_step.take) (use t_take(4,5) f in simp_all)
      moreover have "same_pool n y' ?m"
        using f u(2) t_take(3) by (simp add: same_pool_def t_take(1)) (simp add: w_def)
      ultimately show ?thesis by (rule go)
    next
      case (t_signal i r pc')
      let ?pc = "(tp_pc y)(i := M_Serve r)"
      have "same_pool n y' m"
        using assms(2) wakes_one_sum [OF t_signal(4), of m_free] wakes_one_sum [OF t_signal(4), of m_busy]
          sum_upd_same [OF t_signal(2), of m_free "M_Serve r" "tp_pc y"] sum_upd_same [OF t_signal(2), of m_busy "M_Serve r" "tp_pc y"] t_signal(1,3)
        by (simp add: same_pool_def del: fun_upd_apply)
      then show ?thesis using assms(3) by blast
    next
      case (t_serve i r)
      let ?v = "if keeps r then M_Enter else M_End"
      note u = sum_upd [OF t_serve(2), of m_free "tp_pc y" ?v] sum_upd [OF t_serve(2), of m_busy "tp_pc y" ?v]
      have b: "mset (ms_busy m) = (\<Sum>j<n. m_busy (((tp_pc y)(i := ?v)) j)) + {#r#}"
        using u(2) t_serve(3) assms(2) by (simp add: same_pool_def del: fun_upd_apply split: if_splits)
      then have "r \<in># mset (ms_busy m)" by simp
      then obtain us vs where uv: "ms_busy m = us @ r # vs" by (metis set_mset_mset split_list)
      let ?m = "m\<lparr>ms_busy := us @ vs, ms_log := (r, keeps r) # ms_log m, ms_workers := (if keeps r then ms_workers m + 1 else ms_workers m)\<rparr>"
      have "mts_step ops keeps m ?m" by (rule mts_step.finish [OF uv])
      then show ?thesis
        by (rule go) (use b uv u(1) t_serve(1,3) assms(2) in \<open>auto simp: same_pool_def simp del: fun_upd_apply split: if_splits\<close>)
    qed
  qed
qed

lemma reach_same_pool:
  assumes "tp_reach ops keeps n (tp_start q reqs) y"
  shows "\<exists>m. mts_reach ops keeps (mts_init q n) m \<and> same_pool n y m"
  using assms
proof (induction rule: tp_reach.induct)
  case tp_reach_start
  have "same_pool n (tp_start q reqs) (mts_init q n)" by (simp add: same_pool_def tp_start_def mts_init_def)
  then show ?case using mts_reach.start by blast
next
  case (tp_reach_step y y')
  then show ?case using step_same_pool by blast
next
  case (tp_reach_spurious y i)
  then obtain m where m: "mts_reach ops keeps (mts_init q n) m" "same_pool n y m" by blast
  have "same_pool n (y\<lparr>tp_pc := (tp_pc y)(i := M_Enter)\<rparr>) m"
    using m(2) tp_reach_spurious(2,3) sum_upd_same [OF tp_reach_spurious(2), of m_free M_Enter "tp_pc y"]
      sum_upd_same [OF tp_reach_spurious(2), of m_busy M_Enter "tp_pc y"]
    by (simp add: same_pool_def del: fun_upd_apply)
  then show ?case using m(1) by blast
qed


subsection \<open>No lost wake-up\<close>

text \<open>Where requests are, and who will look at the queue.\<close>

definition log_ok :: "(string \<Rightarrow> bool) \<Rightarrow> 'q mtpool \<Rightarrow> bool" where
  "log_ok keeps y \<longleftrightarrow> (\<forall>x\<in>set (tp_log y). snd x = keeps (fst x))"

fun m_looks :: "mworker \<Rightarrow> bool" where
  "m_looks M_Enter = True" | "m_looks (M_Took r) = True" | "m_looks M_Sleep = False" | "m_looks (M_Serve r) = False" | "m_looks M_End = False"

fun m_ended :: "mworker \<Rightarrow> nat" where
  "m_ended M_End = 1" | "m_ended M_Enter = 0" | "m_ended M_Sleep = 0" | "m_ended (M_Took r) = 0" | "m_ended (M_Serve r) = 0"

definition tp_misses :: "'q mtpool \<Rightarrow> nat" where
  "tp_misses y = length (filter (\<lambda>x. \<not> snd x) (tp_log y))"

text \<open>After a signal that finds a sleeping worker, a worker is about to look at the queue.\<close>

lemma wakes_one_looks:
  "wakes_one n pc pc' \<Longrightarrow> \<exists>i<n. pc i = M_Sleep \<Longrightarrow> \<exists>i<n. m_looks (pc' i)"
  unfolding wakes_one_def by (metis fun_upd_same m_looks.simps(1))

lemma wakes_one_sleep: "wakes_one n pc pc' \<Longrightarrow> pc' i = M_Sleep \<Longrightarrow> pc i = M_Sleep"
  unfolding wakes_one_def by (metis fun_upd_apply mworker.distinct(1))

lemma wakes_one_ex: "\<exists>pc'. wakes_one n pc pc'"
  unfolding wakes_one_def by metis

context request_queue
begin

abbreviation pool_ops :: "('p, string, 'q) qops" where
  "pool_ops \<equiv> fifo_ops enq deq isempty place null"

definition tp_inv :: "(string \<Rightarrow> bool) \<Rightarrow> nat \<Rightarrow> string list \<Rightarrow> 'q mtpool \<Rightarrow> bool" where
  "tp_inv keeps n reqs y \<longleftrightarrow> inv (tp_queue y) \<and>
    mset (content (tp_queue y)) + (\<Sum>i<n. m_busy (tp_pc y i)) + mset (map fst (tp_log y)) + mset (tp_todo y) = mset reqs \<and>
    log_ok keeps y \<and> (\<Sum>i<n. m_ended (tp_pc y i)) = tp_misses y \<and>
    ((\<exists>i<n. tp_pc y i = M_Sleep) \<longrightarrow> content (tp_queue y) = [] \<or> tp_signal y \<or> (\<exists>i<n. m_looks (tp_pc y i)))"

lemma tp_inv_handler:
  assumes "tp_inv keeps n reqs y" "handler_step pool_ops n y y'"
  shows "tp_inv keeps n reqs y'"
  using assms(2)
proof (cases rule: handler_step.cases)
  case (h_enqueue path rest p q')
  then have "p \<noteq> null" using enq_null by (auto simp: fifo_ops_def)
  then have "inv q'" "content q' = content (tp_queue y) @ [path]"
    using h_enqueue(4,5) enq_Inr [of "tp_queue y" p path q'] assms(1) by (auto simp: fifo_ops_def tp_inv_def)
  then show ?thesis using assms(1) h_enqueue(1,3) by (simp add: tp_inv_def log_ok_def tp_misses_def ac_simps)
next
  case (h_signal pc')
  have "(\<exists>i<n. pc' i = M_Sleep) \<Longrightarrow> \<exists>i<n. m_looks (pc' i)"
    using wakes_one_looks [OF h_signal(3)] wakes_one_sleep [OF h_signal(3)] by blast
  then show ?thesis
    using assms(1) h_signal(1) wakes_one_sum [OF h_signal(3), of m_busy] wakes_one_sum [OF h_signal(3), of m_ended]
    by (simp add: tp_inv_def log_ok_def tp_misses_def)
qed

lemma tp_inv_thread:
  assumes "tp_inv keeps n reqs y" "thread_step pool_ops keeps n y y'"
  shows "tp_inv keeps n reqs y'"
  using assms(2)
proof (cases rule: thread_step.cases)
  case (t_sleep i)
  then have "content (tp_queue y) = []" using isempty_iff assms(1) by (simp add: fifo_ops_def tp_inv_def)
  then show ?thesis
    using assms(1) t_sleep(1,3) sum_upd_same [OF t_sleep(2), of m_busy M_Sleep "tp_pc y"] sum_upd_same [OF t_sleep(2), of m_ended M_Sleep "tp_pc y"]
    by (simp add: tp_inv_def log_ok_def tp_misses_def del: fun_upd_apply)
next
  case (t_take i r q')
  then have q: "inv q'" "content (tp_queue y) = r # content q'"
    using deq_Inr [of "tp_queue y" r q'] assms(1) by (auto simp: fifo_ops_def tp_inv_def)
  have "m_looks (((tp_pc y)(i := M_Took r)) i)" by simp
  then have l: "\<exists>j<n. m_looks (((tp_pc y)(i := M_Took r)) j)" using t_take(2) by blast
  show ?thesis
    using assms(1) t_take(1,3) q l sum_upd [OF t_take(2), of m_busy "tp_pc y" "M_Took r"] sum_upd_same [OF t_take(2), of m_ended "M_Took r" "tp_pc y"]
    by (simp add: tp_inv_def log_ok_def tp_misses_def del: fun_upd_apply)
next
  case (t_signal i r pc')
  let ?pc = "(tp_pc y)(i := M_Serve r)"
  have "(\<exists>j<n. pc' j = M_Sleep) \<Longrightarrow> \<exists>j<n. m_looks (pc' j)"
    using wakes_one_looks [OF t_signal(4)] wakes_one_sleep [OF t_signal(4)] by blast
  then show ?thesis
    using assms(1) t_signal(1,3) wakes_one_sum [OF t_signal(4), of m_busy] wakes_one_sum [OF t_signal(4), of m_ended]
      sum_upd_same [OF t_signal(2), of m_busy "M_Serve r" "tp_pc y"] sum_upd_same [OF t_signal(2), of m_ended "M_Serve r" "tp_pc y"]
    by (simp add: tp_inv_def log_ok_def tp_misses_def del: fun_upd_apply)
next
  case (t_serve i r)
  let ?v = "if keeps r then M_Enter else M_End"
  let ?pc = "(tp_pc y)(i := ?v)"
  have sleep: "\<exists>j<n. tp_pc y j = M_Sleep" if "\<exists>j<n. ?pc j = M_Sleep" using that by (auto split: if_splits)
  have looks: "\<exists>j<n. m_looks (?pc j)" if "j < n" "m_looks (tp_pc y j)" for j
  proof -
    have "j \<noteq> i" using that(2) t_serve(3) by auto
    then show ?thesis using that by (intro exI [of _ j]) simp
  qed
  have "(\<exists>j<n. tp_pc y j = M_Sleep) \<longrightarrow> content (tp_queue y) = [] \<or> tp_signal y \<or> (\<exists>j<n. m_looks (tp_pc y j))"
    using assms(1) by (simp add: tp_inv_def)
  then have live: "(\<exists>j<n. ?pc j = M_Sleep) \<longrightarrow> content (tp_queue y) = [] \<or> tp_signal y \<or> (\<exists>j<n. m_looks (?pc j))"
    using sleep looks by blast
  have b: "(\<Sum>j<n. m_busy (((tp_pc y)(i := ?v)) j)) + {#r#} = (\<Sum>j<n. m_busy (tp_pc y j))"
    using sum_upd [OF t_serve(2), of m_busy "tp_pc y" ?v] t_serve(3) by (simp del: fun_upd_apply split: if_splits)
  have e: "(\<Sum>j<n. m_ended (((tp_pc y)(i := ?v)) j)) = (\<Sum>j<n. m_ended (tp_pc y j)) + (if keeps r then 0 else 1)"
    using sum_upd [OF t_serve(2), of m_ended "tp_pc y" ?v] t_serve(3) by (simp del: fun_upd_apply split: if_splits)
  have "mset (content (tp_queue y)) + (\<Sum>j<n. m_busy (((tp_pc y)(i := ?v)) j)) + mset (map fst ((r, keeps r) # tp_log y)) + mset (tp_todo y) =
      mset (content (tp_queue y)) + ((\<Sum>j<n. m_busy (((tp_pc y)(i := ?v)) j)) + {#r#}) + mset (map fst (tp_log y)) + mset (tp_todo y)"
    by (simp del: fun_upd_apply)
  also have "\<dots> = mset reqs" unfolding b using assms(1) by (simp add: tp_inv_def)
  finally have m: "mset (content (tp_queue y)) + (\<Sum>j<n. m_busy (?pc j)) + mset (map fst ((r, keeps r) # tp_log y)) + mset (tp_todo y) = mset reqs" .
  have y': "tp_pc y' = ?pc" "tp_log y' = (r, keeps r) # tp_log y" "tp_queue y' = tp_queue y" "tp_todo y' = tp_todo y" "tp_signal y' = tp_signal y"
    by (simp_all add: t_serve(1))
  have i: "inv (tp_queue y)" "log_ok keeps y" "(\<Sum>j<n. m_ended (tp_pc y j)) = tp_misses y" using assms(1) by (simp_all add: tp_inv_def)
  have lo: "log_ok keeps y'" using i(2) by (simp add: log_ok_def y')
  have en: "(\<Sum>j<n. m_ended (?pc j)) = tp_misses y'" unfolding e i(3) by (simp add: tp_misses_def y')
  show ?thesis unfolding tp_inv_def y' by (intro conjI i(1) m lo en live)
qed

lemma tp_inv_step: "tp_inv keeps n reqs y \<Longrightarrow> tp_step pool_ops keeps n y y' \<Longrightarrow> tp_inv keeps n reqs y'"
  unfolding tp_step_def using tp_inv_handler tp_inv_thread by metis

lemma tp_inv_start: "inv q \<Longrightarrow> content q = [] \<Longrightarrow> tp_inv keeps n reqs (tp_start q reqs)"
  by (simp add: tp_inv_def tp_start_def log_ok_def tp_misses_def)

lemma tp_inv_spurious:
  assumes "tp_inv keeps n reqs y" "i < n" "tp_pc y i = M_Sleep"
  shows "tp_inv keeps n reqs (y\<lparr>tp_pc := (tp_pc y)(i := M_Enter)\<rparr>)"
proof -
  have "m_looks (((tp_pc y)(i := M_Enter)) i)" by simp
  then have l: "\<exists>j<n. m_looks (((tp_pc y)(i := M_Enter)) j)" using assms(2) by blast
  show ?thesis
    using assms(1,3) l sum_upd_same [OF assms(2), of m_busy M_Enter "tp_pc y"] sum_upd_same [OF assms(2), of m_ended M_Enter "tp_pc y"]
    by (simp add: tp_inv_def log_ok_def tp_misses_def del: fun_upd_apply)
qed

lemma tp_inv_reach:
  assumes "tp_reach pool_ops keeps n (tp_start q reqs) y" "inv q" "content q = []"
  shows "tp_inv keeps n reqs y"
  using assms(1)
proof (induction rule: tp_reach.induct)
  case tp_reach_start
  show ?case by (rule tp_inv_start [OF assms(2,3)])
next
  case (tp_reach_step y y')
  then show ?case using tp_inv_step by blast
next
  case (tp_reach_spurious y i)
  then show ?case using tp_inv_spurious by blast
qed

text \<open>What holds when nobody can go on.\<close>

lemma tp_stuck:
  assumes "tp_inv keeps n reqs y" "\<nexists>y'. tp_step pool_ops keeps n y y'" "int (length reqs) \<le> INT_MAX"
    and place: "\<exists>p. place p (tp_queue y)"
  shows "tp_todo y = []" "(\<forall>i<n. tp_pc y i = M_End) \<or> mset (map fst (tp_log y)) = mset reqs"
proof -
  have no: "\<nexists>y'. handler_step pool_ops n y y'" "\<nexists>y'. thread_step pool_ops keeps n y y'" using assms(2) by (auto simp: tp_step_def)
  note i = assms(1) [unfolded tp_inv_def]
  have sum: "mset (content (tp_queue y)) + (\<Sum>i<n. m_busy (tp_pc y i)) + mset (map fst (tp_log y)) + mset (tp_todo y) = mset reqs"
    using i by blast
  have sg: "\<not> tp_signal y" using no(1) handler_step.h_signal wakes_one_ex by blast
  show todo: "tp_todo y = []"
  proof (rule ccontr)
    assume "tp_todo y \<noteq> []"
    then obtain path rest where t: "tp_todo y = path # rest" by (cases "tp_todo y") auto
    have "size (mset (content (tp_queue y))) + size (mset (tp_todo y)) \<le> size (mset reqs)" unfolding sum [symmetric] by simp
    then have "int (length (content (tp_queue y))) < INT_MAX" using assms(3) t by simp
    then have room: "room (tp_queue y)" using room_ok i by blast
    obtain p where p: "place p (tp_queue y)" using place by blast
    obtain q' where "enq p path (tp_queue y) = Inr q'" using enq_ok [OF _ p room] i by blast
    then have "handler_step pool_ops n y (y\<lparr>tp_queue := q', tp_signal := True, tp_todo := rest\<rparr>)"
      by (intro handler_step.h_enqueue [OF sg t, of _ p]) (simp_all add: fifo_ops_def p)
    then show False using no(1) by blast
  qed
  have w: "tp_pc y j = M_Sleep \<or> tp_pc y j = M_End" if "j < n" for j
  proof (cases "tp_pc y j")
    case M_Enter
    show ?thesis
    proof (cases "isempty (tp_queue y)")
      case True
      then show ?thesis using no(2) thread_step.t_sleep [OF that M_Enter, of pool_ops] by (auto simp: fifo_ops_def)
    next
      case False
      then obtain r q' where "deq (tp_queue y) = Inr (r, q')" using deq_nonempty i by blast
      then show ?thesis using no(2) thread_step.t_take [OF that M_Enter, of pool_ops r q'] False by (auto simp: fifo_ops_def)
    qed
  next
    case (M_Took r)
    then show ?thesis using no(2) thread_step.t_signal [OF that M_Took] wakes_one_ex by blast
  next
    case (M_Serve r)
    then show ?thesis using no(2) thread_step.t_serve [OF that M_Serve] by blast
  qed simp_all
  show "(\<forall>i<n. tp_pc y i = M_End) \<or> mset (map fst (tp_log y)) = mset reqs"
  proof (cases "\<forall>i<n. tp_pc y i = M_End")
    case False
    then have "\<exists>j<n. tp_pc y j = M_Sleep" using w by blast
    moreover have "\<not> (\<exists>j<n. m_looks (tp_pc y j))" using w by fastforce
    ultimately have "content (tp_queue y) = []" using i sg by blast
    moreover have "(\<Sum>j<n. m_busy (tp_pc y j)) = {#}" using w by (intro sum.neutral) fastforce
    ultimately show ?thesis using sum todo by simp
  qed simp
qed

end

subsection \<open>Every run ends\<close>

fun m_weight :: "mworker \<Rightarrow> nat" where
  "m_weight M_Enter = 1" | "m_weight M_Sleep = 0" | "m_weight (M_Took r) = 4" | "m_weight (M_Serve r) = 2" | "m_weight M_End = 0"

context request_queue
begin

definition tp_weight :: "nat \<Rightarrow> 'q mtpool \<Rightarrow> nat" where
  "tp_weight n y = 7 * length (tp_todo y) + 4 * length (content (tp_queue y)) + (if tp_signal y then 2 else 0) + (\<Sum>i<n. m_weight (tp_pc y i))"

lemma wakes_one_weight:
  assumes "wakes_one n pc pc'"
  shows "(\<Sum>i<n. m_weight (pc' i)) \<le> (\<Sum>i<n. m_weight (pc i)) + 1"
proof (cases "\<exists>i<n. pc i = M_Sleep")
  case True
  then obtain i where "i < n" "pc i = M_Sleep" "pc' = pc(i := M_Enter)" using assms by (auto simp: wakes_one_def)
  then show ?thesis using sum_upd [of i n m_weight pc M_Enter] by (simp del: fun_upd_apply)
qed (use assms in \<open>simp add: wakes_one_def\<close>)

lemma tp_step_weight:
  assumes "inv (tp_queue y)" "tp_step pool_ops keeps n y y'"
  shows "tp_weight n y' < tp_weight n y"
proof -
  from assms(2) consider "handler_step pool_ops n y y'" | "thread_step pool_ops keeps n y y'" unfolding tp_step_def by blast
  then show ?thesis
  proof cases
    case 1
    then show ?thesis
    proof (cases rule: handler_step.cases)
      case (h_enqueue path rest p q')
      then have "p \<noteq> null" using enq_null by (auto simp: fifo_ops_def)
      then have "content q' = content (tp_queue y) @ [path]"
        using h_enqueue(4,5) enq_Inr [of "tp_queue y" p path q'] assms(1) by (auto simp: fifo_ops_def)
      then show ?thesis using h_enqueue(1,2,3) by (simp add: tp_weight_def)
    next
      case (h_signal pc')
      then show ?thesis using wakes_one_weight [OF h_signal(3)] by (simp add: tp_weight_def)
    qed
  next
    case 2
    then show ?thesis
    proof (cases rule: thread_step.cases)
      case (t_sleep i)
      then show ?thesis using sum_upd [OF t_sleep(2), of m_weight "tp_pc y" M_Sleep] by (simp add: tp_weight_def del: fun_upd_apply)
    next
      case (t_take i r q')
      then have "content (tp_queue y) = r # content q'" using deq_Inr [of "tp_queue y" r q'] assms(1) by (auto simp: fifo_ops_def)
      then show ?thesis
        using t_take(1,3) sum_upd [OF t_take(2), of m_weight "tp_pc y" "M_Took r"] by (simp add: tp_weight_def del: fun_upd_apply)
    next
      case (t_signal i r pc')
      then show ?thesis
        using wakes_one_weight [OF t_signal(4)] sum_upd [OF t_signal(2), of m_weight "tp_pc y" "M_Serve r"]
        by (simp add: tp_weight_def del: fun_upd_apply)
    next
      case (t_serve i r)
      then show ?thesis
        using sum_upd [OF t_serve(2), of m_weight "tp_pc y" "if keeps r then M_Enter else M_End"]
        by (simp add: tp_weight_def del: fun_upd_apply split: if_splits)
    qed
  qed
qed

lemma tp_run_weight:
  assumes "tp_run pool_ops keeps n (tp_start q reqs) k y" "inv q" "content q = []"
  shows "k + tp_weight n y \<le> 7 * length reqs + n"
  using assms(1)
proof (induction rule: tp_run.induct)
  case tp_run_start
  show ?case using assms(3) by (simp add: tp_weight_def tp_start_def)
next
  case (tp_run_step k y y')
  have "inv (tp_queue y)" using tp_inv_reach [OF tp_run_reach [OF tp_run_step.hyps(1)] assms(2,3)] by (simp add: tp_inv_def)
  then show ?case using tp_step_weight [OF _ tp_run_step.hyps(2)] tp_run_step.IH by fastforce
qed

text \<open>With fewer misses than workers the pool does not die.\<close>

lemma tp_stuck_served:
  assumes "tp_inv keeps n reqs y" "\<nexists>y'. tp_step pool_ops keeps n y y'" "int (length reqs) \<le> INT_MAX" "\<exists>p. place p (tp_queue y)"
    and "length (filter (\<lambda>r. \<not> keeps r) reqs) < n"
  shows "mset (tp_log y) = mset (map (\<lambda>r. (r, keeps r)) reqs)"
proof -
  have log: "tp_log y = map (\<lambda>r. (r, keeps r)) (map fst (tp_log y))"
  proof -
    have "\<forall>x\<in>set (tp_log y). snd x = keeps (fst x)" using assms(1) by (simp add: tp_inv_def log_ok_def)
    then have "map ((\<lambda>r. (r, keeps r)) \<circ> fst) (tp_log y) = tp_log y" by (intro map_idI) (auto simp: prod_eq_iff)
    then show ?thesis by simp
  qed
  have sub: "mset (map fst (tp_log y)) \<subseteq># mset reqs"
  proof -
    have "mset (content (tp_queue y)) + (\<Sum>i<n. m_busy (tp_pc y i)) + mset (map fst (tp_log y)) + mset (tp_todo y) = mset reqs"
      using assms(1) by (simp add: tp_inv_def)
    then show ?thesis by (metis mset_subset_eq_add_left mset_subset_eq_add_right subset_mset.order_trans)
  qed
  have "tp_misses y = length (filter (\<lambda>r. \<not> keeps r) (map fst (tp_log y)))"
    unfolding tp_misses_def by (subst log) (simp add: filter_map o_def)
  also have "\<dots> = size (filter_mset (\<lambda>r. \<not> keeps r) (mset (map fst (tp_log y))))" by (metis mset_filter size_mset)
  also have "\<dots> \<le> size (filter_mset (\<lambda>r. \<not> keeps r) (mset reqs))" by (intro size_mset_mono multiset_filter_mono sub)
  also have "\<dots> < n" using assms(5) by (metis mset_filter size_mset)
  finally have "(\<Sum>i<n. m_ended (tp_pc y i)) < n" using assms(1) by (simp add: tp_inv_def)
  moreover have "(\<Sum>i<n. m_ended (tp_pc y i)) = n" if "\<forall>i<n. tp_pc y i = M_End" using that by simp
  ultimately have "\<not> (\<forall>i<n. tp_pc y i = M_End)" by (metis less_irrefl)
  then have "mset (map fst (tp_log y)) = mset reqs" using tp_stuck(2) [OF assms(1-4)] by blast
  then show ?thesis using log by (metis mset_map)
qed

end

subsection \<open>Properties\<close>

text \<open>The pool answers: for any \<open>n\<close> workers, any requests of which fewer than \<open>n\<close> are for missing files (those for which a worker leaves its loop), and any
  interleaving, the run has at most \<open>7 * R + n\<close> steps for \<open>R\<close> requests without spurious wake-ups, and when nobody can go on, every request
  has been answered exactly once.  No signal is lost, although each is sent after the mutex was released.\<close>

theorem mt_pool_serves:
  assumes "tp_run mt_ops keeps n (tp_start (steque_init q) reqs) k y" "int (length reqs) \<le> INT_MAX" "nodes (tp_queue y) a = None"
    and "length (filter (\<lambda>r. \<not> keeps r) reqs) < n"
  shows "k \<le> 7 * length reqs + n \<and>
    ((\<nexists>y'. tp_step mt_ops keeps n y y') \<longrightarrow> tp_todo y = [] \<and> mset (tp_log y) = mset (map (\<lambda>r. (r, keeps r)) reqs))"
proof -
  have wf: "steque_wf (steque_init q)" "steque_abs (steque_init q) = []" using steque_repI [OF steque_init_rep [of q]] by auto
  have p: "\<exists>p. steque_place p (tp_queue y)" using assms(3) by (auto simp: steque_place_def intro: exI [of _ "Some a"])
  note run = assms(1) [unfolded mt_ops_def]
  have i: "rq.tp_inv keeps n reqs y" by (rule rq.tp_inv_reach [OF tp_run_reach [OF run] wf])
  show ?thesis
    using rq.tp_run_weight [OF run wf] rq.tp_stuck(1) [OF i _ assms(2) p] rq.tp_stuck_served [OF i _ assms(2) p assms(4)]
    unfolding mt_ops_def by fastforce
qed

text \<open>C28. The pool with its condition variable refines the pool of \<open>MTServer\<close>, in which a free worker takes a request at once: every state it can reach, with
  any spurious wake-ups, has a reachable state there with the same queue, the same answers, as many free workers and the same requests in
  work.  So what is shown of that pool (it loses a worker with every missing file) holds of this one.\<close>

theorem mt_pool_refines:
  assumes "tp_reach mt_ops keeps n (tp_start q reqs) y"
  shows "\<exists>m. mts_reach mt_ops keeps (mts_init q n) m \<and> ms_queue m = tp_queue y \<and> ms_log m = tp_log y \<and>
    ms_workers m = (\<Sum>i<n. m_free (tp_pc y i)) \<and> mset (ms_busy m) = (\<Sum>i<n. m_busy (tp_pc y i))"
  using reach_same_pool [OF assms] by (simp add: same_pool_def)


lemma example_pool_run:
  "\<exists>k y. tp_run mt_ops (\<lambda>r. r = ''/a'') 2 (tp_start (steque_init example_paths) [''/b'']) k y \<and> nodes (tp_queue y) 1 = None \<and> 1 \<le> k"
proof -
  let ?q = "steque_init example_paths" and ?r = "tp_run mt_ops (\<lambda>r. r = ''/a'') 2 (tp_start (steque_init example_paths) [''/b''])"
  have pl: "nodes ?q 0 = None" "N ?q < INT_MAX" "steque_wf ?q"
    using steque_repI [OF steque_init_rep [of example_paths]] by (auto simp: steque_init_def example_paths_def INT_MAX_def)
  obtain q' where q': "steque_enqueue (Some 0) ''/b'' ?q = Inr q'" "dom (nodes q') = insert 0 (dom (nodes ?q))"
    using steque_enqueue_fresh [OF pl(3,1,2), of "''/b''"] by blast
  have "tp_step mt_ops (\<lambda>r. r = ''/a'') 2 (tp_start ?q [''/b'']) ((tp_start ?q [''/b''])\<lparr>tp_queue := q', tp_signal := True, tp_todo := []\<rparr>)"
    unfolding tp_step_def
    by (intro disjI1 handler_step.h_enqueue [where p = "Some 0"]) (use q'(1) pl in \<open>simp_all add: tp_start_def mt_ops_def fifo_ops_def steque_place_def\<close>)
  then have "?r 1 ((tp_start ?q [''/b''])\<lparr>tp_queue := q', tp_signal := True, tp_todo := []\<rparr>)"
    using tp_run.intros by (metis One_nat_def)
  moreover have "nodes q' 1 = None" using q'(2) by (auto simp: steque_init_def example_paths_def)
  ultimately show ?thesis by fastforce
qed

theorem mt_pool_serves_witness:
  "\<exists>k y. tp_run mt_ops (\<lambda>r. r = ''/a'') 2 (tp_start (steque_init example_paths) [''/b'']) k y \<and> 1 \<le> k \<and> k \<le> 9"
proof -
  obtain k y where r: "tp_run mt_ops (\<lambda>r. r = ''/a'') 2 (tp_start (steque_init example_paths) [''/b'']) k y" "nodes (tp_queue y) 1 = None" "1 \<le> k"
    using example_pool_run by blast
  show ?thesis using mt_pool_serves [OF r(1) _ r(2)] r(1,3) by (fastforce simp: INT_MAX_def)
qed

theorem mt_pool_refines_witness:
  "\<exists>k y m. tp_run mt_ops (\<lambda>r. r = ''/a'') 2 (tp_start (steque_init example_paths) [''/b'']) k y \<and> 1 \<le> k \<and>
    mts_reach mt_ops (\<lambda>r. r = ''/a'') (mts_init (steque_init example_paths) 2) m \<and> ms_queue m = tp_queue y"
proof -
  obtain k y where r: "tp_run mt_ops (\<lambda>r. r = ''/a'') 2 (tp_start (steque_init example_paths) [''/b'']) k y" "1 \<le> k"
    using example_pool_run by blast
  show ?thesis using mt_pool_refines [OF tp_run_reach [OF r(1)]] r by blast
qed

end
