(* ===== verification/MTProgram.thy ===== *)
theory MTProgram
  imports MTPool CommandLines
begin

section \<open>The multithreaded server from its command line on (pr1/mtgf)\<close>

text \<open>
  gfserver_main.c of pr1/mtgf: its \<open>main\<close> reads the options and the list of files, makes the queue and the threads, and gives its
  handler to the library.  Here the pool of \<open>MTPool\<close> runs over the table that \<open>main\<close> has read, and answers over the
  functions of the Getfile library.
\<close>

subsection \<open>Lemmas\<close>

text \<open>Each path opens, with a descriptor behind which is a file that is not empty and whose size \<open>fstat\<close> gives.\<close>

definition served_files :: "open_fn \<Rightarrow> (int \<Rightarrow> rfile) \<Rightarrow> (int \<Rightarrow> size_t option) \<Rightarrow> (string \<Rightarrow> char list) \<Rightarrow> nat \<Rightarrow> (string \<times> string) list \<Rightarrow> bool" where
  "served_files opn files fsz disk n kps \<longleftrightarrow> (\<forall>i<length kps. let fd = opn i (Some (snd (kps ! i))); bs = disk (snd (kps ! i)) in
    0 \<le> fd \<and> fbytes (files fd) = bs \<and> rd_good (files fd) \<and> fsz fd = Some (of_nat (length bs)) \<and>
    bs \<noteq> [] \<and> length bs < 2 ^ 63 \<and> length bs < n)"

lemma mt_table:
  assumes "list_all (line_ok 256) kps" "served_files opn files fsz disk n kps"
  shows "mt_content_init opn qs (Some (render kps)) = Inr (EXIT_SUCCESS, qs itemcmp (opened opn 0 kps))"
proof -
  have "\<forall>e\<in>set (opened opn 0 kps). 0 \<le> fildes e"
    using assms(2) opened_entry [of _ opn 0 kps] by (fastforce simp: served_files_def Let_def)
  then show ?thesis
    using content_load_render [OF assms(1), of "[]" 16 opn EXIT_FAILURE] by (auto simp: mt_content_init_def table_init_def)
qed

lemma mt_lookup:
  assumes "tab = qs itemcmp (opened opn 0 kps)" "qsort_spec qs" "distinct (map fst kps)"
  shows "mt_content_get tab p = Inr (case find (\<lambda>e. key e = p) tab of None \<Rightarrow> -1 | Some e \<Rightarrow> fildes e)"
  using content_get_find [of tab p "\<lambda>_. 0"] sorted_distinct_table [OF assms]
  by (simp add: mt_content_get_eq [where offs = "\<lambda>_. 0"] split: option.splits)

text \<open>The answer to a request for any path.\<close>

definition mt_reply :: "(string \<times> string) list \<Rightarrow> (string \<Rightarrow> char list) \<Rightarrow> string \<Rightarrow> char list" where
  "mt_reply kps disk p = (case map_of kps p of None \<Rightarrow> hdr_fnf | Some f \<Rightarrow> hdr_ok (of_nat (length (disk f))) @ disk f)"

lemma mt_serves:
  assumes "tab = qs itemcmp (opened opn 0 kps)" "qsort_spec qs" "distinct (map fst kps)" "served_files opn files fsz disk n kps"
    and "gflib_healthy c"
  shows "\<exists>c'. mts_serve n gflib_put gflib_puthdr tab files fsz p c = Some (Inr (p \<in> fst ` set kps, c')) \<and>
    tx (snd c') = tx (snd c) @ mt_reply kps disk p"
proof (cases "map_of kps p")
  case None
  then have "mt_content_get tab p = Inr (-1)" using table_lookup [OF assms(1-3), of p] mt_lookup [OF assms(1-3), of p] by simp
  moreover obtain s1 where "snd (gflib_puthdr S_GF_FILE_NOT_FOUND 0 c) = s1" "gflib_sent s1 = gflib_sent c @ gflib_hdr S_GF_FILE_NOT_FOUND 0"
    using gflib.puthdr_ok [OF assms(5)] by (metis snd_conv)
  moreover have "p \<notin> fst ` set kps" using None by (simp add: map_of_eq_None_iff)
  ultimately show ?thesis
    using None by (simp add: mts_serve_def mt_reply_def gflib_sent_def gflib_hdr_def gf_codes)
next
  case (Some f)
  then obtain i x where i: "i < length kps" "kps ! i = (p, f)" "find (\<lambda>x. key x = p) tab = Some x" "fildes x = opn i (Some f)"
    using table_lookup [OF assms(1-3), of p] by auto
  have g: "mt_content_get tab p = Inr (opn i (Some f))" using mt_lookup [OF assms(1-3), of p] i(3,4) by simp
  have s: "0 \<le> opn i (Some f)" "fbytes (files (opn i (Some f))) = disk f" "rd_good (files (opn i (Some f)))"
    "fsz (opn i (Some f)) = Some (of_nat (length (disk f)))" "disk f \<noteq> []" "length (disk f) < 2 ^ 63" "length (disk f) < n"
    using assms(4) i(1,2) by (auto simp: served_files_def Let_def)
  have "p \<in> fst ` set kps" using Some by (metis map_of_SomeD fst_conv image_eqI)
  then show ?thesis
    using mt_server_sends_file [OF assms(5) g, of fsz files n] s Some by (simp add: mt_reply_def)
qed

subsection \<open>Property\<close>

text \<open>C6. The program.  If the options on the command line of the server are accepted, and the lines of the list of files (of less than 256 characters) have different
  keys and files that open, are not empty and can be read, then \<open>main\<close> reads the table; for any requests (at most \<open>INT_MAX\<close>) of which fewer than the number
  of threads are for paths that are not in the list (each of those costs a thread), in every interleaving the run has at most
  \<open>7 * R + n\<close> steps without spurious wake-ups, and when nobody can go on every request has been answered exactly once, no signal being
  lost; and the answer to a request, over the Getfile library on a healthy connection (no send fails, and each takes at least 64 bytes of
  what it is given, so that the header goes out in one) and whatever pieces \<open>pread\<close> works in, is the header and exactly the bytes of
  the file of its line, or the header for a missing file, after which the thread ends.  The path in the queue, a pointer of the library's,
  is taken to stay what it was until the request has been answered.\<close>

theorem mt_server_program:
  assumes "mts_setup (fst (getopt_long (options_of Mtserver) argv)) = Inr so"
    and "Option.bind (so_content so) file = Some (render kps)" "list_all (line_ok 256) kps" "distinct (map fst kps)"
    and "qsort_spec qs" "served_files opn files fsz disk fuel kps"
    and "int (length reqs) \<le> INT_MAX" "length (filter (\<lambda>p. p \<notin> fst ` set kps) reqs) < nat (so_nthreads so)"
  shows "\<exists>tab. mt_content_init opn qs (Option.bind (so_content so) file) = Inr (EXIT_SUCCESS, tab) \<and> 0 < so_nthreads so \<and>
    (\<forall>k y a. tp_run mt_ops (\<lambda>p. p \<in> fst ` set kps) (nat (so_nthreads so)) (tp_start (steque_init q) reqs) k y \<and> nodes (tp_queue y) a = None \<longrightarrow>
      k \<le> 7 * length reqs + nat (so_nthreads so) \<and>
      ((\<nexists>y'. tp_step mt_ops (\<lambda>p. p \<in> fst ` set kps) (nat (so_nthreads so)) y y') \<longrightarrow>
        tp_todo y = [] \<and> mset (tp_log y) = mset (map (\<lambda>r. (r, r \<in> fst ` set kps)) reqs))) \<and>
    (\<forall>p c. gflib_healthy c \<longrightarrow> (\<exists>c'. mts_serve fuel gflib_put gflib_puthdr tab files fsz p c = Some (Inr (p \<in> fst ` set kps, c')) \<and>
      tx (snd c') = tx (snd c) @ mt_reply kps disk p))"
proof -
  have n: "0 < so_nthreads so"
    using assms(1) by (auto simp: mts_setup_def bindr_def Let_def split: sum.splits if_splits)
  have t: "mt_content_init opn qs (Option.bind (so_content so) file) = Inr (EXIT_SUCCESS, qs itemcmp (opened opn 0 kps))"
    unfolding assms(2) by (rule mt_table [OF assms(3,6)])
  moreover have "k \<le> 7 * length reqs + nat (so_nthreads so) \<and>
      ((\<nexists>y'. tp_step mt_ops (\<lambda>p. p \<in> fst ` set kps) (nat (so_nthreads so)) y y') \<longrightarrow>
        tp_todo y = [] \<and> mset (tp_log y) = mset (map (\<lambda>r. (r, r \<in> fst ` set kps)) reqs))"
    if "tp_run mt_ops (\<lambda>p. p \<in> fst ` set kps) (nat (so_nthreads so)) (tp_start (steque_init q) reqs) k y" "nodes (tp_queue y) a = None" for k y a
    using mt_pool_serves [OF that(1) assms(7) that(2) assms(8)] .
  ultimately show ?thesis using n mt_serves [OF refl assms(5,4,6)] by blast
qed

definition example_mt_file :: rfile where
  "example_mt_file = \<lparr>fbytes = ''text'', foff = 0, rdplan = [3]\<rparr>"

theorem mt_server_program_witness:
  "\<exists>tab c'. mt_content_init (\<lambda>i p. 3) sort_items (Some (render [(''/a'', ''f'')])) = Inr (EXIT_SUCCESS, tab) \<and>
    mts_serve 9 gflib_put gflib_puthdr tab (\<lambda>_. example_mt_file) (\<lambda>_. Some 4) ''/a''
      (\<lparr>client_socket_fd = 5, ctx_file_len = 0\<rparr>, \<lparr>rx = [], tx = [], txplan = [70]\<rparr>) = Some (Inr (True, c')) \<and>
    tx (snd c') = hdr_ok 4 @ ''text''"
proof -
  have su: "mts_setup (fst (getopt_long (options_of Mtserver) [])) = Inr mts_default"
    by (simp add: mts_setup_def mts_default_def)
  have l: "Option.bind (so_content mts_default) (\<lambda>_. Some (render [(''/a'', ''f'')])) = Some (render [(''/a'', ''f'')])"
    "list_all (line_ok 256) [(''/a'', ''f'')]" "distinct (map fst [(''/a'', ''f'')])"
    "served_files (\<lambda>i p. 3) (\<lambda>_. example_mt_file) (\<lambda>_. Some 4) (\<lambda>_. ''text'') 9 [(''/a'', ''f'')]"
    "int (length [''/b'']) \<le> INT_MAX" "length (filter (\<lambda>p. p \<notin> fst ` set [(''/a'', ''f'')]) [''/b'']) < nat (so_nthreads mts_default)"
    by (simp_all add: mts_default_def line_ok_def plain_def served_files_def example_mt_file_def rd_good_def INT_MAX_def)
  obtain tab where "mt_content_init (\<lambda>i p. 3) sort_items (Some (render [(''/a'', ''f'')])) = Inr (EXIT_SUCCESS, tab)"
    and a: "\<And>p c. gflib_healthy c \<Longrightarrow> \<exists>c'. mts_serve 9 gflib_put gflib_puthdr tab (\<lambda>_. example_mt_file) (\<lambda>_. Some 4) p c =
        Some (Inr (p \<in> fst ` set [(''/a'', ''f'')], c')) \<and> tx (snd c') = tx (snd c) @ mt_reply [(''/a'', ''f'')] (\<lambda>_. ''text'') p"
    using mt_server_program [OF su l(1-3) sort_items_spec l(4-6), of example_paths] unfolding l(1) by blast
  moreover have "gflib_healthy (\<lparr>client_socket_fd = 5, ctx_file_len = 0\<rparr>, \<lparr>rx = [], tx = [], txplan = [70]\<rparr>)" by (simp add: gflib_healthy_def)
  ultimately show ?thesis using a [of "(\<lparr>client_socket_fd = 5, ctx_file_len = 0\<rparr>, \<lparr>rx = [], tx = [], txplan = [70]\<rparr>)" "''/a''"]
    by (auto simp: mt_reply_def)
qed

end
