(* ===== verification/DfsClient.thy ===== *)
theory DfsClient
  imports DfsServer
begin

section \<open>The distributed file system: the client node (pr4/dfs-clientnode-p1.cpp)\<close>

text \<open>
  The methods of \<open>DFSClientNodeP1\<close>.  The stub's calls are arguments: what a call returns (messages and
  status) and what it makes of the state behind the connection.  \<open>wrap\<close> is \<open>WrapPath\<close> of the base class, whose source of
  part 1 is not in the repository.  What the methods promise of a working service is proved in the
  locale \<open>file_service\<close>; its interpretation is the server of the theory \<open>DfsServer\<close>.
\<close>

type_synonym 's store_call = "string \<Rightarrow> char list list \<Rightarrow> 's \<Rightarrow> rpc_code \<times> 's"
type_synonym 's fetch_call = "string \<Rightarrow> 's \<Rightarrow> char list list \<times> rpc_code"
type_synonym 's delete_call = "string \<Rightarrow> 's \<Rightarrow> rpc_code \<times> 's"
type_synonym 's list_call = "'s \<Rightarrow> rpc_code \<times> Item list"
type_synonym 's stat_call = "string \<Rightarrow> 's \<Rightarrow> rpc_code \<times> statResponse"

subsection \<open>Methods\<close>

text \<open>The messages \<open>Store\<close> writes; the result of \<open>Write\<close> is not looked at.  \<open>None\<close>: still writing.\<close>

fun store_chunks :: "nat \<Rightarrow> int \<Rightarrow> int \<Rightarrow> istream \<Rightarrow> char list list \<Rightarrow> char list list res option" where
  "store_chunks 0 filesize bytes_read s out = None"
| "store_chunks (Suc n) filesize bytes_read s out =
    (if bytes_read < filesize then
       case is_read 1024 s of (d, s') \<Rightarrow>
         if bytes_read + int (length d) > INT_MAX then Some (Inl (Ub Signed_Overflow))
         else store_chunks n filesize (bytes_read + int (length d)) s' (out @ [d])
     else Some (Inr out))"

definition Store :: "nat \<Rightarrow> (string \<Rightarrow> string) \<Rightarrow> 's store_call \<Rightarrow> string \<Rightarrow> host \<Rightarrow> 's \<Rightarrow> (rpc_code \<times> 's) res option" where
  "Store fuel wrap call filename h s =
    (case stat_path h (wrap filename) of None \<Rightarrow> Some (Inr (NOT_FOUND, s))
     | Some filestat \<Rightarrow>
       map_option (\<lambda>r. bindr r (\<lambda>chunks. Inr (call filename chunks s)))
         (store_chunks fuel (off_to_int (st_size filestat)) 0 (open_in h (wrap filename)) []))"

text \<open>\<open>Fetch\<close> opens the local file at the first message.\<close>

fun fetch_messages :: "string \<Rightarrow> bool \<Rightarrow> char list list \<Rightarrow> host \<Rightarrow> host" where
  "fetch_messages p opened [] h = h"
| "fetch_messages p opened (d # ds) h =
    (case if opened then (True, h) else open_out p h of (opened', h') \<Rightarrow>
       fetch_messages p opened' ds (os_write opened' p d h'))"

definition Fetch :: "(string \<Rightarrow> string) \<Rightarrow> 's fetch_call \<Rightarrow> string \<Rightarrow> host \<Rightarrow> 's \<Rightarrow> rpc_code \<times> host" where
  "Fetch wrap call filename h s =
    (case call filename s of (msgs, status) \<Rightarrow>
       (if status \<noteq> OK then if status = INTERNAL then CANCELLED else status else OK,
        fetch_messages (wrap filename) False msgs h))"

definition Delete :: "'s delete_call \<Rightarrow> string \<Rightarrow> 's \<Rightarrow> rpc_code \<times> 's" where
  "Delete call filename s = call filename s"

text \<open>\<open>map::insert\<close> keeps the value of a key that is there; the time becomes an \<open>int\<close>.
  \<open>file_map\<close> is a pointer, by default null.\<close>

definition map_insert :: "'k \<Rightarrow> 'v \<Rightarrow> ('k \<rightharpoonup> 'v) \<Rightarrow> ('k \<rightharpoonup> 'v)" where
  "map_insert k v m = (case m k of None \<Rightarrow> m(k \<mapsto> v) | Some _ \<Rightarrow> m)"

definition time_to_int :: "64 word \<Rightarrow> int" where
  "time_to_int t = sint (ucast t :: 32 word)"

fun list_insert :: "(string \<rightharpoonup> int) option \<Rightarrow> Item list \<Rightarrow> (string \<rightharpoonup> int) option res" where
  "list_insert file_map [] = Inr file_map"
| "list_insert None (it # items) = Inl (Ub Null_Deref)"
| "list_insert (Some m) (it # items) = list_insert (Some (map_insert (it_filename it) (time_to_int (it_mtime it)) m)) items"

definition ListFiles :: "'s list_call \<Rightarrow> (string \<rightharpoonup> int) option \<Rightarrow> 's \<Rightarrow> (rpc_code \<times> (string \<rightharpoonup> int) option) res" where
  "ListFiles call file_map s =
    (case call s of (status, items) \<Rightarrow>
       if status \<noteq> OK then Inr (status, file_map)
       else bindr (list_insert file_map items) (\<lambda>m. Inr (OK, m)))"

text \<open>
  \<open>Stat\<close> assigns the address of its response to its own parameter, so \<open>file_status\<close> stays what it was
  for the caller (third component); the response is printed (second component).
\<close>

definition Stat :: "'s stat_call \<Rightarrow> string \<Rightarrow> 'p \<Rightarrow> 's \<Rightarrow> rpc_code \<times> statResponse option \<times> 'p" where
  "Stat call filename file_status s =
    (case call filename s of (status, response) \<Rightarrow>
       if status \<noteq> OK then (status, None, file_status) else (OK, Some response, file_status))"

subsection \<open>Reading a file in blocks\<close>

text \<open>The two loops that read a file are the same up to the question whether the call was cancelled.\<close>

lemma store_chunks_fetch_loop:
  "map_option (\<lambda>r. bindr r (\<lambda>out. Inr (OK, out))) (store_chunks n filesize k s out) =
    fetch_loop n (\<lambda>_. False) i filesize k s out"
proof (induction n arbitrary: i k s out)
  case (Suc n)
  show ?case by (cases "is_read 1024 s") (simp add: Suc.IH)
qed simp

text \<open>A good stream that holds the rest of the file: the blocks are the file, none is empty.\<close>

fun blocks :: "nat \<Rightarrow> char list \<Rightarrow> char list list" where
  "blocks n bs = (if bs = [] \<or> n = 0 then [] else take n bs # blocks n (drop n bs))"

declare blocks.simps [simp del]

lemma blocks_Nil [simp]: "blocks n [] = []"
  by (simp add: blocks.simps)

lemma concat_blocks: "0 < n \<Longrightarrow> concat (blocks n bs) = bs"
proof (induction n bs rule: blocks.induct)
  case (1 n bs)
  then show ?case by (cases "bs = []") (simp_all add: blocks.simps [of n bs])
qed

lemma blocks_nonempty: "[] \<notin> set (blocks n bs)"
proof (induction n bs rule: blocks.induct)
  case (1 n bs)
  then show ?case by (simp add: blocks.simps [of n bs])
qed

lemma length_blocks: "length (blocks 1024 bs) \<le> length bs div 1024 + 1"
proof (induction "1024 :: nat" bs rule: blocks.induct)
  case (1 bs)
  show ?case
  proof (cases "bs = []")
    case False
    have IH: "length (blocks 1024 (drop 1024 bs)) \<le> length (drop 1024 bs) div 1024 + 1" using 1 False by simp
    show ?thesis
    proof (cases "1024 \<le> length bs")
      case True
      then have "(length bs - 1024) div 1024 + 1 = length bs div 1024" by (simp add: le_div_geq)
      then show ?thesis using IH False by (simp add: blocks.simps [of 1024 bs])
    next
      case F: False
      then show ?thesis using False by (simp add: blocks.simps [of 1024 bs])
    qed
  qed simp
qed

lemma fetch_loop_all:
  "k + int (length bs) = filesize \<Longrightarrow> 0 \<le> k \<Longrightarrow> filesize \<le> INT_MAX \<Longrightarrow> bs = [] \<or> good \<Longrightarrow>
   \<forall>j < length (blocks 1024 bs). \<not> canc (i + j) \<Longrightarrow> length (blocks 1024 bs) < n \<Longrightarrow>
   fetch_loop n canc i filesize k \<lparr>is_data = bs, is_good = good\<rparr> out = Some (Inr (OK, out @ blocks 1024 bs))"
proof (induction n arbitrary: i k bs good out)
  case (Suc n)
  show ?case
  proof (cases "bs = []")
    case True
    then show ?thesis using Suc.prems by simp
  next
    case False
    have b: "blocks 1024 bs = take 1024 bs # blocks 1024 (drop 1024 bs)" using False by (simp add: blocks.simps [of 1024 bs])
    have r: "is_read 1024 \<lparr>is_data = bs, is_good = good\<rparr> =
        (take 1024 bs, \<lparr>is_data = drop 1024 bs, is_good = (1024 \<le> length bs)\<rparr>)"
      using Suc.prems(4) False by (auto simp: is_read_def Let_def)
    have c0: "\<not> canc i" using Suc.prems(5) b by fastforce
    have cs: "\<forall>j < length (blocks 1024 (drop 1024 bs)). \<not> canc (Suc i + j)"
      using Suc.prems(5) b by (metis Suc_less_eq add_Suc_shift length_Cons)
    have len: "k + int (length (take 1024 bs)) + int (length (drop 1024 bs)) = filesize"
      using Suc.prems(1) by (simp add: min_def)
    then have no: "\<not> INT_MAX < k + int (length (take 1024 bs))" using Suc.prems(3) by linarith
    have lt: "k < filesize" using Suc.prems(1) False by auto
    have "fetch_loop n canc (Suc i) filesize (k + int (length (take 1024 bs)))
        \<lparr>is_data = drop 1024 bs, is_good = (1024 \<le> length bs)\<rparr> (out @ [take 1024 bs]) =
        Some (Inr (OK, (out @ [take 1024 bs]) @ blocks 1024 (drop 1024 bs)))"
      using Suc.prems(2,3,6) b cs len by (intro Suc.IH) auto
    then show ?thesis using r c0 no lt b by (simp del: length_take length_drop)
  qed
qed simp

text \<open>A stream that has no more data: empty messages until the call is cancelled.\<close>

lemma fetch_loop_spins:
  "\<not> is_good s \<Longrightarrow> k < filesize \<Longrightarrow> k \<le> INT_MAX \<Longrightarrow>
   fetch_loop n canc i filesize k s out =
    (if \<exists>j<n. canc (i + j) then Some (Inr (DEADLINE_EXCEEDED, out @ replicate (LEAST j. canc (i + j)) [])) else None)"
proof (induction n arbitrary: i out)
  case (Suc n)
  show ?case
  proof (cases "canc i")
    case True
    then have "(LEAST j. canc (i + j)) = 0" by (intro Least_eq_0) simp
    then show ?thesis using Suc.prems True by auto
  next
    case False
    have ex: "(\<exists>j<Suc n. canc (i + j)) \<longleftrightarrow> (\<exists>j<n. canc (Suc i + j))"
    proof
      assume "\<exists>j<Suc n. canc (i + j)"
      then obtain j where j: "j < Suc n" "canc (i + j)" by blast
      then obtain j' where "j = Suc j'" using False by (cases j) auto
      then show "\<exists>j<n. canc (Suc i + j)" using j by auto
    next
      assume "\<exists>j<n. canc (Suc i + j)"
      then show "\<exists>j<Suc n. canc (i + j)" by (metis Suc_less_eq add_Suc_shift)
    qed
    have least: "(LEAST j. canc (i + j)) = Suc (LEAST j. canc (Suc i + j))" if "canc (i + j)" for j
      using Least_Suc [of "\<lambda>j. canc (i + j)", OF that] False by simp
    have "is_read 1024 s = ([], s)" using Suc.prems(1) by (simp add: is_read_def)
    then have "fetch_loop (Suc n) canc i filesize k s out = fetch_loop n canc (Suc i) filesize k s (out @ [[]])"
      using Suc.prems False by simp
    also have "\<dots> = (if \<exists>j<n. canc (Suc i + j)
        then Some (Inr (DEADLINE_EXCEEDED, (out @ [[]]) @ replicate (LEAST j. canc (Suc i + j)) [])) else None)"
      by (rule Suc.IH [OF Suc.prems])
    finally show ?thesis using ex least by (auto simp: replicate_append_Cons)
  qed
qed simp

end
