(* ===== verification/DfsService.thy ===== *)
theory DfsService
  imports DfsClient
begin

section \<open>The distributed file system: clients and server together\<close>

text \<open>
  What a client may rely on is the locale \<open>file_service\<close>: a state with a map from file names to
  contents, and calls that read and write it.  The lemmas about \<open>Store\<close> and \<open>Fetch\<close> are
  proved in it, and the server of \<open>DfsServer\<close>, reached over a connection that delivers every message, interprets it.
  \<open>limit\<close> is the number of messages a call may have before its deadline.
\<close>

locale file_service =
  fixes inv :: "'s \<Rightarrow> bool"
    and content :: "'s \<Rightarrow> (string \<rightharpoonup> char list)"
    and names :: "string set"
    and limit :: nat
    and srv_store :: "'s store_call"
    and srv_fetch :: "'s fetch_call"
    and srv_delete :: "'s delete_call"
  assumes store_ok: "inv s \<Longrightarrow> f \<in> names \<Longrightarrow> length ds \<le> limit \<Longrightarrow>
      \<exists>s'. srv_store f ds s = (OK, s') \<and> inv s' \<and> content s' = (content s)(f \<mapsto> concat ds)"
    and fetch_ok: "inv s \<Longrightarrow> f \<in> names \<Longrightarrow> content s f = Some b \<Longrightarrow> int (length b) \<le> INT_MAX \<Longrightarrow>
      length b div 1024 < limit \<Longrightarrow> \<exists>ds. srv_fetch f s = (ds, OK) \<and> concat ds = b \<and> [] \<notin> set ds"
    and fetch_none: "inv s \<Longrightarrow> f \<in> names \<Longrightarrow> content s f = None \<Longrightarrow> srv_fetch f s = ([], NOT_FOUND)"
    and delete_ok: "inv s \<Longrightarrow> f \<in> names \<Longrightarrow> 0 < limit \<Longrightarrow> \<exists>s'. srv_delete f s = (if content s f = None then NOT_FOUND else OK, s') \<and>
      inv s' \<and> content s' = (content s)(f := None)"

text \<open>The local file of a client.\<close>

definition local_file :: "host \<Rightarrow> string \<Rightarrow> char list \<Rightarrow> bool" where
  "local_file h p b \<longleftrightarrow> (\<exists>m c. h_tree h p = Some (Reg b m c))"

definition storable :: "host \<Rightarrow> string \<Rightarrow> char list \<Rightarrow> bool" where
  "storable h p b \<longleftrightarrow> local_file h p b \<and> h_readable h p \<and> int (length b) \<le> INT_MAX"

lemma fetch_loop_file:
  assumes "storable h p b" "\<forall>j < length (blocks 1024 b). \<not> canc j" "length (blocks 1024 b) < n"
  shows "stat_path h p \<noteq> None"
    and "fetch_loop n canc 0 (off_to_int (st_size (the (stat_path h p)))) 0 (open_in h p) [] = Some (Inr (OK, blocks 1024 b))"
proof -
  obtain m c where t: "h_tree h p = Some (Reg b m c)" "h_readable h p" "int (length b) \<le> INT_MAX"
    using assms(1) by (auto simp: storable_def local_file_def)
  then show "stat_path h p \<noteq> None" by (simp add: stat_path_def)
  show "fetch_loop n canc 0 (off_to_int (st_size (the (stat_path h p)))) 0 (open_in h p) [] = Some (Inr (OK, blocks 1024 b))"
    using fetch_loop_all [of 0 b "int (length b)" True canc 0 n "[]"] t assms(2,3)
    by (simp add: stat_path_def open_in_def off_to_int_small)
qed

lemma store_chunks_file:
  assumes "storable h p b" "length (blocks 1024 b) < n"
  shows "store_chunks n (off_to_int (st_size (the (stat_path h p)))) 0 (open_in h p) [] = Some (Inr (blocks 1024 b))"
proof -
  have "map_option (\<lambda>r. bindr r (\<lambda>out. Inr (OK, out)))
      (store_chunks n (off_to_int (st_size (the (stat_path h p)))) 0 (open_in h p) []) = Some (Inr (OK, blocks 1024 b))"
    unfolding store_chunks_fetch_loop [where i = 0] using assms by (intro fetch_loop_file(2)) auto
  then show ?thesis by (auto simp: res_simps)
qed

text \<open>Messages into a file: the first one opens it.\<close>

lemma os_write_reg: "h_tree h p = Some (Reg b m c) \<Longrightarrow> os_write True p d h = put_file p (b @ d) h"
  by (simp add: os_write_def)

lemma fetch_messages_opened:
  "h_tree h p = Some (Reg b (h_now h) (h_now h)) \<Longrightarrow> fetch_messages p True ds h = put_file p (b @ concat ds) h"
proof (induction ds arbitrary: b h)
  case Nil
  then show ?case by (simp add: put_file_same)
next
  case (Cons d ds)
  then show ?case using Cons.IH [of "put_file p (b @ d) h" "b @ d"] by (simp add: os_write_reg)
qed

lemma fetch_messages_new:
  "ds \<noteq> [] \<Longrightarrow> h_writable h p \<Longrightarrow> \<not> is_dir h p \<Longrightarrow> fetch_messages p False ds h = put_file p (concat ds) h"
  using fetch_messages_opened [of "put_file p (hd ds) h" p "hd ds" "tl ds"]
  by (cases ds) (simp_all add: open_out_def os_write_reg)

lemma store_loop_opened:
  "h_tree h p = Some (Reg b (h_now h) (h_now h)) \<Longrightarrow> \<forall>j<length ds. \<not> canc (i + j) \<Longrightarrow>
   store_loop canc i p True ds h = (OK, put_file p (b @ concat ds) h)"
proof (induction ds arbitrary: b h i)
  case Nil
  then show ?case by (simp add: put_file_same)
next
  case (Cons d ds)
  have c: "\<not> canc i" "\<forall>j<length ds. \<not> canc (Suc i + j)"
    using Cons.prems(2) by (fastforce, metis Suc_less_eq add_Suc_shift length_Cons)
  then show ?case using Cons.IH [of "put_file p (b @ d) h" "b @ d" "Suc i"] Cons.prems(1) by (simp add: os_write_reg)
qed

lemma storeFile_new:
  "h_writable h (mp @ f) \<Longrightarrow> \<not> is_dir h (mp @ f) \<Longrightarrow> \<forall>j<length ds. \<not> canc j \<Longrightarrow>
   storeFile mp canc (Some f) ds h = (OK, put_file (mp @ f) (concat ds) h)"
  by (simp add: storeFile_def WrapPath_def open_out_def store_loop_opened)

context file_service
begin

lemma Store_ok:
  assumes "inv s" "f \<in> names" "storable h (wrap f) b" "length b div 1024 < limit" "length b div 1024 + 2 \<le> fuel"
  shows "\<exists>s'. Store fuel wrap srv_store f h s = Some (Inr (OK, s')) \<and> inv s' \<and> content s' = (content s)(f \<mapsto> b)"
proof -
  have "length (blocks 1024 b) < fuel" using length_blocks [of b] assms(5) by linarith
  note ch = store_chunks_file [OF assms(3) this]
  have "length (blocks 1024 b) \<le> limit" using length_blocks [of b] assms(4) by linarith
  then obtain s' where s': "srv_store f (blocks 1024 b) s = (OK, s')" "inv s'" "content s' = (content s)(f \<mapsto> concat (blocks 1024 b))"
    using store_ok [OF assms(1,2)] by blast
  obtain fi where fi: "stat_path h (wrap f) = Some fi"
    using assms(3) by (auto simp: storable_def local_file_def stat_path_def)
  then have "Store fuel wrap srv_store f h s = Some (Inr (OK, s'))"
    using ch s'(1) unfolding Store_def by (simp only: fi option.case option.sel option.map bindr_Inr)
  then show ?thesis using s' concat_blocks [of 1024 b] by simp
qed

lemma Fetch_ok:
  assumes "inv s" "f \<in> names" "content s f = Some b" "b \<noteq> []" "int (length b) \<le> INT_MAX" "length b div 1024 < limit"
    and "h_writable h (wrap f)" "\<not> is_dir h (wrap f)"
  shows "Fetch wrap srv_fetch f h s = (OK, put_file (wrap f) b h)"
proof -
  obtain ds where "srv_fetch f s = (ds, OK)" "concat ds = b" using fetch_ok [OF assms(1-3,5,6)] by blast
  moreover from this have "ds \<noteq> []" using assms(4) by auto
  ultimately show ?thesis using fetch_messages_new assms(7,8) by (simp add: Fetch_def)
qed

lemma Fetch_empty:
  assumes "inv s" "f \<in> names" "content s f = Some []" "0 < limit"
  shows "Fetch wrap srv_fetch f h s = (OK, h)"
proof -
  obtain ds where ds: "srv_fetch f s = (ds, OK)" "concat ds = []" "[] \<notin> set ds"
    using fetch_ok [OF assms(1-3)] assms(4) by (auto simp: INT_MAX_def simp del: concat_eq_Nil_conv)
  then have "ds = []" by (cases ds) auto
  then show ?thesis using ds(1) by (simp add: Fetch_def)
qed

lemma Fetch_missing: "inv s \<Longrightarrow> f \<in> names \<Longrightarrow> content s f = None \<Longrightarrow> Fetch wrap srv_fetch f h s = (NOT_FOUND, h)"
  by (simp add: Fetch_def fetch_none)

end

subsection \<open>The server as a service\<close>

text \<open>
  A call with a deadline of \<open>dl\<close> messages on the server with mount path \<open>mp\<close>.  A server process that dies
  gives the client a code of the library.
\<close>

definition call_store :: "nat \<Rightarrow> string \<Rightarrow> host store_call" where
  "call_store dl mp f ds h = storeFile mp (\<lambda>i. dl \<le> i) (Some f) ds h"

definition call_fetch :: "nat \<Rightarrow> string \<Rightarrow> host fetch_call" where
  "call_fetch dl mp f h =
    (case fetchFile (dl + 2) mp (\<lambda>i. dl \<le> i) f h of Some (Inr (status, out)) \<Rightarrow> (out, status) | _ \<Rightarrow> ([], Rpc_Other 0))"

definition call_delete :: "nat \<Rightarrow> string \<Rightarrow> host delete_call" where
  "call_delete dl mp f h = (case deleteFile mp (\<lambda>i. dl \<le> i) f h of (status, r, h') \<Rightarrow> (status, h'))"

definition call_stat :: "nat \<Rightarrow> string \<Rightarrow> host stat_call" where
  "call_stat dl mp f h = getFileAttrs mp (\<lambda>i. dl \<le> i) f h"

definition dfs_content :: "string \<Rightarrow> host \<Rightarrow> (string \<rightharpoonup> char list)" where
  "dfs_content mp h f = (case h_tree h (mp @ f) of Some (Reg b m c) \<Rightarrow> Some b | _ \<Rightarrow> None)"

text \<open>A host on which the files with the given names can be read, written and removed.\<close>

definition dfs_inv :: "string \<Rightarrow> string set \<Rightarrow> host \<Rightarrow> bool" where
  "dfs_inv mp names h \<longleftrightarrow>
    (\<forall>f\<in>names. h_readable h (mp @ f) \<and> h_writable h (mp @ f) \<and> h_removable h (mp @ f) \<and> \<not> is_dir h (mp @ f))"

lemma dfs_content_upd [simp]:
  "dfs_content mp (put_file (mp @ f) b h) = (dfs_content mp h)(f \<mapsto> b)"
  "dfs_content mp (drop_file (mp @ f) h) = (dfs_content mp h)(f := None)"
  by (auto simp: dfs_content_def)

lemma dfs_inv_upd [simp]:
  "dfs_inv mp names h \<Longrightarrow> dfs_inv mp names (put_file p b h)"
  "dfs_inv mp names h \<Longrightarrow> dfs_inv mp names (drop_file p h)"
  by (auto simp: dfs_inv_def)

lemma dfs_content_None:
  assumes "dfs_inv mp names h" "f \<in> names"
  shows "dfs_content mp h f = None \<longleftrightarrow> h_tree h (mp @ f) = None"
proof -
  have "\<not> is_dir h (mp @ f)" using assms by (simp add: dfs_inv_def)
  then show ?thesis by (auto simp: dfs_content_def is_dir_def split: option.splits fnode.splits)
qed

interpretation dfs: file_service "dfs_inv mp names" "dfs_content mp" names dl "call_store dl mp" "call_fetch dl mp" "call_delete dl mp"
  for mp names dl
proof unfold_locales
  fix h f ds
  assume "dfs_inv mp names h" "f \<in> names" "length (ds :: char list list) \<le> dl"
  then have "dfs_inv mp names h" "call_store dl mp f ds h = (OK, put_file (mp @ f) (concat ds) h)"
    using storeFile_new [of h mp f ds "\<lambda>i. dl \<le> i"] by (auto simp: call_store_def dfs_inv_def)
  then show "\<exists>h'. call_store dl mp f ds h = (OK, h') \<and> dfs_inv mp names h' \<and>
      dfs_content mp h' = (dfs_content mp h)(f \<mapsto> concat ds)"
    by simp
next
  fix h f b
  assume a: "dfs_inv mp names h" "f \<in> names" "dfs_content mp h f = Some b" "int (length b) \<le> INT_MAX" "length b div 1024 < dl"
  then have st: "storable h (mp @ f) b"
    by (auto simp: storable_def local_file_def dfs_inv_def dfs_content_def split: option.splits fnode.splits)
  have lb: "\<forall>j<length (blocks 1024 b). \<not> dl \<le> j" "length (blocks 1024 b) < dl + 2"
    using length_blocks [of b] a(5) by auto
  obtain fi where fi: "stat_path h (mp @ f) = Some fi" using fetch_loop_file(1) [OF st lb] by blast
  then have "fetchFile (dl + 2) mp (\<lambda>i. dl \<le> i) f h = Some (Inr (OK, blocks 1024 b))"
    using fetch_loop_file(2) [OF st lb] unfolding fetchFile_def WrapPath_def Let_def by (simp only: fi option.case option.sel)
  then show "\<exists>ds. call_fetch dl mp f h = (ds, OK) \<and> concat ds = b \<and> [] \<notin> set ds"
    using concat_blocks [of 1024 b] blocks_nonempty by (auto simp: call_fetch_def)
next
  fix h f
  assume "dfs_inv mp names h" "f \<in> names" "dfs_content mp h f = None"
  then show "call_fetch dl mp f h = ([], NOT_FOUND)"
    using dfs_content_None by (simp add: call_fetch_def fetchFile_def stat_path_def WrapPath_def)
next
  fix h f
  assume a: "dfs_inv mp names h" "f \<in> names" "0 < dl"
  show "\<exists>h'. call_delete dl mp f h = (if dfs_content mp h f = None then NOT_FOUND else OK, h') \<and>
      dfs_inv mp names h' \<and> dfs_content mp h' = (dfs_content mp h)(f := None)"
  proof (cases "h_tree h (mp @ f)")
    case None
    then show ?thesis using a dfs_content_None [OF a(1,2)]
      by (auto simp: call_delete_def deleteFile_def stat_path_def WrapPath_def fun_upd_idem)
  next
    case (Some nd)
    have "h_removable h (mp @ f)" using a(1,2) by (simp add: dfs_inv_def)
    then show ?thesis using a Some dfs_content_None [OF a(1,2)]
      by (simp add: call_delete_def deleteFile_def stat_path_def WrapPath_def Let_def)
  qed
qed

end
