(* ===== verification/DfsProps.thy ===== *)
theory DfsProps
  imports DfsService
begin

section \<open>Properties of the distributed file system of part 1\<close>

text \<open>
  The laws of \<open>file_service\<close> for whole sessions of a client, what the conversions of the file size to \<open>int\<close>
  do to long files, and what interrupted and refused transfers leave behind.
\<close>

subsection \<open>Sessions\<close>

text \<open>A client with mount path \<open>cmp\<close> calls its methods one after the other; a session ends at a fault.\<close>

datatype dfs_cmd = DStore string | DFetch string | DDelete string

fun dfs_step :: "nat \<Rightarrow> string \<Rightarrow> string \<Rightarrow> dfs_cmd \<Rightarrow> host \<times> host \<Rightarrow> (rpc_code \<times> host \<times> host) res option" where
  "dfs_step dl cmp mp (DStore f) (h, s) =
    map_option (\<lambda>r. bindr r (\<lambda>(c, s'). Inr (c, h, s'))) (Store (dl + 2) (WrapPath cmp) (call_store dl mp) f h s)"
| "dfs_step dl cmp mp (DFetch f) (h, s) =
    (case Fetch (WrapPath cmp) (call_fetch dl mp) f h s of (c, h') \<Rightarrow> Some (Inr (c, h', s)))"
| "dfs_step dl cmp mp (DDelete f) (h, s) =
    (case Delete (call_delete dl mp) f s of (c, s') \<Rightarrow> Some (Inr (c, h, s')))"

fun dfs_run :: "nat \<Rightarrow> string \<Rightarrow> string \<Rightarrow> dfs_cmd list \<Rightarrow> host \<times> host \<Rightarrow> (rpc_code list \<times> host \<times> host) res option" where
  "dfs_run dl cmp mp [] st = Some (Inr ([], st))"
| "dfs_run dl cmp mp (c # cs) st =
    (case dfs_step dl cmp mp c st of
       None \<Rightarrow> None
     | Some (Inl e) \<Rightarrow> Some (Inl e)
     | Some (Inr (code, st')) \<Rightarrow> map_option (\<lambda>r. bindr r (\<lambda>(codes, st''). Inr (code # codes, st''))) (dfs_run dl cmp mp cs st'))"

text \<open>The specification: two maps from names to contents.  Fetching an empty file changes nothing.\<close>

type_synonym files2 = "(string \<rightharpoonup> char list) \<times> (string \<rightharpoonup> char list)"

fun spec_step :: "dfs_cmd \<Rightarrow> files2 \<Rightarrow> rpc_code \<times> files2" where
  "spec_step (DStore f) (l, r) = (case l f of None \<Rightarrow> (NOT_FOUND, l, r) | Some b \<Rightarrow> (OK, l, r(f \<mapsto> b)))"
| "spec_step (DFetch f) (l, r) =
    (case r f of None \<Rightarrow> (NOT_FOUND, l, r) | Some b \<Rightarrow> (OK, if b = [] then l else l(f \<mapsto> b), r))"
| "spec_step (DDelete f) (l, r) = (if r f = None then NOT_FOUND else OK, l, r(f := None))"

fun spec_run :: "dfs_cmd list \<Rightarrow> files2 \<Rightarrow> rpc_code list \<times> files2" where
  "spec_run [] st = ([], st)"
| "spec_run (c # cs) st =
    (case spec_step c st of (code, st') \<Rightarrow> case spec_run cs st' of (codes, st'') \<Rightarrow> (code # codes, st''))"

fun dfs_name :: "dfs_cmd \<Rightarrow> string" where
  "dfs_name (DStore f) = f" | "dfs_name (DFetch f) = f" | "dfs_name (DDelete f) = f"

definition dfs_abs :: "string \<Rightarrow> string \<Rightarrow> host \<times> host \<Rightarrow> files2" where
  "dfs_abs cmp mp st = (dfs_content cmp (fst st), dfs_content mp (snd st))"

text \<open>Files that are sent within the deadline of \<open>dl\<close> messages and whose size is an \<open>int\<close>.\<close>

definition small :: "nat \<Rightarrow> char list \<Rightarrow> bool" where
  "small dl b \<longleftrightarrow> int (length b) \<le> INT_MAX \<and> length b div 1024 < dl"

definition small_files :: "nat \<Rightarrow> string set \<Rightarrow> (string \<rightharpoonup> char list) \<Rightarrow> bool" where
  "small_files dl names m \<longleftrightarrow> (\<forall>f\<in>names. \<forall>b. m f = Some b \<longrightarrow> small dl b)"

definition dfs_ok :: "nat \<Rightarrow> string \<Rightarrow> string \<Rightarrow> string set \<Rightarrow> host \<times> host \<Rightarrow> bool" where
  "dfs_ok dl cmp mp names st \<longleftrightarrow> dfs_inv cmp names (fst st) \<and> dfs_inv mp names (snd st) \<and>
    small_files dl names (dfs_content cmp (fst st)) \<and> small_files dl names (dfs_content mp (snd st))"

lemma small_files_upd [simp]:
  "small_files dl names m \<Longrightarrow> small dl b \<Longrightarrow> small_files dl names (m(f \<mapsto> b))"
  "small_files dl names m \<Longrightarrow> small_files dl names (m(f := None))"
  by (simp_all add: small_files_def)

lemma small_filesD: "small_files dl names m \<Longrightarrow> f \<in> names \<Longrightarrow> m f = Some b \<Longrightarrow> small dl b"
  by (simp add: small_files_def)

lemma dfs_inv_file:
  assumes "dfs_inv mp names h" "f \<in> names"
  shows "h_readable h (WrapPath mp f)" "h_writable h (WrapPath mp f)" "\<not> is_dir h (WrapPath mp f)"
  using assms by (simp_all add: dfs_inv_def WrapPath_def)

lemma storable_content:
  assumes "dfs_inv cmp names h" "f \<in> names" "dfs_content cmp h f = Some b" "small dl b"
  shows "storable h (WrapPath cmp f) b"
  using assms dfs_inv_file(1) [OF assms(1,2)]
  by (auto simp: storable_def local_file_def small_def WrapPath_def dfs_content_def split: option.splits fnode.splits)

lemma dfs_Store:
  assumes "dfs_inv mp names s" "f \<in> names" "storable h (WrapPath cmp f) b" "length b div 1024 < dl"
  shows "\<exists>s'. Store (dl + 2) (WrapPath cmp) (call_store dl mp) f h s = Some (Inr (OK, s')) \<and>
    dfs_inv mp names s' \<and> dfs_content mp s' = (dfs_content mp s)(f \<mapsto> b)"
  by (rule dfs.Store_ok [where b = b]) (use assms in auto)

text \<open>One command.\<close>

lemma dfs_step_refines:
  assumes ok: "dfs_ok dl cmp mp names (h, s)" and f: "dfs_name c \<in> names" and dl: "0 < dl"
  shows "\<exists>st'. dfs_step dl cmp mp c (h, s) = Some (Inr (fst (spec_step c (dfs_abs cmp mp (h, s))), st')) \<and>
    dfs_abs cmp mp st' = snd (spec_step c (dfs_abs cmp mp (h, s))) \<and> dfs_ok dl cmp mp names st'"
proof -
  have inv: "dfs_inv cmp names h" "dfs_inv mp names s"
    "small_files dl names (dfs_content cmp h)" "small_files dl names (dfs_content mp s)"
    using ok by (simp_all add: dfs_ok_def)
  show ?thesis
  proof (cases c)
    case (DStore f)
    then have fn: "f \<in> names" using f by simp
    show ?thesis
    proof (cases "dfs_content cmp h f")
      case None
      then have "h_tree h (WrapPath cmp f) = None" using dfs_content_None [OF inv(1) fn] by (simp add: WrapPath_def)
      then show ?thesis using DStore None ok by (simp add: Store_def stat_path_def dfs_abs_def)
    next
      case (Some b)
      have sm: "small dl b" using small_filesD [OF inv(3) fn Some] .
      then obtain s' where s': "Store (dl + 2) (WrapPath cmp) (call_store dl mp) f h s = Some (Inr (OK, s'))"
        "dfs_inv mp names s'" "dfs_content mp s' = (dfs_content mp s)(f \<mapsto> b)"
        using dfs_Store [OF inv(2) fn storable_content [OF inv(1) fn Some sm]] sm unfolding small_def by blast
      then have "dfs_step dl cmp mp c (h, s) = Some (Inr (OK, h, s'))" unfolding DStore dfs_step.simps by simp
      then show ?thesis using DStore Some s' sm inv by (simp add: dfs_abs_def dfs_ok_def)
    qed
  next
    case (DFetch f)
    then have fn: "f \<in> names" using f by simp
    show ?thesis
    proof (cases "dfs_content mp s f")
      case None
      then show ?thesis using DFetch dfs.Fetch_missing [OF inv(2) fn None] ok by (simp add: dfs_abs_def)
    next
      case (Some b)
      have sm: "small dl b" using small_filesD [OF inv(4) fn Some] .
      show ?thesis
      proof (cases "b = []")
        case True
        then show ?thesis using DFetch Some dfs.Fetch_empty [OF inv(2) fn] dl ok by (simp add: dfs_abs_def)
      next
        case False
        have "Fetch (WrapPath cmp) (call_fetch dl mp) f h s = (OK, put_file (WrapPath cmp f) b h)"
          using dfs.Fetch_ok [OF inv(2) fn Some False] sm dfs_inv_file(2,3) [OF inv(1) fn] by (simp add: small_def)
        then show ?thesis using DFetch Some False sm inv by (simp add: dfs_abs_def dfs_ok_def WrapPath_def)
      qed
    qed
  next
    case (DDelete f)
    then have fn: "f \<in> names" using f by simp
    obtain s' where "call_delete dl mp f s = (if dfs_content mp s f = None then NOT_FOUND else OK, s')"
      "dfs_inv mp names s'" "dfs_content mp s' = (dfs_content mp s)(f := None)"
      using dfs.delete_ok [OF inv(2) fn dl] by blast
    then show ?thesis using DDelete inv by (simp add: Delete_def dfs_abs_def dfs_ok_def)
  qed
qed


text \<open>C16. Sessions.  If the names can be read, written and removed on both hosts and name no directories, the deadline allows a message, and the files of these names have at most
  \<open>INT_MAX\<close> bytes and are sent within the deadline, any sequence of Store, Fetch and Delete returns the codes and makes the
  contents of the specification: two maps from names to contents, and a transfer is an update (a Fetch of an empty file none).\<close>

theorem dfs_session_refines:
  assumes "dfs_ok dl cmp mp names st" "\<forall>c\<in>set cs. dfs_name c \<in> names" "0 < dl"
  shows "\<exists>codes st'. dfs_run dl cmp mp cs st = Some (Inr (codes, st')) \<and>
    spec_run cs (dfs_abs cmp mp st) = (codes, dfs_abs cmp mp st') \<and> dfs_ok dl cmp mp names st'"
  using assms(1,2)
proof (induction cs arbitrary: st)
  case (Cons c cs)
  obtain h s where st: "st = (h, s)" by (cases st)
  have "dfs_name c \<in> names" using Cons.prems(2) by simp
  then obtain st1 where st1: "dfs_step dl cmp mp c st = Some (Inr (fst (spec_step c (dfs_abs cmp mp st)), st1))"
    "dfs_abs cmp mp st1 = snd (spec_step c (dfs_abs cmp mp st))" "dfs_ok dl cmp mp names st1"
    using dfs_step_refines Cons.prems(1) assms(3) unfolding st by blast
  moreover obtain codes st' where "dfs_run dl cmp mp cs st1 = Some (Inr (codes, st'))"
    "spec_run cs (dfs_abs cmp mp st1) = (codes, dfs_abs cmp mp st')" "dfs_ok dl cmp mp names st'"
    using Cons.IH [OF st1(3)] Cons.prems(2) by auto
  ultimately show ?case by (cases "spec_step c (dfs_abs cmp mp st)") simp
qed simp

definition host1 :: "string \<Rightarrow> char list \<Rightarrow> host" where
  "host1 p b = \<lparr>h_tree = [p \<mapsto> Reg b 5 5], h_readable = \<lambda>_. True, h_writable = \<lambda>_. True, h_removable = \<lambda>_. True, h_now = 7\<rparr>"

lemma host1_simps [simp]:
  "h_tree (host1 p b) = [p \<mapsto> Reg b 5 5]" "h_readable (host1 p b) q" "h_writable (host1 p b) q" "h_removable (host1 p b) q"
  "\<not> is_dir (host1 p b) q" "h_now (host1 p b) = 7"
  by (simp_all add: host1_def is_dir_def)

lemma dfs_ok_host1: "dfs_ok 10000 ''c/'' ''s/'' UNIV (host1 ''c/a'' ''hello'', host1 ''s/b'' ''old'')"
  by (auto simp: dfs_ok_def dfs_inv_def small_files_def small_def dfs_content_def INT_MAX_def split: if_splits)

theorem dfs_session_refines_witness:
  "\<exists>codes st'. dfs_run 10000 ''c/'' ''s/'' [DStore ''a'', DFetch ''b'', DDelete ''b'', DFetch ''b'', DStore ''x''] (host1 ''c/a'' ''hello'', host1 ''s/b'' ''old'') =
      Some (Inr (codes, st')) \<and>
    codes = [OK, OK, OK, NOT_FOUND, NOT_FOUND] \<and> dfs_content ''s/'' (snd st') = [''a'' \<mapsto> ''hello''] \<and>
    dfs_content ''c/'' (fst st') ''b'' = Some ''old''"
proof -
  have c: "dfs_abs ''c/'' ''s/'' (host1 ''c/a'' ''hello'', host1 ''s/b'' ''old'') = ([''a'' \<mapsto> ''hello''], [''b'' \<mapsto> ''old''])"
    by (auto simp: dfs_abs_def dfs_content_def)
  let ?cs = "[DStore ''a'', DFetch ''b'', DDelete ''b'', DFetch ''b'', DStore ''x'']"
  obtain codes st' where r: "dfs_run 10000 ''c/'' ''s/'' ?cs (host1 ''c/a'' ''hello'', host1 ''s/b'' ''old'') = Some (Inr (codes, st'))"
    "spec_run ?cs (dfs_abs ''c/'' ''s/'' (host1 ''c/a'' ''hello'', host1 ''s/b'' ''old'')) = (codes, dfs_abs ''c/'' ''s/'' st')"
    using dfs_session_refines [OF dfs_ok_host1, of ?cs] by (auto simp del: dfs_run.simps spec_run.simps)
  from r(2) have "codes = [OK, OK, OK, NOT_FOUND, NOT_FOUND]"
    "dfs_abs ''c/'' ''s/'' st' = ([''a'' \<mapsto> ''hello'', ''b'' \<mapsto> ''old''], [''a'' \<mapsto> ''hello''])"
    by (simp_all add: c)
  then show ?thesis using r(1) by (auto simp: dfs_abs_def)
qed

subsection \<open>Store, then fetch\<close>

text \<open>C17. What one client stores, another one fetches: for a file that is not empty, has at most \<open>INT_MAX\<close> bytes, takes no longer than the
  deadline and can be read at the first client, written and read at the server and written at the second client, the bytes of the second
  client's file are the bytes of the first client's, and no other file of the server changes.\<close>

theorem dfs_store_fetch:
  assumes "dfs_inv mp names s" "f \<in> names" "storable hA (WrapPath cmpA f) b" "b \<noteq> []" "length b div 1024 < dl"
    and "h_writable hB (WrapPath cmpB f)" "\<not> is_dir hB (WrapPath cmpB f)"
  shows "\<exists>s'. Store (dl + 2) (WrapPath cmpA) (call_store dl mp) f hA s = Some (Inr (OK, s')) \<and>
    dfs_content mp s' = (dfs_content mp s)(f \<mapsto> b) \<and>
    Fetch (WrapPath cmpB) (call_fetch dl mp) f hB s' = (OK, put_file (WrapPath cmpB f) b hB)"
proof -
  obtain s' where s': "Store (dl + 2) (WrapPath cmpA) (call_store dl mp) f hA s = Some (Inr (OK, s'))"
    "dfs_inv mp names s'" "dfs_content mp s' = (dfs_content mp s)(f \<mapsto> b)"
    using dfs_Store [OF assms(1-3,5)] by blast
  moreover have "int (length b) \<le> INT_MAX" using assms(3) by (simp add: storable_def)
  ultimately show ?thesis using dfs.Fetch_ok [OF s'(2) assms(2) _ assms(4)] assms(5-7) by simp
qed

theorem dfs_store_fetch_witness:
  "\<exists>s'. Store 10002 (WrapPath ''c/'') (call_store 10000 ''s/'') ''a'' (host1 ''c/a'' ''hello'') (host1 ''s/a'' ''old'') = Some (Inr (OK, s')) \<and>
    Fetch (WrapPath ''d/'') (call_fetch 10000 ''s/'') ''a'' (host1 ''d/a'' ''mine'') s' = (OK, put_file ''d/a'' ''hello'' (host1 ''d/a'' ''mine''))"
proof -
  have "storable (host1 ''c/a'' ''hello'') (WrapPath ''c/'' ''a'') ''hello''"
    by (simp add: storable_def local_file_def WrapPath_def INT_MAX_def)
  then show ?thesis
    using dfs_store_fetch [of "''s/''" UNIV "host1 ''s/a'' ''old''" "''a''" "host1 ''c/a'' ''hello''" "''c/''" "''hello''" 10000 "host1 ''d/a'' ''mine''" "''d/''"]
    by (auto simp: dfs_inv_def WrapPath_def simp del: numeral_plus_numeral add_numeral_left)
qed


subsection \<open>Sizes beyond \<open>int\<close>, unreadable files\<close>

lemma off_to_int_large:
  assumes "2147483648 \<le> i" "i < 4294967296"
  shows "off_to_int i < 0"
proof -
  have m: "(i + 2147483648) mod 4294967296 = i - 2147483648"
    using assms by (intro int_mod_pos_eq [where q = 1]) auto
  have "signed_take_bit 31 i = take_bit (Suc 31) (i + 2 ^ 31) - 2 ^ 31" by (rule signed_take_bit_eq_take_bit_shift)
  also have "\<dots> = (i + 2147483648) mod 4294967296 - 2147483648" by (simp only: take_bit_eq_mod) simp
  finally have "signed_take_bit 31 i < 0" using m assms(2) by simp
  then show ?thesis by (simp add: off_to_int_def sint_sbintrunc')
qed

text \<open>C40. A file of 2 GiB up to 4 GiB bytes has a negative size in the methods.  The server answers a fetch of it with OK and no data, so the
  client keeps its old copy, and a client that stores it empties the file on the server; both calls report OK.\<close>

theorem dfs_large_files:
  assumes "2147483648 \<le> length b" "length b < 4294967296"
    and "local_file s (mp @ f) b" "local_file h (wrap g) b" "h_writable s (mp @ g)" "\<not> is_dir s (mp @ g)"
  shows "Fetch wrap (call_fetch dl mp) f h s = (OK, h) \<and>
    Store (Suc n) wrap (call_store dl mp) g h s = Some (Inr (OK, put_file (mp @ g) [] s))"
proof -
  have neg: "off_to_int (int (length b)) < 0" using assms(1,2) by (intro off_to_int_large) auto
  have "Fetch wrap (call_fetch dl mp) f h s = (OK, h)"
    using neg assms(3) by (auto simp: local_file_def Fetch_def call_fetch_def fetchFile_def stat_path_def WrapPath_def)
  moreover have "Store (Suc n) wrap (call_store dl mp) g h s = Some (Inr (OK, put_file (mp @ g) [] s))"
    using neg assms(4-6) by (auto simp: local_file_def Store_def call_store_def storeFile_def stat_path_def WrapPath_def open_out_def)
  ultimately show ?thesis ..
qed

theorem dfs_large_files_witness:
  "(\<lambda>b. Fetch (WrapPath ''c/'') (call_fetch 9 ''s/'') ''a'' (host1 ''c/b'' b) (host1 ''s/a'' b) = (OK, host1 ''c/b'' b) \<and>
      Store 1 (WrapPath ''c/'') (call_store 9 ''s/'') ''b'' (host1 ''c/b'' b) (host1 ''s/a'' b) =
        Some (Inr (OK, put_file ''s/b'' [] (host1 ''s/a'' b)))) (replicate 3000000000 CHR ''x'')"
proof -
  let ?b = "replicate 3000000000 CHR ''x''"
  have len: "2147483648 \<le> length ?b" "length ?b < 4294967296" by (simp_all only: length_replicate)
  have "Fetch (WrapPath ''c/'') (call_fetch 9 ''s/'') ''a'' (host1 ''c/b'' ?b) (host1 ''s/a'' ?b) = (OK, host1 ''c/b'' ?b) \<and>
      Store (Suc 0) (WrapPath ''c/'') (call_store 9 ''s/'') ''b'' (host1 ''c/b'' ?b) (host1 ''s/a'' ?b) =
        Some (Inr (OK, put_file (''s/'' @ ''b'') [] (host1 ''s/a'' ?b)))"
    by (rule dfs_large_files [OF len]) (simp_all add: local_file_def WrapPath_def)
  then show ?thesis by simp
qed

lemma fetch_loop_unreadable:
  "k < filesize \<Longrightarrow> k \<le> INT_MAX \<Longrightarrow> \<not> is_good st \<Longrightarrow>
   fetch_loop n (\<lambda>i. dl \<le> i) 0 filesize k st out = (if dl < n then Some (Inr (DEADLINE_EXCEEDED, out @ replicate dl [])) else None)"
  using fetch_loop_spins [of st k filesize n "\<lambda>i. dl \<le> i" 0 out] by (auto intro!: Least_equality)

text \<open>A file that the server can stat but not read: the loop makes no progress and never ends with OK; when the
  deadline comes it has sent only empty messages, and these have emptied the client's copy.\<close>

theorem dfs_fetch_unreadable:
  assumes "local_file s (mp @ f) b" "b \<noteq> []" "int (length b) \<le> INT_MAX" "\<not> h_readable s (mp @ f)"
    and "0 < dl" "h_writable h (wrap f)" "\<not> is_dir h (wrap f)"
  shows "fetchFile n mp (\<lambda>i. False) f s = None \<and>
    Fetch wrap (call_fetch dl mp) f h s = (DEADLINE_EXCEEDED, put_file (wrap f) [] h)"
proof -
  obtain m c where t: "h_tree s (mp @ f) = Some (Reg b m c)" using assms(1) by (auto simp: local_file_def)
  have o: "open_in s (mp @ f) = \<lparr>is_data = [], is_good = False\<rparr>" using t assms(4) by (simp add: open_in_def)
  have sz: "0 < off_to_int (int (length b))" using assms(2,3) by (simp add: off_to_int_small)
  have u: "fetchFile k mp canc f s = fetch_loop k canc 0 (off_to_int (int (length b))) 0 \<lparr>is_data = [], is_good = False\<rparr> []" for k canc
    using t o by (simp add: fetchFile_def stat_path_def WrapPath_def)
  have "fetchFile n mp (\<lambda>i. False) f s = None"
    unfolding u by (subst fetch_loop_spins) (use sz in \<open>auto simp: INT_MAX_def\<close>)
  moreover have "call_fetch dl mp f s = (replicate dl [], DEADLINE_EXCEEDED)"
    unfolding call_fetch_def u by (subst fetch_loop_unreadable) (use sz in \<open>auto simp: INT_MAX_def\<close>)
  moreover have "fetch_messages (wrap f) False (replicate dl []) h = put_file (wrap f) [] h"
    using fetch_messages_new [of "replicate dl []" h "wrap f"] assms(5-7) by (simp add: concat_replicate_trivial)
  ultimately show ?thesis by (simp add: Fetch_def)
qed

theorem dfs_fetch_unreadable_witness:
  "Fetch (WrapPath ''c/'') (call_fetch 5 ''s/'') ''a'' (host1 ''c/a'' ''mine'') ((host1 ''s/a'' ''hello'')\<lparr>h_readable := \<lambda>_. False\<rparr>) =
    (DEADLINE_EXCEEDED, put_file ''c/a'' [] (host1 ''c/a'' ''mine''))"
proof -
  have "local_file ((host1 ''s/a'' ''hello'')\<lparr>h_readable := \<lambda>_. False\<rparr>) (''s/'' @ ''a'') ''hello''"
    by (simp add: local_file_def host1_def)
  then show ?thesis
    using dfs_fetch_unreadable [of "(host1 ''s/a'' ''hello'')\<lparr>h_readable := \<lambda>_. False\<rparr>" "''s/''" "''a''" "''hello''" 5 "host1 ''c/a'' ''mine''" "WrapPath ''c/''" 0]
    by (simp add: WrapPath_def INT_MAX_def)
qed


subsection \<open>Interrupted and refused stores, listings\<close>

lemma store_loop_deadline:
  "store_loop (\<lambda>i. dl \<le> i) i p False ds h = (if length ds \<le> dl - i then OK else DEADLINE_EXCEEDED, h)"
  "h_tree h p = Some (Reg b (h_now h) (h_now h)) \<Longrightarrow> store_loop (\<lambda>i. dl \<le> i) i p True ds h =
    (if length ds \<le> dl - i then OK else DEADLINE_EXCEEDED, put_file p (b @ concat (take (dl - i) ds)) h)"
proof (induction ds arbitrary: i b h)
  case Nil
  { case 1 show ?case by simp }
  { case 2 then show ?case by (simp add: put_file_same) }
next
  case (Cons d ds)
  { case 1 show ?case
      by (cases "dl \<le> i") (auto simp: os_write_def Cons.IH(1)) }
  { case 2
    show ?case
    proof (cases "dl \<le> i")
      case True
      then show ?thesis using 2 by (simp add: put_file_same)
    next
      case False
      then have "dl - i = Suc (dl - Suc i)" by simp
      then show ?thesis using False 2 Cons.IH(2) [of "put_file p (b @ d) h" "b @ d" "Suc i"]
        by (simp add: os_write_reg)
    qed }
qed

text \<open>C30. A store whose deadline comes after \<open>dl\<close> messages: the server keeps what has arrived in the place of the old file, also when it
  reports the failure; and a path that cannot be written changes nothing but is reported as stored.\<close>

theorem dfs_store_interrupted:
  "storeFile mp (\<lambda>i. dl \<le> i) (Some f) ds s =
    (if length ds \<le> dl then OK else DEADLINE_EXCEEDED,
     if h_writable s (mp @ f) \<and> \<not> is_dir s (mp @ f) then put_file (mp @ f) (concat (take dl ds)) s else s)"
  by (cases "h_writable s (mp @ f) \<and> \<not> is_dir s (mp @ f)")
    (auto simp: storeFile_def WrapPath_def open_out_def store_loop_deadline Let_def)

definition call_list :: "nat \<Rightarrow> string \<Rightarrow> string list option \<Rightarrow> host list_call" where
  "call_list dl mp dirents h =
    (case listFiles mp (\<lambda>i. dl \<le> i) dirents h of Inl e \<Rightarrow> (Rpc_Other 0, []) | Inr r \<Rightarrow> r)"

lemma list_loop_items:
  "i + length ns \<le> dl \<Longrightarrow> list_loop mp (\<lambda>i. dl \<le> i) i h ns items =
    (OK, items @ concat (map (\<lambda>n. case stat_path h (WrapPath mp n) of None \<Rightarrow> []
       | Some fi \<Rightarrow> [\<lparr>it_filename = n, it_mtime = word_of_int (st_mtime fi)\<rparr>]) ns))"
  by (induction ns arbitrary: i items) (auto split: option.splits)

lemma list_insert_lookup:
  "\<exists>m'. list_insert (Some m) items = Inr (Some m') \<and>
    (\<forall>f. m' f = (case m f of Some t \<Rightarrow> Some t
      | None \<Rightarrow> map_option (\<lambda>it. time_to_int (it_mtime it)) (find (\<lambda>it. it_filename it = f) items)))"
proof (induction items arbitrary: m)
  case Nil
  then show ?case by (auto split: option.splits)
next
  case (Cons it items)
  obtain m' where m': "list_insert (Some (map_insert (it_filename it) (time_to_int (it_mtime it)) m)) items = Inr (Some m')"
    "\<forall>f. m' f = (case map_insert (it_filename it) (time_to_int (it_mtime it)) m f of Some t \<Rightarrow> Some t
      | None \<Rightarrow> map_option (\<lambda>it. time_to_int (it_mtime it)) (find (\<lambda>it. it_filename it = f) items))"
    using Cons.IH by blast
  then show ?case by (auto simp: map_insert_def split: option.splits)
qed

lemma find_items:
  "find (\<lambda>it. it_filename it = f) (concat (map (\<lambda>n. case g n of None \<Rightarrow> []
      | Some fi \<Rightarrow> [\<lparr>it_filename = n, it_mtime = w fi\<rparr>]) ns)) =
    (if f \<in> set ns then map_option (\<lambda>fi. \<lparr>it_filename = f, it_mtime = w fi\<rparr>) (g f) else None)"
  by (induction ns) (auto split: option.splits)

text \<open>A listing: the client's map gets every name of the server's directory (the directory itself and its parent
  too) that can be statted, with the modification time cut down to 32 bits; a name that
  was in the map keeps its old time.\<close>

theorem dfs_list_map:
  assumes "length ns \<le> dl"
  shows "ListFiles (call_list dl mp (Some ns)) (Some m) s =
    Inr (OK, Some (\<lambda>f. case m f of Some t \<Rightarrow> Some t
      | None \<Rightarrow> if f \<in> set ns then map_option (\<lambda>fi. off_to_int (st_mtime fi)) (stat_path s (mp @ f)) else None))"
proof -
  let ?items = "concat (map (\<lambda>n. case stat_path s (WrapPath mp n) of None \<Rightarrow> []
       | Some fi \<Rightarrow> [\<lparr>it_filename = n, it_mtime = word_of_int (st_mtime fi)\<rparr>]) ns)"
  have c: "call_list dl mp (Some ns) s = (OK, ?items)"
    using list_loop_items [of 0 ns dl mp s "[]"] assms by (simp add: call_list_def listFiles_def)
  obtain m' where m': "list_insert (Some m) ?items = Inr (Some m')"
    "\<forall>f. m' f = (case m f of Some t \<Rightarrow> Some t
      | None \<Rightarrow> map_option (\<lambda>it. time_to_int (it_mtime it)) (find (\<lambda>it. it_filename it = f) ?items))"
    using list_insert_lookup [of m ?items] by blast
  have t: "time_to_int (word_of_int k) = off_to_int k" for k
    unfolding time_to_int_def off_to_int_def by (intro arg_cong [where f = sint] bit_word_eqI) (auto simp: bit_simps)
  have "m' = (\<lambda>f. case m f of Some t \<Rightarrow> Some t
      | None \<Rightarrow> if f \<in> set ns then map_option (\<lambda>fi. off_to_int (st_mtime fi)) (stat_path s (mp @ f)) else None)"
  proof (rule ext)
    fix f
    show "m' f = (case m f of Some t \<Rightarrow> Some t
      | None \<Rightarrow> if f \<in> set ns then map_option (\<lambda>fi. off_to_int (st_mtime fi)) (stat_path s (mp @ f)) else None)"
      using m'(2) [rule_format, of f] by (cases "m f") (simp_all add: find_items t option.map_comp comp_def WrapPath_def)
  qed
  then show ?thesis using m'(1) by (simp add: ListFiles_def c)
qed


theorem dfs_list_map_witness:
  "ListFiles (call_list 9 ''s/'' (Some [''a'', ''b''])) (Some [''b'' \<mapsto> 1]) (host1 ''s/a'' ''hello'') =
    Inr (OK, Some [''b'' \<mapsto> 1, ''a'' \<mapsto> 5])"
proof -
  have "off_to_int 5 = 5" by (simp add: off_to_int_small INT_MAX_def)
  then show ?thesis
    using dfs_list_map [of "[''a'', ''b'']" 9 "''s/''" "[''b'' \<mapsto> 1]" "host1 ''s/a'' ''hello''"]
    by (auto simp: stat_path_def fun_eq_iff)
qed

end
