(* ===== verification/DfsConc.thy ===== *)
theory DfsConc
  imports DfsProps Files
begin

section \<open>Calls that run at the same time on the server (pr4/dfslib-servernode-p1.cpp)\<close>

text \<open>
  gRPC runs the methods of \<open>DFSServiceImpl\<close> on threads of its own, and no method takes a lock.  A step of a call is the code up to its next
  access to the file system.  An \<open>ofstream\<close> has its own offset in the file that it opened and gives what was written to it to the file in any
  pieces, at the latest when it is closed.  A turn of the loop of \<open>fetchFile\<close> is a step.  Different paths are different files.  An \<open>ifstream\<close> reads the file as it was when it was opened; what it would see of writes during
  the reading depends on its buffer and is not modelled.
\<close>

subsection \<open>Calls\<close>

datatype dcall = D_Store "string option" "char list list" | D_Fetch string | D_Delete string | D_Stat string

datatype dreply = R_Store rpc_code | R_Fetch "(rpc_code \<times> char list list) res option" | R_Delete rpc_code string
  | R_Stat rpc_code statResponse

text \<open>
  Where a call is: at its start; in the loop of \<open>storeFile\<close>, with the path, the file that is open, the offset, what the stream has not yet
  written, the turn and the messages to come; before the close with its status; in \<open>fetchFile\<close> after \<open>stat\<close>, and in
  its loop, with the turn, the size, the bytes read, the stream and the messages written; in \<open>deleteFile\<close> before \<open>remove\<close>; done.  The file that a path names changes when it is deleted: a file is known by its path and the number of
  deletions there.
\<close>

datatype dthread = T_Call dcall | T_Write string "nat option" nat "char list" nat "char list list"
  | T_Close rpc_code string "nat option" nat "char list" | T_Open string int | T_Read nat int int istream "char list list" | T_Remove string | T_Done dreply

type_synonym disk = "host \<times> (string \<Rightarrow> nat)"

text \<open>What a stream gives to its file; the file of a path that was deleted is not seen by anybody else.\<close>

definition flush_out :: "string \<Rightarrow> nat option \<Rightarrow> nat \<Rightarrow> char list \<Rightarrow> disk \<Rightarrow> disk" where
  "flush_out p g off d = (\<lambda>(h, gen).
    (case h_tree h p of Some (Reg bs m c) \<Rightarrow> if g = Some (gen p) then put_file p (overwrite off d bs) h else h | _ \<Rightarrow> h, gen))"

inductive call_step :: "string \<Rightarrow> (nat \<Rightarrow> bool) \<Rightarrow> dthread \<Rightarrow> disk \<Rightarrow> dthread \<Rightarrow> disk \<Rightarrow> bool" for mp canc where
  s_open: "p = WrapPath mp (case filename of None \<Rightarrow> [] | Some f \<Rightarrow> f) \<Longrightarrow> open_out p h = (opened, h') \<Longrightarrow>
    call_step mp canc (T_Call (D_Store filename msgs)) (h, gen)
      (T_Write p (if opened then Some (gen p) else None) 0 [] 0 msgs) (h', gen)"
| s_write: "\<not> canc k \<Longrightarrow>
    call_step mp canc (T_Write p g off buf k (d # ds)) s (T_Write p g off (buf @ d) (Suc k) ds) s"
| s_flush: "d \<noteq> [] \<Longrightarrow> call_step mp canc (T_Write p g off (d @ buf) k ds) s (T_Write p g (off + length d) buf k ds) (flush_out p g off d s)"
| s_cancel: "canc k \<Longrightarrow> call_step mp canc (T_Write p g off buf k (d # ds)) s (T_Close DEADLINE_EXCEEDED p g off buf) s"
| s_stored: "call_step mp canc (T_Write p g off buf k []) s (T_Close OK p g off buf) s"
| s_close: "call_step mp canc (T_Close r p g off buf) s (T_Done (R_Store r)) (flush_out p g off buf s)"
| s_missing: "stat_path h (WrapPath mp f) = None \<Longrightarrow>
    call_step mp canc (T_Call (D_Fetch f)) (h, gen) (T_Done (R_Fetch (Some (Inr (NOT_FOUND, []))))) (h, gen)"
| s_stat: "stat_path h (WrapPath mp f) = Some fi \<Longrightarrow>
    call_step mp canc (T_Call (D_Fetch f)) (h, gen) (T_Open f (off_to_int (st_size fi))) (h, gen)"
| s_open_in: "call_step mp canc (T_Open f n) (h, gen) (T_Read 0 n 0 (open_in h (WrapPath mp f)) []) (h, gen)"
| s_piece: "br < n \<Longrightarrow> \<not> canc k \<Longrightarrow> is_read 1024 st = (d, st') \<Longrightarrow> br + int (length d) \<le> INT_MAX \<Longrightarrow>
    call_step mp canc (T_Read k n br st out) s (T_Read (Suc k) n (br + int (length d)) st' (out @ [d])) s"
| s_overflow: "br < n \<Longrightarrow> \<not> canc k \<Longrightarrow> is_read 1024 st = (d, st') \<Longrightarrow> INT_MAX < br + int (length d) \<Longrightarrow>
    call_step mp canc (T_Read k n br st out) s (T_Done (R_Fetch (Some (Inl (Ub Signed_Overflow))))) s"
| s_expired: "br < n \<Longrightarrow> canc k \<Longrightarrow>
    call_step mp canc (T_Read k n br st out) s (T_Done (R_Fetch (Some (Inr (DEADLINE_EXCEEDED, out))))) s"
| s_fetched: "\<not> br < n \<Longrightarrow> call_step mp canc (T_Read k n br st out) s (T_Done (R_Fetch (Some (Inr (OK, out))))) s"
| s_attrs: "getFileAttrs mp canc f h = (r, a) \<Longrightarrow> call_step mp canc (T_Call (D_Stat f)) (h, gen) (T_Done (R_Stat r a)) (h, gen)"
| s_refuse: "canc 0 \<Longrightarrow> call_step mp canc (T_Call (D_Delete f)) s (T_Done (R_Delete DEADLINE_EXCEEDED [])) s"
| s_absent: "\<not> canc 0 \<Longrightarrow> stat_path h (WrapPath mp f) = None \<Longrightarrow>
    call_step mp canc (T_Call (D_Delete f)) (h, gen) (T_Done (R_Delete NOT_FOUND f)) (h, gen)"
| s_found: "\<not> canc 0 \<Longrightarrow> stat_path h (WrapPath mp f) = Some fi \<Longrightarrow>
    call_step mp canc (T_Call (D_Delete f)) (h, gen) (T_Remove f) (h, gen)"
| s_remove: "p = WrapPath mp f \<Longrightarrow> h_removable h p \<Longrightarrow> h_tree h p \<noteq> None \<Longrightarrow>
    call_step mp canc (T_Remove f) (h, gen) (T_Done (R_Delete OK f)) (drop_file p h, gen(p := Suc (gen p)))"
| s_remove_fails: "p = WrapPath mp f \<Longrightarrow> \<not> h_removable h p \<or> h_tree h p = None \<Longrightarrow>
    call_step mp canc (T_Remove f) (h, gen) (T_Done (R_Delete CANCELLED f)) (h, gen)"

subsection \<open>The server\<close>

text \<open>Each call has a thread; \<open>canc i\<close> are the answers of \<open>IsCancelled\<close> to the \<open>i\<close>th call.\<close>

record dserver =
  sv_disk :: disk
  sv_thr :: "nat \<Rightarrow> dthread"

inductive server_run :: "string \<Rightarrow> (nat \<Rightarrow> nat \<Rightarrow> bool) \<Rightarrow> dcall list \<Rightarrow> host \<Rightarrow> nat \<Rightarrow> dserver \<Rightarrow> bool" for mp canc calls hs where
  server_start: "server_run mp canc calls hs 0 \<lparr>sv_disk = (hs, \<lambda>_. 0), sv_thr = \<lambda>i. T_Call (calls ! i)\<rparr>"
| server_step: "server_run mp canc calls hs n v \<Longrightarrow> i < length calls \<Longrightarrow>
    call_step mp (canc i) (sv_thr v i) (sv_disk v) t' s' \<Longrightarrow>
    server_run mp canc calls hs (Suc n) \<lparr>sv_disk = s', sv_thr = (sv_thr v)(i := t')\<rparr>"

text \<open>A call that has the server for itself; a fetch with at most \<open>fuel\<close> turns of its loop.\<close>

fun alone :: "string \<Rightarrow> (nat \<Rightarrow> bool) \<Rightarrow> nat \<Rightarrow> dcall \<Rightarrow> host \<Rightarrow> dreply \<times> host" where
  "alone mp canc fuel (D_Store filename msgs) h = (case storeFile mp canc filename msgs h of (r, h') \<Rightarrow> (R_Store r, h'))"
| "alone mp canc fuel (D_Fetch f) h = (R_Fetch (fetchFile fuel mp canc f h), h)"
| "alone mp canc fuel (D_Delete f) h = (case deleteFile mp canc f h of (r, name, h') \<Rightarrow> (R_Delete r name, h'))"
| "alone mp canc fuel (D_Stat f) h = (case getFileAttrs mp canc f h of (r, a) \<Rightarrow> (R_Stat r a, h))"

fun call_path :: "string \<Rightarrow> dcall \<Rightarrow> string" where
  "call_path mp (D_Store filename msgs) = WrapPath mp (case filename of None \<Rightarrow> [] | Some f \<Rightarrow> f)"
| "call_path mp (D_Fetch f) = WrapPath mp f"
| "call_path mp (D_Delete f) = WrapPath mp f"
| "call_path mp (D_Stat f) = WrapPath mp f"

subsection \<open>What a call has done\<close>

text \<open>The status of the loop of \<open>storeFile\<close> and what it writes.\<close>

fun store_sent :: "(nat \<Rightarrow> bool) \<Rightarrow> nat \<Rightarrow> char list list \<Rightarrow> rpc_code \<times> char list" where
  "store_sent canc k [] = (OK, [])"
| "store_sent canc k (d # ds) = (if canc k then (DEADLINE_EXCEEDED, []) else (case store_sent canc (Suc k) ds of (r, b) \<Rightarrow> (r, d @ b)))"

lemma store_loop_sent:
  "store_loop canc k p False ds h = (fst (store_sent canc k ds), h)"
  "h_tree h p = Some (Reg b (h_now h) (h_now h)) \<Longrightarrow>
    store_loop canc k p True ds h = (fst (store_sent canc k ds), put_file p (b @ snd (store_sent canc k ds)) h)"
proof (induction ds arbitrary: k b h)
  case Nil
  { case 1 show ?case by simp }
  { case 2 then show ?case by (simp add: put_file_same) }
next
  case (Cons d ds)
  { case 1 show ?case by (auto simp: os_write_def Cons.IH(1) split: prod.splits) }
  { case 2 then show ?case
      using Cons.IH(2) [of "put_file p (b @ d) h" "b @ d" "Suc k"] by (auto simp: os_write_reg put_file_same split: prod.splits) }
qed

definition can_open :: "host \<Rightarrow> string \<Rightarrow> bool" where
  "can_open h p \<longleftrightarrow> h_writable h p \<and> \<not> is_dir h p"

lemma open_out_can: "open_out p h = (can_open h p, if can_open h p then put_file p [] h else h)"
  by (auto simp: open_out_def can_open_def)

lemma storeFile_sent:
  "storeFile mp canc fn ds h = (let p = WrapPath mp (case fn of None \<Rightarrow> [] | Some f \<Rightarrow> f) in
    (fst (store_sent canc 0 ds), if can_open h p then put_file p (snd (store_sent canc 0 ds)) h else h))"
  using store_loop_sent(2) [of "put_file p [] h" p "[]" for p] by (simp add: storeFile_def open_out_can Let_def store_loop_sent(1))

text \<open>
  What holds of a call while no other call uses its path \<open>p\<close>: the host \<open>h\<close> is as \<open>hs\<close> was, but for the path, and there it is what the call has
  made of it.
\<close>

definition host_like :: "host \<Rightarrow> host \<Rightarrow> bool" where
  "host_like hs h \<longleftrightarrow> h_readable h = h_readable hs \<and> h_writable h = h_writable hs \<and> h_removable h = h_removable hs \<and> h_now h = h_now hs"

definition stored :: "host \<Rightarrow> string \<Rightarrow> (string \<rightharpoonup> fnode) \<Rightarrow> nat \<Rightarrow> nat option \<Rightarrow> nat \<Rightarrow> char list \<Rightarrow> char list \<Rightarrow> bool" where
  "stored hs p tree n g off buf all \<longleftrightarrow>
    (if can_open hs p then g = Some n \<and> (\<exists>b. tree p = Some (Reg b (h_now hs) (h_now hs)) \<and> off = length b \<and> b @ buf = all)
     else g = None \<and> tree p = h_tree hs p)"

fun call_ok :: "string \<Rightarrow> (nat \<Rightarrow> bool) \<Rightarrow> nat \<Rightarrow> host \<Rightarrow> dcall \<Rightarrow> (string \<rightharpoonup> fnode) \<Rightarrow> nat \<Rightarrow> dthread \<Rightarrow> bool" where
  "call_ok mp canc m hs c tree n (T_Call c') = (c' = c \<and> tree (call_path mp c) = h_tree hs (call_path mp c))"
| "call_ok mp canc m hs c tree n (T_Write p g off buf k ds) =
    (\<exists>fn msgs. c = D_Store fn msgs \<and> p = call_path mp c \<and> fst (store_sent canc k ds) = fst (store_sent canc 0 msgs) \<and>
      stored hs p tree n g off (buf @ snd (store_sent canc k ds)) (snd (store_sent canc 0 msgs)))"
| "call_ok mp canc m hs c tree n (T_Close r p g off buf) =
    (\<exists>fn msgs. c = D_Store fn msgs \<and> p = call_path mp c \<and> r = fst (store_sent canc 0 msgs) \<and>
      stored hs p tree n g off buf (snd (store_sent canc 0 msgs)))"
| "call_ok mp canc m hs c tree n (T_Open f z) = (c = D_Fetch f \<and> tree (call_path mp c) = h_tree hs (call_path mp c) \<and>
    (\<exists>fi. stat_path hs (call_path mp c) = Some fi \<and> z = off_to_int (st_size fi)))"
| "call_ok mp canc m hs c tree n (T_Read k z br st out) = (\<exists>f. c = D_Fetch f \<and> tree (call_path mp c) = h_tree hs (call_path mp c) \<and> k \<le> m \<and>
    (\<forall>j. fetchFile (k + j) mp canc f hs = fetch_loop j canc k z br st out))"
| "call_ok mp canc m hs c tree n (T_Remove f) = (c = D_Delete f \<and> tree (call_path mp c) = h_tree hs (call_path mp c) \<and> \<not> canc 0 \<and>
    stat_path hs (call_path mp c) \<noteq> None)"
| "call_ok mp canc m hs c tree n (T_Done r) =
    (\<forall>j\<ge>m. fst (alone mp canc j c hs) = r \<and> tree (call_path mp c) = h_tree (snd (alone mp canc j c hs)) (call_path mp c))"

lemma call_ok_frame:
  "tree' (call_path mp c) = tree (call_path mp c) \<Longrightarrow> call_ok mp canc m hs c tree' n t = call_ok mp canc m hs c tree n t"
  by (cases t) (auto simp: stored_def)

subsection \<open>Steps\<close>

lemma overwrite_end: "overwrite (length b) d b = b @ d"
  using overwrite_prefix [of b d "[]"] by simp

lemma flush_stored:
  assumes "stored hs p (h_tree h) (gen p) g off (d @ buf) all" "host_like hs h"
  shows "stored hs p (h_tree (fst (flush_out p g off d (h, gen)))) (gen p) g (off + length d) buf all"
    and "host_like hs (fst (flush_out p g off d (h, gen)))" "snd (flush_out p g off d (h, gen)) = gen"
    and "q \<noteq> p \<Longrightarrow> h_tree (fst (flush_out p g off d (h, gen))) q = h_tree h q"
  using assms by (auto simp: flush_out_def stored_def host_like_def overwrite_end split: option.splits fnode.splits if_splits)

lemma same_path:
  assumes "h_tree h p = h_tree hs p" "host_like hs h"
  shows "stat_path h p = stat_path hs p" "open_in h p = open_in hs p" "can_open h p = can_open hs p"
    "is_dir h p = is_dir hs p" "h_removable h p = h_removable hs p"
  using assms by (auto simp: stat_path_def open_in_def can_open_def is_dir_def host_like_def split: option.splits fnode.splits)

lemma stored_start:
  assumes "h_tree h p = h_tree hs p" "host_like hs h"
  shows "stored hs p (h_tree (snd (open_out p h))) n (if fst (open_out p h) then Some n else None) 0 all all"
  using assms same_path(3) [OF assms] by (auto simp: open_out_can stored_def host_like_def)

lemma alone_store:
  assumes "stored hs p tree n g off [] (snd (store_sent canc 0 msgs))" "p = call_path mp (D_Store fn msgs)"
  shows "fst (alone mp canc fuel (D_Store fn msgs) hs) = R_Store (fst (store_sent canc 0 msgs))"
    "tree p = h_tree (snd (alone mp canc fuel (D_Store fn msgs) hs)) p"
  using assms by (auto simp: storeFile_sent Let_def stored_def split: if_splits)

lemma call_ok_later: "call_ok mp canc m hs c tree n t \<Longrightarrow> call_ok mp canc (Suc m) hs c tree n t"
  by (cases t) fastforce+

lemma fetch_done:
  assumes "\<forall>j. fetchFile (k + j) mp canc f hs = fetch_loop j canc k z br st out" "k \<le> m" "fetch_loop 1 canc k z br st out = Some x" "Suc m \<le> j"
  shows "fetchFile j mp canc f hs = Some x"
proof -
  obtain i where "j = k + Suc i" using assms(2,4) by (metis add_Suc_right le_Suc_ex le_trans Suc_le_mono add_Suc)
  then have "fetchFile j mp canc f hs = fetch_loop (Suc i) canc k z br st out" using assms(1) by blast
  also have "\<dots> = Some x" using assms(3) by (auto split: if_splits prod.splits)
  finally show ?thesis .
qed

text \<open>A step of a call changes its own path only, and keeps \<open>call_ok\<close>.\<close>

definition only_path :: "string \<Rightarrow> disk \<Rightarrow> disk \<Rightarrow> bool" where
  "only_path p s s' \<longleftrightarrow> (\<forall>q. q \<noteq> p \<longrightarrow> h_tree (fst s') q = h_tree (fst s) q \<and> snd s' q = snd s q)"

lemma call_step_ok:
  assumes "call_step mp canc t s t' s'" "call_ok mp canc m hs c (h_tree (fst s)) (snd s (call_path mp c)) t" "host_like hs (fst s)"
  shows "call_ok mp canc (Suc m) hs c (h_tree (fst s')) (snd s' (call_path mp c)) t' \<and> host_like hs (fst s') \<and> only_path (call_path mp c) s s'"
  using assms(1)
proof (cases rule: call_step.cases)
  case (s_open p filename h opened h' msgs gen)
  have c: "c = D_Store filename msgs" "p = call_path mp c" "h_tree h p = h_tree hs p" using assms(2) s_open by auto
  have o: "opened = fst (open_out p h)" "h' = snd (open_out p h)" using s_open(6) by simp_all
  have "stored hs p (h_tree h') (gen p) (if opened then Some (gen p) else None) 0 (snd (store_sent canc 0 msgs)) (snd (store_sent canc 0 msgs))"
    unfolding o by (rule stored_start [OF c(3)]) (use assms(3) s_open(2) in simp)
  moreover have "host_like hs h'" "\<And>q. q \<noteq> p \<Longrightarrow> h_tree h' q = h_tree h q"
    using assms(3) s_open(2) unfolding o by (auto simp: open_out_can host_like_def)
  ultimately show ?thesis using c s_open by (simp add: only_path_def)
next
  case (s_write k p g off buf d ds)
  then show ?thesis using assms(2,3) by (auto simp: only_path_def split: prod.splits)
next
  case (s_flush d p g off buf k ds)
  obtain h gen where s: "s = (h, gen)" by fastforce
  obtain fn msgs where c: "c = D_Store fn msgs" "p = call_path mp c" "fst (store_sent canc k ds) = fst (store_sent canc 0 msgs)"
      "stored hs p (h_tree h) (gen p) g off (d @ (buf @ snd (store_sent canc k ds))) (snd (store_sent canc 0 msgs))"
    using assms(2) s_flush(1) s by auto
  have "host_like hs h" using assms(3) s by simp
  note fl = flush_stored [where gen = gen and h = h, OF c(4) this]
  show ?thesis using c(1,2,3) fl s s_flush by (auto simp: only_path_def)
next
  case (s_cancel k p g off buf d ds)
  then show ?thesis using assms(2,3) by (auto simp: only_path_def)
next
  case (s_stored p g off buf k)
  then show ?thesis using assms(2,3) by (auto simp: only_path_def)
next
  case (s_close r p g off buf)
  obtain h gen where s: "s = (h, gen)" by fastforce
  obtain fn msgs where c: "c = D_Store fn msgs" "p = call_path mp c" "r = fst (store_sent canc 0 msgs)"
      "stored hs p (h_tree h) (gen p) g off (buf @ []) (snd (store_sent canc 0 msgs))"
    using assms(2) s_close(1) s by auto
  have "host_like hs h" using assms(3) s by simp
  note fl = flush_stored [where gen = gen and h = h, OF c(4) this]
  show ?thesis using c(1,2,3) fl s s_close alone_store [OF fl(1), of mp fn] by (auto simp: only_path_def simp del: alone.simps)
next
  case (s_missing h f gen)
  then show ?thesis using assms(2,3) same_path(1) [of h "WrapPath mp f" hs] by (auto simp: only_path_def fetchFile_def)
next
  case (s_stat h f fi gen)
  then show ?thesis using assms(2,3) same_path(1) [of h "WrapPath mp f" hs] by (auto simp: only_path_def intro!: exI [of _ fi])
next
  case (s_open_in f n h gen)
  then show ?thesis using assms(2,3) same_path(2) [of h "WrapPath mp f" hs] by (auto simp: only_path_def fetchFile_def)
next
  case (s_piece br n k st d st' out)
  then obtain f where f: "c = D_Fetch f" "h_tree (fst s) (call_path mp c) = h_tree hs (call_path mp c)" "k \<le> m"
      "\<forall>j. fetchFile (k + j) mp canc f hs = fetch_loop j canc k n br st out"
    using assms(2) by auto
  have "fetchFile (Suc k + j) mp canc f hs = fetch_loop j canc (Suc k) n (br + int (length d)) st' (out @ [d])" for j
    using f(4) [rule_format, of "Suc j"] s_piece(4-7) by simp
  then show ?thesis using f(1-3) assms(3) s_piece(1-3) by (simp add: only_path_def)
next
  case (s_overflow br n k st d st' out)
  then show ?thesis using assms(2,3) by (auto simp: only_path_def intro!: fetch_done)
next
  case (s_expired br n k st out)
  then show ?thesis using assms(2,3) by (auto simp: only_path_def intro!: fetch_done)
next
  case (s_fetched br n k st out)
  then show ?thesis using assms(2,3) by (auto simp: only_path_def intro!: fetch_done)
next
  case (s_attrs f h r a gen)
  then have "stat_path h (WrapPath mp f) = stat_path hs (WrapPath mp f)" using assms(2,3) by (intro same_path(1)) auto
  then have "getFileAttrs mp canc f hs = (r, a)" using s_attrs(5) by (cases "canc 0") (simp_all add: getFileAttrs_def)
  then show ?thesis using assms(2,3) s_attrs by (auto simp: only_path_def)
next
  case (s_refuse f)
  then show ?thesis using assms(2,3) by (auto simp: only_path_def deleteFile_def)
next
  case (s_absent h f gen)
  then show ?thesis using assms(2,3) same_path(1) [of h "WrapPath mp f" hs] by (auto simp: only_path_def deleteFile_def)
next
  case (s_found h f fi gen)
  then show ?thesis using assms(2,3) same_path(1) [of h "WrapPath mp f" hs] by (auto simp: only_path_def intro!: exI [of _ fi])
next
  case (s_remove p f h gen)
  then show ?thesis using assms(2,3) same_path(5) [of h p hs] by (auto simp: only_path_def deleteFile_def host_like_def)
next
  case (s_remove_fails p f h gen)
  then have "h_tree h p = h_tree hs p" "stat_path hs p \<noteq> None" using assms(2) by auto
  then have "\<not> h_removable hs p" using s_remove_fails assms(3) by (auto simp: host_like_def stat_path_def)
  then show ?thesis using assms(2,3) s_remove_fails by (auto simp: only_path_def deleteFile_def)
qed

subsection \<open>Properties\<close>

lemma server_run_ok:
  assumes "server_run mp canc calls hs n v" "distinct (map (call_path mp) calls)"
  shows "(\<forall>i<length calls. call_ok mp (canc i) n hs (calls ! i) (h_tree (fst (sv_disk v))) (snd (sv_disk v) (call_path mp (calls ! i))) (sv_thr v i)) \<and>
    host_like hs (fst (sv_disk v)) \<and> (\<forall>q. q \<notin> call_path mp ` set calls \<longrightarrow> h_tree (fst (sv_disk v)) q = h_tree hs q)"
  using assms(1)
proof (induction rule: server_run.induct)
  case server_start
  then show ?case by (simp add: host_like_def)
next
  case (server_step n v i t' s')
  let ?p = "call_path mp (calls ! i)"
  have st: "call_ok mp (canc i) (Suc n) hs (calls ! i) (h_tree (fst s')) (snd s' ?p) t'" "host_like hs (fst s')" "only_path ?p (sv_disk v) s'"
    using call_step_ok [OF server_step.hyps(3), of n hs "calls ! i"] server_step.IH server_step.hyps(2) by blast+
  have oth: "call_path mp (calls ! j) \<noteq> ?p" if "j < length calls" "j \<noteq> i" for j
    using assms(2) server_step.hyps(2) that by (metis length_map nth_eq_iff_index_eq nth_map)
  have "call_ok mp (canc j) (Suc n) hs (calls ! j) (h_tree (fst s')) (snd s' (call_path mp (calls ! j))) (((sv_thr v)(i := t')) j)"
    if "j < length calls" for j
  proof (cases "j = i")
    case False
    then have "h_tree (fst s') (call_path mp (calls ! j)) = h_tree (fst (sv_disk v)) (call_path mp (calls ! j))"
        "snd s' (call_path mp (calls ! j)) = snd (sv_disk v) (call_path mp (calls ! j))"
      using st(3) oth [OF that] by (auto simp: only_path_def)
    then show ?thesis using server_step.IH that False call_ok_frame call_ok_later by (metis fun_upd_other)
  qed (use st(1) in simp)
  moreover have "h_tree (fst s') q = h_tree hs q" if "q \<notin> call_path mp ` set calls" for q
  proof -
    have "q \<noteq> ?p" using that server_step.hyps(2) by auto
    then show ?thesis using st(3) server_step.IH that by (simp add: only_path_def)
  qed
  ultimately show ?case using st(2) by simp
qed

text \<open>C19. Calls on different files do not disturb each other, though the methods take no lock: in every interleaving of any stores, fetches, deletions
  and queries of attributes, a call that has ended has the same answer, and has left the same file, as if it had run alone on the
  server's files (a fetch with as many turns of its loop as the run has had steps, or any more); a file that no call names is
  unchanged.\<close>

theorem server_calls_independent:
  assumes "server_run mp canc calls hs n v" "distinct (map (call_path mp) calls)" "i < length calls" "sv_thr v i = T_Done r" "n \<le> fuel"
  shows "r = fst (alone mp (canc i) fuel (calls ! i) hs) \<and>
    h_tree (fst (sv_disk v)) (call_path mp (calls ! i)) = h_tree (snd (alone mp (canc i) fuel (calls ! i) hs)) (call_path mp (calls ! i)) \<and>
    (q \<notin> call_path mp ` set calls \<longrightarrow> h_tree (fst (sv_disk v)) q = h_tree hs q)"
proof -
  note i = server_run_ok [OF assms(1,2)]
  then have "call_ok mp (canc i) n hs (calls ! i) (h_tree (fst (sv_disk v))) (snd (sv_disk v) (call_path mp (calls ! i))) (T_Done r)"
    using assms(3,4) by metis
  then show ?thesis using i assms(5) by simp
qed

lemma store_opens:
  "can_open h (WrapPath mp f) \<Longrightarrow> call_step mp canc (T_Call (D_Store (Some f) msgs)) (h, gen)
    (T_Write (WrapPath mp f) (Some (gen (WrapPath mp f))) 0 [] 0 msgs) (put_file (WrapPath mp f) [] h, gen)"
  using s_open [where mp = mp and p = "WrapPath mp f" and filename = "Some f" and opened = True] by (simp add: open_out_can)

theorem server_calls_independent_witness:
  "\<exists>n v r. server_run ''s/'' (\<lambda>i k. False) [D_Store (Some ''a'') [''new''], D_Stat ''b''] (host1 ''s/b'' ''old'') n v \<and> sv_thr v 1 = T_Done r \<and>
    r = fst (alone ''s/'' (\<lambda>k. False) 5 (D_Stat ''b'') (host1 ''s/b'' ''old'')) \<and> h_tree (fst (sv_disk v)) ''s/b'' = Some (Reg ''old'' 5 5)"
proof -
  let ?calls = "[D_Store (Some ''a'') [''new''], D_Stat ''b'']" and ?hs = "host1 ''s/b'' ''old''" and ?z = "\<lambda>_. 0 :: nat"
  obtain r a where g: "getFileAttrs ''s/'' (\<lambda>k. False) ''b'' ?hs = (r, a)" by fastforce
  have "call_step ''s/'' (\<lambda>k. False) (T_Call (D_Stat ''b'')) (?hs, ?z) (T_Done (R_Stat r a)) (?hs, ?z)" by (rule s_attrs [OF g])
  then have run: "server_run ''s/'' (\<lambda>i k. False) ?calls ?hs (Suc 0) \<lparr>sv_disk = (?hs, ?z), sv_thr = (\<lambda>i. T_Call (?calls ! i))(1 := T_Done (R_Stat r a))\<rparr>"
    using server_run.server_step [OF server_run.server_start, of 1 ?calls "''s/''" "\<lambda>i k. False" ?hs] by simp
  have d: "distinct (map (call_path ''s/'') ?calls)" by (simp add: WrapPath_def)
  have "R_Stat r a = fst (alone ''s/'' (\<lambda>k. False) 5 (?calls ! 1) ?hs)"
    using server_calls_independent [OF run d, of 1 "R_Stat r a" 5] by simp
  then show ?thesis using run by (intro exI conjI) (assumption | simp)+
qed

lemma stores_mix:
  assumes "can_open hs (WrapPath mp f)" "length e < length d" "take (length e) d \<noteq> e"
  shows "\<exists>n v m c. server_run mp (\<lambda>i k. False) [D_Store (Some f) [d], D_Store (Some f) [e]] hs n v \<and>
    sv_thr v 0 = T_Done (R_Store OK) \<and> sv_thr v 1 = T_Done (R_Store OK) \<and>
    h_tree (fst (sv_disk v)) (WrapPath mp f) = Some (Reg (e @ drop (length e) d) m c) \<and>
    e @ drop (length e) d \<noteq> d \<and> e @ drop (length e) d \<noteq> e"
proof -
  let ?calls = "[D_Store (Some f) [d], D_Store (Some f) [e]]" and ?p = "WrapPath mp f"
  let ?run = "\<lambda>v. \<exists>n. server_run mp (\<lambda>i k. False) ?calls hs n v"
  let ?h = "put_file ?p [] hs" and ?z = "\<lambda>_. 0 :: nat"
  have st: "?run \<lparr>sv_disk = s', sv_thr = thr(i := t')\<rparr>"
    if "?run \<lparr>sv_disk = s, sv_thr = thr\<rparr>" "i < 2" "thr i = t" "call_step mp (\<lambda>k. False) t s t' s'" for s thr i t s' t'
    using server_run.server_step [of mp "\<lambda>i k. False" ?calls hs _ "\<lparr>sv_disk = s, sv_thr = thr\<rparr>" i t' s'] that by auto
  define th where "th = (\<lambda>i. T_Call (?calls ! i))"
  have r0: "?run \<lparr>sv_disk = (hs, ?z), sv_thr = th\<rparr>" unfolding th_def using server_run.server_start by blast
  have o1: "call_step mp (\<lambda>k. False) (T_Call (D_Store (Some f) [d])) (hs, ?z) (T_Write ?p (Some 0) 0 [] 0 [d]) (?h, ?z)"
    using store_opens [OF assms(1), of "\<lambda>k. False" "[d]" ?z] .
  have o2: "call_step mp (\<lambda>k. False) (T_Call (D_Store (Some f) [e])) (?h, ?z) (T_Write ?p (Some 0) 0 [] 0 [e]) (?h, ?z)"
    using store_opens [of ?h mp f "\<lambda>k. False" "[e]" ?z] assms(1) by (simp add: can_open_def)
  have r1: "?run \<lparr>sv_disk = (?h, ?z), sv_thr = th(0 := T_Write ?p (Some 0) 0 [] 0 [d])\<rparr>"
    by (rule st [OF r0 _ _ o1]) (simp_all add: th_def)
  have r2: "?run \<lparr>sv_disk = (?h, ?z), sv_thr = th(0 := T_Write ?p (Some 0) 0 [] 0 [d], 1 := T_Write ?p (Some 0) 0 [] 0 [e])\<rparr>"
    by (rule st [OF r1 _ _ o2]) (simp_all add: th_def)
  have store: "?run \<lparr>sv_disk = flush_out ?p (Some 0) 0 b s, sv_thr = thr(i := T_Done (R_Store OK))\<rparr>"
    if r: "?run \<lparr>sv_disk = s, sv_thr = thr\<rparr>" "i < 2" "thr i = T_Write ?p (Some 0) 0 [] 0 [b]" for s thr i b
  proof -
    have "?run \<lparr>sv_disk = s, sv_thr = thr(i := T_Write ?p (Some 0) 0 ([] @ b) (Suc 0) [])\<rparr>"
      by (rule st [OF r s_write]) simp
    from st [OF this r(2) _ s_stored] have "?run \<lparr>sv_disk = s, sv_thr = thr(i := T_Close OK ?p (Some 0) 0 b)\<rparr>" by simp
    from st [OF this r(2) _ s_close] show ?thesis by simp
  qed
  let ?t2 = "th(0 := T_Write ?p (Some 0) 0 [] 0 [d], 1 := T_Write ?p (Some 0) 0 [] 0 [e])"
  have f1: "flush_out ?p (Some 0) 0 d (?h, ?z) = (put_file ?p d hs, ?z)" by (simp add: flush_out_def overwrite_def)
  have f2: "flush_out ?p (Some 0) 0 e (put_file ?p d hs, ?z) = (put_file ?p (e @ drop (length e) d) hs, ?z)"
    by (simp add: flush_out_def overwrite_def)
  have r3: "?run \<lparr>sv_disk = (put_file ?p d hs, ?z), sv_thr = ?t2(0 := T_Done (R_Store OK))\<rparr>"
    using store [OF r2, of 0 d] unfolding f1 by simp
  have "?run \<lparr>sv_disk = (put_file ?p (e @ drop (length e) d) hs, ?z), sv_thr = ?t2(0 := T_Done (R_Store OK), 1 := T_Done (R_Store OK))\<rparr>"
    using store [OF r3, of 1 e] unfolding f2 by simp
  moreover have "e @ drop (length e) d \<noteq> d" using assms(3) by (metis append_eq_conv_conj)
  moreover have "e @ drop (length e) d \<noteq> e" using assms(2) by simp
  ultimately show ?thesis by fastforce
qed

text \<open>C39. Two stores of the same file, which can be opened, at the same time, each with its content in one message and with no deadline that passes, where the second content is shorter than the
  first and not its beginning: there is an interleaving after which both have been reported as stored, and the file is a mixture of the two that neither
  client has sent, the second content followed by the rest of the first.\<close>

theorem server_stores_mix:
  assumes "can_open hs (WrapPath mp f)" "length e < length d" "take (length e) d \<noteq> e"
  shows "\<exists>n v m c. server_run mp (\<lambda>i k. False) [D_Store (Some f) [d], D_Store (Some f) [e]] hs n v \<and>
    sv_thr v 0 = T_Done (R_Store OK) \<and> sv_thr v 1 = T_Done (R_Store OK) \<and>
    h_tree (fst (sv_disk v)) (WrapPath mp f) = Some (Reg (e @ drop (length e) d) m c) \<and>
    e @ drop (length e) d \<noteq> d \<and> e @ drop (length e) d \<noteq> e"
  using stores_mix [OF assms] .

theorem server_stores_mix_witness:
  "\<exists>n v m c. server_run ''s/'' (\<lambda>i k. False) [D_Store (Some ''b'') [''long''], D_Store (Some ''b'') [''so'']] (host1 ''s/b'' ''old'') n v \<and>
    h_tree (fst (sv_disk v)) ''s/b'' = Some (Reg ''song'' m c)"
proof -
  have o: "can_open (host1 ''s/b'' ''old'') (WrapPath ''s/'' ''b'')" by (simp add: can_open_def)
  show ?thesis using server_stores_mix [OF o, of "''so''" "''long''"] by (fastforce simp: WrapPath_def)
qed


subsection \<open>Every call with a deadline ends\<close>

text \<open>The steps a call needs at most, a fetch with the deadline past when its loop asks for the \<open>K\<close>th time.\<close>

fun call_weight :: "nat \<Rightarrow> dcall \<Rightarrow> nat" where
  "call_weight K (D_Store fn msgs) = 3 + (\<Sum>d\<leftarrow>msgs. 1 + length d)"
| "call_weight K (D_Fetch f) = 3 + K" | "call_weight K (D_Delete f) = 2" | "call_weight K (D_Stat f) = 1"

fun thr_weight :: "nat \<Rightarrow> dthread \<Rightarrow> nat" where
  "thr_weight K (T_Call c) = call_weight K c"
| "thr_weight K (T_Write p g off buf k ds) = 2 + length buf + (\<Sum>d\<leftarrow>ds. 1 + length d)"
| "thr_weight K (T_Close r p g off buf) = 1" | "thr_weight K (T_Open f n) = 2 + K" | "thr_weight K (T_Read k n br st out) = 1 + (K - k)"
| "thr_weight K (T_Remove f) = 1" | "thr_weight K (T_Done r) = 0"

fun expires :: "(nat \<Rightarrow> bool) \<Rightarrow> nat \<Rightarrow> dthread \<Rightarrow> bool" where
  "expires canc K (T_Call (D_Fetch f)) = canc K" | "expires canc K (T_Open f n) = canc K"
| "expires canc K (T_Read k n br st out) = (canc K \<and> k \<le> K)" | "expires canc K t = True"

lemma call_step_weight:
  "call_step mp canc t s t' s' \<Longrightarrow> expires canc K t \<Longrightarrow> thr_weight K t' < thr_weight K t \<and> expires canc K t'"
proof (induction rule: call_step.induct)
  case (s_piece br n k st d st' out s)
  then have "k \<noteq> K" by auto
  then show ?case using s_piece.prems by auto
qed auto

lemma call_goes_on: "(\<forall>r. t \<noteq> T_Done r) \<Longrightarrow> \<exists>t' s'. call_step mp canc t s t' s'"
proof (cases t)
  case (T_Call c)
  obtain h gen where s: "s = (h, gen)" by fastforce
  show ?thesis
  proof (cases c)
    case (D_Store fn msgs)
    obtain op h' where "open_out (WrapPath mp (case fn of None \<Rightarrow> [] | Some f \<Rightarrow> f)) h = (op, h')" by fastforce
    from s_open [OF refl this] show ?thesis using T_Call D_Store s by blast
  next
    case (D_Fetch f)
    then show ?thesis using T_Call s s_missing [of h mp f] s_stat [of h mp f] by (cases "stat_path h (WrapPath mp f)") blast+
  next
    case (D_Delete f)
    then show ?thesis
      using T_Call s s_refuse [of canc mp f] s_absent [of canc h mp f] s_found [of canc h mp f]
      by (cases "canc 0"; cases "stat_path h (WrapPath mp f)") blast+
  next
    case (D_Stat f)
    obtain r a where "getFileAttrs mp canc f h = (r, a)" by fastforce
    then show ?thesis using T_Call D_Stat s s_attrs by blast
  qed
next
  case (T_Write p g off buf k ds)
  show ?thesis
  proof (cases ds)
    case Nil
    then show ?thesis using T_Write s_stored [of mp canc p g off buf k s] by blast
  next
    case (Cons d ds')
    then show ?thesis
      using T_Write s_write [of canc k mp p g off buf d ds' s] s_cancel [of canc k mp p g off buf d ds' s] by (cases "canc k") blast+
  qed
next
  case (T_Close r p g off buf)
  then show ?thesis using s_close [of mp canc r p g off buf s] by blast
next
  case (T_Open f n)
  then show ?thesis using s_open_in [of mp canc f n "fst s" "snd s"] unfolding prod.collapse by blast
next
  case (T_Read k n br st out)
  obtain d st' where d: "is_read 1024 st = (d, st')" by fastforce
  consider "\<not> br < n" | "br < n" "canc k" | "br < n" "\<not> canc k" "br + int (length d) \<le> INT_MAX"
    | "br < n" "\<not> canc k" "INT_MAX < br + int (length d)" by linarith
  then show ?thesis unfolding T_Read by cases (blast intro: s_fetched s_expired s_piece [OF _ _ d] s_overflow [OF _ _ d])+
next
  case (T_Remove f)
  obtain h gen where s: "s = (h, gen)" by fastforce
  show ?thesis
  proof (cases "h_removable h (WrapPath mp f) \<and> h_tree h (WrapPath mp f) \<noteq> None")
    case True
    then show ?thesis using s_remove [OF refl, of h mp f canc gen] T_Remove s by blast
  next
    case False
    then show ?thesis using s_remove_fails [OF refl, of h mp f canc gen] T_Remove s by blast
  qed
qed simp

text \<open>C20. The calls do not wait for each other, and a deadline ends each of them.  In any interleaving, when the deadline of each fetch is past at some
  turn of its loop (the \<open>K i\<close>th), there are no more steps than three and the messages and bytes for each store, three and \<open>K i\<close> for each
  fetch (also of a file that cannot be read, or that another call empties between its \<open>stat\<close> and its \<open>open\<close>), two for each deletion and one
  for each query; and, with or without a deadline, when no call can go on every call has ended with an answer.\<close>

theorem server_calls_end:
  assumes "server_run mp canc calls hs n v"
  shows "((\<forall>i<length calls. \<forall>f. calls ! i = D_Fetch f \<longrightarrow> canc i (K i)) \<longrightarrow> n \<le> (\<Sum>i<length calls. call_weight (K i) (calls ! i))) \<and>
    ((\<forall>i<length calls. \<nexists>t' s'. call_step mp (canc i) (sv_thr v i) (sv_disk v) t' s') \<longrightarrow> (\<forall>i<length calls. \<exists>r. sv_thr v i = T_Done r))"
proof -
  have "n + (\<Sum>i<length calls. thr_weight (K i) (sv_thr v i)) \<le> (\<Sum>i<length calls. call_weight (K i) (calls ! i)) \<and>
      (\<forall>i<length calls. expires (canc i) (K i) (sv_thr v i))"
    if k: "\<forall>i<length calls. \<forall>f. calls ! i = D_Fetch f \<longrightarrow> canc i (K i)"
    using assms
  proof (induction rule: server_run.induct)
    case server_start
    have "expires (canc i) (K i) (T_Call (calls ! i))" if "i < length calls" for i
      using k that by (cases "calls ! i") simp_all
    then show ?case by simp
  next
    case (server_step n v i t' s')
    then have w: "thr_weight (K i) t' < thr_weight (K i) (sv_thr v i)" "expires (canc i) (K i) t'"
      using call_step_weight [OF server_step.hyps(3)] by blast+
    have "(\<Sum>j<length calls. thr_weight (K j) (((sv_thr v)(i := t')) j)) < (\<Sum>j<length calls. thr_weight (K j) (sv_thr v j))"
      using server_step.hyps(2) w(1) by (intro sum_strict_mono_ex1) auto
    then show ?case using server_step.IH w(2) by simp
  qed
  then show ?thesis using call_goes_on by (meson add_leD1)
qed

text \<open>
  Without a deadline a fetch need not end: when a store opens the file after the \<open>stat\<close> of the fetch and before its \<open>open\<close>, the fetch waits for
  bytes that do not come, and sends empty messages, any number of them, also after the store has ended.
\<close>

lemma server_run_step:
  assumes "server_run mp canc calls hs n \<lparr>sv_disk = s, sv_thr = thr\<rparr>" "i < length calls" "thr i = t" "call_step mp (canc i) t s t' s'"
  shows "server_run mp canc calls hs (Suc n) \<lparr>sv_disk = s', sv_thr = thr(i := t')\<rparr>"
  using server_run.server_step [OF assms(1,2)] assms(3,4) by simp

lemma fetch_pieces:
  assumes "server_run mp (\<lambda>i k. False) calls hs n \<lparr>sv_disk = s, sv_thr = thr(0 := T_Read 0 z 0 st [])\<rparr>" "0 < length calls"
    and "0 < z" "is_data st = []"
  shows "\<exists>st'. is_data st' = [] \<and>
    server_run mp (\<lambda>i k. False) calls hs (n + N) \<lparr>sv_disk = s, sv_thr = thr(0 := T_Read N z 0 st' (replicate N []))\<rparr>"
proof (induction N)
  case (Suc N)
  then obtain st1 where st1: "is_data st1 = []"
    "server_run mp (\<lambda>i k. False) calls hs (n + N) \<lparr>sv_disk = s, sv_thr = thr(0 := T_Read N z 0 st1 (replicate N []))\<rparr>" by blast
  obtain st2 where st2: "is_read 1024 st1 = ([], st2)" "is_data st2 = []" using st1(1) by (cases "is_good st1") (simp_all add: is_read_def)
  have "call_step mp (\<lambda>k. False) (T_Read N z 0 st1 (replicate N [])) s (T_Read (Suc N) z (0 + int (length ([] :: char list))) st2 (replicate N [] @ [[]])) s"
    using assms(3) st2(1) by (intro s_piece) (simp_all add: INT_MAX_def)
  from server_run_step [OF st1(2) assms(2) fun_upd_same this] st2(2) show ?case by (auto simp: replicate_append_same simp del: fun_upd_apply)
qed (use assms(1,4) in \<open>auto simp del: fun_upd_apply\<close>)

theorem server_fetch_of_emptied_file:
  assumes "can_open hs (WrapPath mp f)" "h_tree hs (WrapPath mp f) = Some (Reg b m c)" "b \<noteq> []" "int (length b) \<le> INT_MAX"
  shows "\<exists>n v st. server_run mp (\<lambda>i k. False) [D_Fetch f, D_Store (Some f) []] hs n v \<and> sv_thr v 1 = T_Done (R_Store OK) \<and>
    sv_thr v 0 = T_Read N (int (length b)) 0 st (replicate N [])"
proof -
  let ?p = "WrapPath mp f" and ?calls = "[D_Fetch f, D_Store (Some f) []]" and ?z = "\<lambda>_. 0 :: nat"
  let ?h = "put_file ?p [] hs" and ?sz = "int (length b)"
  define th where "th = (\<lambda>i. T_Call (?calls ! i))"
  have r0: "server_run mp (\<lambda>i k. False) ?calls hs 0 \<lparr>sv_disk = (hs, ?z), sv_thr = th\<rparr>" unfolding th_def by (rule server_run.server_start)
  have c1: "call_step mp (\<lambda>k. False) (T_Call (D_Fetch f)) (hs, ?z) (T_Open f ?sz) (hs, ?z)"
    using s_stat [of hs mp f "\<lparr>st_size = ?sz, st_mtime = m, st_ctime = c\<rparr>"] assms(2,4) by (simp add: stat_path_def off_to_int_small)
  have r1: "server_run mp (\<lambda>i k. False) ?calls hs (Suc 0) \<lparr>sv_disk = (hs, ?z), sv_thr = th(0 := T_Open f ?sz)\<rparr>"
    using server_run_step [OF r0 _ _ c1] by (simp add: th_def)
  have r2: "server_run mp (\<lambda>i k. False) ?calls hs (Suc (Suc 0))
      \<lparr>sv_disk = (?h, ?z), sv_thr = th(0 := T_Open f ?sz, 1 := T_Write ?p (Some 0) 0 [] 0 [])\<rparr>"
    using server_run_step [OF r1 _ _ store_opens [OF assms(1)], of 1] by (simp add: th_def)
  have r3: "server_run mp (\<lambda>i k. False) ?calls hs (Suc (Suc (Suc 0)))
      \<lparr>sv_disk = (?h, ?z), sv_thr = th(0 := T_Open f ?sz, 1 := T_Close OK ?p (Some 0) 0 [])\<rparr>"
    using server_run_step [OF r2 _ _ s_stored, of 1] by simp
  have "flush_out ?p (Some 0) 0 [] (?h, ?z) = (?h, ?z)" by (simp add: flush_out_def overwrite_def)
  then have r4: "server_run mp (\<lambda>i k. False) ?calls hs (Suc (Suc (Suc (Suc 0))))
      \<lparr>sv_disk = (?h, ?z), sv_thr = th(0 := T_Open f ?sz, 1 := T_Done (R_Store OK))\<rparr>"
    using server_run_step [OF r3 _ _ s_close, of 1] by simp
  have r5: "server_run mp (\<lambda>i k. False) ?calls hs (Suc (Suc (Suc (Suc (Suc 0)))))
      \<lparr>sv_disk = (?h, ?z), sv_thr = (th(1 := T_Done (R_Store OK)))(0 := T_Read 0 ?sz 0 (open_in ?h ?p) [])\<rparr>"
    using server_run_step [OF r4 _ _ s_open_in, of 0] by (simp add: fun_upd_twist)
  have "is_data (open_in ?h ?p) = []" by (simp add: open_in_def)
  with fetch_pieces [OF r5, of N] show ?thesis using assms(3) by fastforce
qed

text \<open>The instance: a file that cannot be read.\<close>

theorem server_calls_end_witness:
  "\<exists>n v. server_run ''s/'' (\<lambda>i k. 2 \<le> k) [D_Fetch ''b'', D_Stat ''b''] ((host1 ''s/b'' ''old'')\<lparr>h_readable := \<lambda>p. False\<rparr>) n v \<and>
    n \<le> 6 \<and> sv_thr v 0 = T_Done (R_Fetch (Some (Inr (DEADLINE_EXCEEDED, [[], []]))))"
proof -
  let ?hs = "(host1 ''s/b'' ''old'')\<lparr>h_readable := \<lambda>p. False\<rparr>" and ?calls = "[D_Fetch ''b'', D_Stat ''b'']" and ?z = "\<lambda>_. 0 :: nat"
  let ?run = "server_run ''s/'' (\<lambda>i k. 2 \<le> k) ?calls ?hs" and ?st = "\<lparr>is_data = [], is_good = False\<rparr>"
  define th where "th = (\<lambda>i. T_Call (?calls ! i))"
  have r0: "?run 0 \<lparr>sv_disk = (?hs, ?z), sv_thr = th\<rparr>" unfolding th_def by (rule server_run.server_start)
  have step: "?run (Suc n) \<lparr>sv_disk = (?hs, ?z), sv_thr = th(0 := t')\<rparr>"
    if "?run n \<lparr>sv_disk = (?hs, ?z), sv_thr = th(0 := t)\<rparr>" "call_step ''s/'' (\<lambda>k. 2 \<le> k) t (?hs, ?z) t' (?hs, ?z)" for n t t'
    using server_run_step [OF that(1) _ _ that(2), of 0] by simp
  have "call_step ''s/'' (\<lambda>k. 2 \<le> k) (T_Call (D_Fetch ''b'')) (?hs, ?z) (T_Open ''b'' 3) (?hs, ?z)"
    using s_stat [of ?hs "''s/''" "''b''" "\<lparr>st_size = 3, st_mtime = 5, st_ctime = 5\<rparr>"]
    by (simp add: stat_path_def WrapPath_def off_to_int_small INT_MAX_def)
  from server_run_step [OF r0 _ _ this, of 0] have "?run (Suc 0) \<lparr>sv_disk = (?hs, ?z), sv_thr = th(0 := T_Open ''b'' 3)\<rparr>"
    by (simp add: th_def)
  from step [OF this s_open_in] have "?run (Suc (Suc 0)) \<lparr>sv_disk = (?hs, ?z), sv_thr = th(0 := T_Read 0 3 0 ?st [])\<rparr>"
    by (simp add: open_in_def WrapPath_def)
  from step [OF this s_piece [where d = "[]" and st' = ?st]] have "?run (Suc (Suc (Suc 0))) \<lparr>sv_disk = (?hs, ?z), sv_thr = th(0 := T_Read 1 3 0 ?st [[]])\<rparr>"
    by (simp add: is_read_def INT_MAX_def)
  from step [OF this s_piece [where d = "[]" and st' = ?st]] have "?run 4 \<lparr>sv_disk = (?hs, ?z), sv_thr = th(0 := T_Read 2 3 0 ?st [[], []])\<rparr>"
    by (simp add: is_read_def INT_MAX_def numeral_eq_Suc)
  from step [OF this s_expired] have r: "?run 5 \<lparr>sv_disk = (?hs, ?z), sv_thr = th(0 := T_Done (R_Fetch (Some (Inr (DEADLINE_EXCEEDED, [[], []])))))\<rparr>"
    by simp
  have "5 \<le> (\<Sum>i<length ?calls. call_weight 2 (?calls ! i))"
    using conjunct1 [OF server_calls_end [OF r, where K = "\<lambda>i. 2"]] by (auto simp: less_2_cases_iff numeral_2_eq_2)
  moreover have "(\<Sum>i<length ?calls. call_weight 2 (?calls ! i)) = 6" by (simp add: numeral_eq_Suc)
  ultimately show ?thesis using r by force
qed

end
