(* ===== verification/DfsNodes.thy ===== *)
theory DfsNodes
  imports DfsMount Steque
begin

section \<open>Server nodes, the service runner and the call of the callback list (pr4)\<close>

text \<open>
  What dfslib-servernode-p1.cpp and part2/dfslibx-service-runner.h do to start and stop a gRPC server, and what
  part2/dfslibx-clientnode-p2.h does to start an asynchronous call.  The functions give the calls of gRPC that they make, in order; whether
  \<open>BuildAndStart\<close> delivers a server (it does not when it cannot listen on the address) is an argument.
\<close>

datatype 'svc bcall = B_AddListeningPort string | B_RegisterService 'svc | B_AddCompletionQueue | B_BuildAndStart

subsection \<open>\<open>DFSServerNode\<close>\<close>

text \<open>\<open>sn_server\<close>: the pointer to the server is not null.  The service is known by its mount path.\<close>

record 'f snode =
  sn_address :: string
  sn_mount_path :: string
  sn_callback :: 'f
  sn_server :: bool

definition DFSServerNode :: "string \<Rightarrow> string \<Rightarrow> 'f \<Rightarrow> 'f snode" where
  "DFSServerNode server_address mount_path callback =
    \<lparr>sn_address = server_address, sn_mount_path = mount_path, sn_callback = callback, sn_server = False\<rparr>"

text \<open>\<open>Start\<close> up to \<open>Wait\<close>, which blocks until the server is shut down.\<close>

definition Start :: "bool \<Rightarrow> 'f snode \<Rightarrow> (string bcall list \<times> 'f snode) res" where
  "Start built sn =
    (if built then Inr ([B_AddListeningPort (sn_address sn), B_RegisterService (sn_mount_path sn), B_BuildAndStart], sn\<lparr>sn_server := True\<rparr>)
     else Inl (Ub Null_Deref))"

text \<open>The destructor calls \<open>Shutdown\<close> of the server.\<close>

definition server_node_destroy :: "'f snode \<Rightarrow> unit res" where
  "server_node_destroy sn = (if sn_server sn then Inr () else Inl (Ub Null_Deref))"

text \<open>A node can be destroyed exactly when it was started and could listen; its callback is never called.\<close>

theorem server_node_life:
  "server_node_destroy (DFSServerNode a mp cb) = Inl (Ub Null_Deref) \<and>
    Start False (DFSServerNode a mp cb) = Inl (Ub Null_Deref) \<and>
    bindr (Start True (DFSServerNode a mp cb)) (\<lambda>(calls, sn). server_node_destroy sn) = Inr ()"
  by (simp add: server_node_destroy_def DFSServerNode_def Start_def)

subsection \<open>\<open>DFSServiceRunner\<close>\<close>

text \<open>The fields that a setter has not set are \<open>None\<close>; the address is then empty.\<close>

record 'svc runner =
  sr_address :: string
  sr_threads :: "int option"
  sr_service :: "'svc option"
  sr_callback :: "'svc option"
  sr_server :: bool
  sr_queue :: bool

definition DFSServiceRunner :: "'svc runner" where
  "DFSServiceRunner = \<lparr>sr_address = [], sr_threads = None, sr_service = None, sr_callback = None, sr_server = False, sr_queue = False\<rparr>"

definition SetService :: "'svc \<Rightarrow> 'svc runner \<Rightarrow> 'svc runner" where
  "SetService service sr = sr\<lparr>sr_service := Some service\<rparr>"

definition SetQueuedRequestsCallback :: "'svc \<Rightarrow> 'svc runner \<Rightarrow> 'svc runner" where
  "SetQueuedRequestsCallback callback sr = sr\<lparr>sr_callback := Some callback\<rparr>"

definition SetAddress :: "string \<Rightarrow> 'svc runner \<Rightarrow> 'svc runner" where
  "SetAddress server_address sr = sr\<lparr>sr_address := server_address\<rparr>"

definition SetNumThreads :: "int \<Rightarrow> 'svc runner \<Rightarrow> 'svc runner" where
  "SetNumThreads num_async_threads sr = sr\<lparr>sr_threads := Some num_async_threads\<rparr>"

definition runner_Shutdown :: "'svc runner \<Rightarrow> unit res" where
  "runner_Shutdown sr = (if sr_server sr then Inr () else Inl (Ub Null_Deref))"

text \<open>A queued request; the pointers are addresses.\<close>

record queue_request =
  qr_context :: addr
  qr_request :: addr
  qr_response :: addr
  qr_cq :: addr
  qr_tag :: addr
  qr_finished :: bool

definition QueueRequest :: "addr \<Rightarrow> addr \<Rightarrow> addr \<Rightarrow> addr \<Rightarrow> addr \<Rightarrow> queue_request" where
  "QueueRequest context request response cq tag =
    \<lparr>qr_context = context, qr_request = request, qr_response = response, qr_cq = cq, qr_tag = tag, qr_finished = False\<rparr>"

text \<open>
  A thread of \<open>HandleAsyncRPC\<close> makes its first call data (\<open>A_New\<close>), then follows the results of \<open>Next\<close> (its value, \<open>ok\<close> and
  \<open>tag\<close>): the call data of the tag proceeds.  A result that is no event is skipped, also that of a queue that was shut
  down; the loop has no exit.
\<close>

datatype 'tag aevent = A_New | A_Proceed 'tag

fun async_loop :: "(bool \<times> bool \<times> 'tag) list \<Rightarrow> 'tag aevent list" where
  "async_loop [] = []"
| "async_loop ((got, ok, tag) # results) =
    (if \<not> got \<or> \<not> ok then async_loop results else A_Proceed tag # async_loop results)"

definition HandleAsyncRPC :: "(bool \<times> bool \<times> 'tag) list \<Rightarrow> 'tag aevent list" where
  "HandleAsyncRPC results = A_New # async_loop results"

datatype rthread = R_Async int | R_Server | R_Queue

fun async_threads :: "nat \<Rightarrow> rthread list" where
  "async_threads 0 = []"
| "async_threads (Suc i) = R_Async (int (Suc i)) # async_threads i"

text \<open>
  \<open>Run\<close> up to the joining of its threads.  The thread of the server (\<open>HandleSyncRPC\<close>) calls \<open>Wait\<close> of it, also when there is none.  A thread on
  a callback that was never set throws, and nobody catches it.
\<close>

definition Run :: "bool \<Rightarrow> 'svc runner \<Rightarrow> ('svc bcall list \<times> rthread list \<times> 'svc runner) res" where
  "Run built sr =
    (case (sr_service sr, sr_threads sr) of
       (Some service, Some n) \<Rightarrow>
         if \<not> built then Inl (Ub Null_Deref)
         else if sr_callback sr = None then Inl Abort
         else Inr ([B_AddListeningPort (sr_address sr), B_RegisterService service, B_AddCompletionQueue, B_BuildAndStart],
           async_threads (nat n) @ [R_Server, R_Queue], sr\<lparr>sr_server := True, sr_queue := True\<rparr>)
     | _ \<Rightarrow> Inl (Ub Uninitialised))"

lemma length_async_threads: "length (async_threads n) = n"
  by (induction n) simp_all

lemma nth_async_threads: "i < n \<Longrightarrow> async_threads n ! i = R_Async (int (n - i))"
  by (induction n arbitrary: i) (auto simp: nth_Cons split: nat.splits)

text \<open>A runner on which all setters were called starts its threads, and then it can be shut down; one that never ran cannot.\<close>

theorem runner_life:
  assumes "0 \<le> n"
  shows "\<exists>sr. Run True (SetAddress a (SetNumThreads n (SetService s (SetQueuedRequestsCallback cb DFSServiceRunner)))) =
      Inr ([B_AddListeningPort a, B_RegisterService s, B_AddCompletionQueue, B_BuildAndStart], async_threads (nat n) @ [R_Server, R_Queue], sr) \<and>
    length (async_threads (nat n) @ [R_Server, R_Queue]) = nat n + 2 \<and> runner_Shutdown sr = Inr () \<and>
    runner_Shutdown (DFSServiceRunner :: 'svc runner) = Inl (Ub Null_Deref)"
  by (simp add: Run_def SetAddress_def SetNumThreads_def SetService_def SetQueuedRequestsCallback_def DFSServiceRunner_def runner_Shutdown_def
      length_async_threads)

subsection \<open>\<open>CallbackList\<close>\<close>

text \<open>The data of an asynchronous call, with the reply and the status once gRPC has filled them in.\<close>

record 'resp AsyncClientData =
  ac_reply :: "'resp option"
  ac_status :: "rpc_code option"
  ac_reader :: bool

datatype lcall = L_PrepareAsyncCallbackList string | L_StartCall | L_Finish addr

text \<open>
  \<open>CallbackList\<close>, on the blocks of the heap that hold call data: the request has an empty name, and the tag of the call is the address \<open>a\<close> that
  \<open>new\<close> has returned.  Without a stub it calls a method of a null pointer.
\<close>

definition CallbackList :: "addr \<Rightarrow> cnode \<Rightarrow> (addr \<rightharpoonup> 'resp AsyncClientData) \<Rightarrow> (lcall list \<times> (addr \<rightharpoonup> 'resp AsyncClientData)) res" where
  "CallbackList a nd heap =
    (if nd_stub nd = None then Inl (Ub Null_Deref)
     else Inr ([L_PrepareAsyncCallbackList [], L_StartCall, L_Finish a], heap(a \<mapsto> \<lparr>ac_reply = None, ac_status = None, ac_reader = True\<rparr>)))"

text \<open>It is safe exactly after \<open>CreateStub\<close>, on whatever node, and gives gRPC the tag of call data that nobody else has.\<close>

theorem callback_list_stub:
  "heap a = None \<Longrightarrow>
    (\<exists>calls heap'. CallbackList a (CreateStub ch nd) heap = Inr (calls, heap') \<and> last calls = L_Finish a \<and> dom heap' = insert a (dom heap) \<and>
      (\<forall>b. b \<noteq> a \<longrightarrow> heap' b = heap b)) \<and>
    CallbackList a (nd\<lparr>nd_stub := None\<rparr>) heap = Inl (Ub Null_Deref)"
  by (simp add: CallbackList_def CreateStub_def)

end
