(* ===== verification/Inet.thy ===== *)
theory Inet
  imports Echo CommandLines
begin

section \<open>The address of the echo client\<close>

text \<open>
  \<open>inet_pton(AF_INET, s, dst)\<close> of the C library, which echoclient.c calls without testing the result: four
  decimal octets with dots between them, without leading zeros.  It is proved to accept exactly the dotted forms of the addresses, and
  the echo client is run with it.
\<close>

text \<open>The loop over the characters: the octets that are finished, and the one being read when there is a digit of it.\<close>

fun pton_loop :: "string \<Rightarrow> nat list \<Rightarrow> nat option \<Rightarrow> nat list option" where
  "pton_loop [] os None = None"
| "pton_loop [] os (Some v) = (if length os = 3 then Some (os @ [v]) else None)"
| "pton_loop (ch # s) os cur =
    (if isdigit ch then
       (case cur of
          None \<Rightarrow> if length os = 4 then None else pton_loop s os (Some (digit_val ch))
        | Some v \<Rightarrow> if v = 0 \<or> 255 < 10 * v + digit_val ch then None else pton_loop s os (Some (10 * v + digit_val ch)))
     else if ch = CHR ''.'' then
       (case cur of None \<Rightarrow> None | Some v \<Rightarrow> if length os = 3 then None else pton_loop s (os @ [v]) None)
     else None)"

definition octets_word :: "nat list \<Rightarrow> 32 word" where
  "octets_word os = of_nat (foldl (\<lambda>a x. 256 * a + x) 0 os)"

definition inet_pton :: "string \<Rightarrow> 32 word option" where
  "inet_pton s = map_option octets_word (pton_loop s [] None)"

fun dots :: "nat list \<Rightarrow> string" where
  "dots [] = []"
| "dots [x] = dec x"
| "dots (x # y # xs) = dec x @ CHR ''.'' # dots (y # xs)"

definition octets :: "nat list \<Rightarrow> bool" where
  "octets os \<longleftrightarrow> length os = 4 \<and> list_all (\<lambda>x. x < 256) os"

subsection \<open>Lemmas\<close>

lemma dec_snoc: "0 < v \<Longrightarrow> d < 10 \<Longrightarrow> dec (10 * v + d) = dec v @ [digit_char d]"
  by (subst dec.simps) simp

lemma digit_val_bound: "isdigit c \<Longrightarrow> digit_val c < 10 \<and> digit_char (digit_val c) = c"
  by (drule isdigit_cases) (auto simp: digit_val_def digit_char_def digits_def)

lemma dec_one: "d < 10 \<Longrightarrow> dec d = [digit_char d]"
  by (subst dec.simps) simp

lemma not_isdigit_dot [simp]: "\<not> isdigit (CHR ''.'')"
  by (simp add: isdigit_def digits_def)

text \<open>What is read of an octet.\<close>

lemma pton_dec: "v < 256 \<Longrightarrow> length os < 4 \<Longrightarrow> pton_loop (dec v @ r) os None = pton_loop r os (Some v)"
proof (induction v arbitrary: r rule: dec.induct)
  case (1 v)
  show ?case
  proof (cases "v < 10")
    case True
    then show ?thesis using 1 by (simp add: dec_one)
  next
    case False
    have "dec v = dec (v div 10) @ [digit_char (v mod 10)]" using False by (subst dec.simps) simp
    then have "pton_loop (dec v @ r) os None = pton_loop (digit_char (v mod 10) # r) os (Some (v div 10))"
      using 1 False by simp
    also have "10 * (v div 10) + v mod 10 = v" by simp
    then have "pton_loop (digit_char (v mod 10) # r) os (Some (v div 10)) = pton_loop r os (Some v)"
      using 1(2) False by (simp add: div_eq_0_iff)
    finally show ?thesis .
  qed
qed

lemma pton_dots: "xs \<noteq> [] \<Longrightarrow> list_all (\<lambda>x. x < 256) xs \<Longrightarrow> length os + length xs = 4 \<Longrightarrow>
    pton_loop (dots xs) os None = Some (os @ xs)"
proof (induction xs arbitrary: os rule: dots.induct)
  case (2 x)
  then show ?case using pton_dec [of x os "[]"] by simp
next
  case (3 x y xs)
  then show ?case using pton_dec [of x os "CHR ''.'' # dots (y # xs)"] by simp
qed simp

lemma dots_snoc: "dots (xs @ [v]) = concat (map (\<lambda>x. dec x @ ''.'') xs) @ dec v"
  by (induction xs rule: dots.induct) simp_all

text \<open>What has been read at any point of the loop.\<close>

definition pton_read :: "nat list \<Rightarrow> nat option \<Rightarrow> string" where
  "pton_read os cur = concat (map (\<lambda>x. dec x @ ''.'') os) @ (case cur of None \<Rightarrow> [] | Some v \<Rightarrow> dec v)"

lemma pton_loop_reads:
  "pton_loop s os cur = Some r \<Longrightarrow> list_all (\<lambda>x. x < 256) os \<Longrightarrow> (\<And>v. cur = Some v \<Longrightarrow> v < 256) \<Longrightarrow>
    octets r \<and> pton_read os cur @ s = dots r"
proof (induction s os cur rule: pton_loop.induct)
  case (2 os v)
  then show ?case by (auto simp: octets_def pton_read_def dots_snoc split: if_splits)
next
  case (3 ch s os cur)
  show ?case
  proof (cases "isdigit ch")
    case True
    note d = digit_val_bound [OF True]
    show ?thesis
    proof (cases cur)
      case None
      then have "octets r \<and> pton_read os (Some (digit_val ch)) @ s = dots r"
        using 3(1) [OF True None] 3(4,5) d True by (auto split: if_splits)
      then show ?thesis using None d by (simp add: pton_read_def dec_one)
    next
      case (Some v)
      then have v: "v \<noteq> 0" "\<not> 255 < 10 * v + digit_val ch" "pton_loop s os (Some (10 * v + digit_val ch)) = Some r"
        using 3(4) True by (auto split: if_splits)
      then have "octets r \<and> pton_read os (Some (10 * v + digit_val ch)) @ s = dots r"
        using 3(2) [OF True Some] 3(5) by auto
      then show ?thesis using Some d v(1) by (simp add: pton_read_def dec_snoc)
    qed
  next
    case False
    then obtain v where v: "ch = CHR ''.''" "cur = Some v" "length os \<noteq> 3" "pton_loop s (os @ [v]) None = Some r"
      using 3(4) by (auto split: if_splits option.splits)
    then have "octets r \<and> pton_read (os @ [v]) None @ s = dots r" using 3(3) [OF False v(1,2,3)] 3(5,6) by simp
    then show ?thesis using v(1,2) by (simp add: pton_read_def)
  qed
qed simp

lemma pton_octets: "octets os \<Longrightarrow> pton_loop (dots os) [] None = Some os"
  using pton_dots [of os "[]"] by (cases "os = []") (simp_all add: octets_def)

lemma inet_pton_dots: "octets os \<Longrightarrow> inet_pton (dots os) = Some (octets_word os)"
  by (simp add: inet_pton_def pton_octets)

lemma inet_pton_iff: "inet_pton s = Some w \<longleftrightarrow> (\<exists>os. octets os \<and> s = dots os \<and> w = octets_word os)"
proof -
  have "pton_loop s [] None = Some r \<Longrightarrow> octets r \<and> s = dots r" for r
    using pton_loop_reads [of s "[]" None r] by (simp add: pton_read_def)
  then show ?thesis using pton_octets by (auto simp: inet_pton_def)
qed

lemma inet_pton_none: "inet_pton s = None \<longleftrightarrow> (\<forall>os. octets os \<longrightarrow> s \<noteq> dots os)"
  using inet_pton_iff [of s] by (metis not_Some_eq)

subsection \<open>Property\<close>

text \<open>C38. Where the echo client connects to.  For every command line it accepts: if the host is given as four octets with dots, to
  exactly this address; for every other host, in particular for a name, also the default \<open>localhost\<close>, to 0.0.0.0, and not
  to an error.  It then sends the message there and prints the answer.\<close>

theorem echoclient_connects:
  assumes "echoclient_setup (fst (getopt_long (options_of Echoclient) argv)) = Inr o1" "0 \<le> sk"
  shows "\<exists>h msg a. ec_hostname o1 = Some h \<and> ec_message o1 = Some msg \<and>
    echoclient_main (fst (getopt_long (options_of Echoclient) argv)) inet_pton sk conn =
      (case conn a (ec_portno o1) of None \<Rightarrow> (Inl (Exit 1), None)
       | Some s \<Rightarrow> apsnd Some (echo_exchange msg s)) \<and>
    (\<forall>os. octets os \<and> h = dots os \<longrightarrow> a = octets_word os) \<and> ((\<forall>os. octets os \<longrightarrow> h \<noteq> dots os) \<longrightarrow> a = 0)"
proof -
  let ?os = "fst (getopt_long (options_of Echoclient) argv)"
  obtain h msg where h: "ec_hostname o1 = Some h" "ec_message o1 = Some msg"
    using assms(1) by (auto simp: echoclient_setup_def bindr_def split: sum.splits if_splits)
  have "echoclient_main ?os inet_pton sk conn = (case conn (echoclient_addr inet_pton h) (ec_portno o1) of
      None \<Rightarrow> (Inl (Exit 1), None) | Some s \<Rightarrow> apsnd Some (echo_exchange msg s))"
    using assms h by (auto simp: echoclient_main_def apsnd_def map_prod_def split: option.splits prod.splits)
  moreover have "\<forall>os. octets os \<and> h = dots os \<longrightarrow> echoclient_addr inet_pton h = octets_word os"
    by (auto simp: echoclient_addr_def inet_pton_dots)
  moreover have "(\<forall>os. octets os \<longrightarrow> h \<noteq> dots os) \<longrightarrow> echoclient_addr inet_pton h = 0"
    unfolding inet_pton_none [of h, symmetric] by (simp add: echoclient_addr_def)
  ultimately show ?thesis using h by blast
qed

theorem echoclient_connects_witness:
  "echoclient_main (fst (getopt_long (options_of Echoclient) [])) inet_pton 3 (\<lambda>a p. if a = 0 then None else Some echo_client1) =
    (Inl (Exit 1), None)"
proof -
  have "\<not> (octets os \<and> ''localhost'' = dots os)" for os
  proof -
    have "pton_loop ''localhost'' [] None = None" by (simp add: isdigit_def digits_def)
    then show ?thesis using pton_octets [of os] by (metis option.distinct(1))
  qed
  moreover have "echoclient_setup (fst (getopt_long (options_of Echoclient) [])) = Inr echoclient_default"
    by (simp add: echoclient_setup_def echoclient_default_def port_bad_def)
  ultimately show ?thesis
    using echoclient_connects [of "[]" echoclient_default 3 "\<lambda>a p. if a = 0 then None else Some echo_client1"]
    by (auto simp: echoclient_default_def)
qed

end
