(* ===== verification/Downloads.thy ===== *)
theory Downloads
  imports GFDownload
begin

section \<open>The whole download client of pr1/gflib\<close>

text \<open>
  The program of \<open>GFDownload\<close> over all its requests: the names of the local files are different, so that no download
  overwrites another one, and every file of the run is there at its end.
\<close>

subsection \<open>Names of local files\<close>

lemma split_at_last:
  "c \<notin> set d \<Longrightarrow> c \<notin> set d' \<Longrightarrow> p @ c # d = q @ c # d' \<Longrightarrow> p = q \<and> d = d'"
proof (induction p arbitrary: q)
  case Nil
  then show ?case by (cases q) auto
next
  case (Cons x p)
  then show ?case by (cases q) auto
qed

lemma pad0_digits: "c \<in> set (pad0 w (dec n)) \<Longrightarrow> isdigit c"
proof -
  have "isdigit (CHR ''0'')" by (simp add: isdigit_def digits_def)
  then show "c \<in> set (pad0 w (dec n)) \<Longrightarrow> isdigit c" by (auto simp: pad0_def dest: dec_digits)
qed

lemma pad0_sep [simp]: "CHR ''_'' \<notin> set (pad0 w (dec n))" "CHR ''-'' \<notin> set (pad0 w (dec n))"
  by (auto dest!: pad0_digits simp: isdigit_def digits_def)

text \<open>The name of both programs, with \<open>_\<close> and with \<open>-\<close>: it determines the path and the number.\<close>

definition local_name :: "char \<Rightarrow> string \<Rightarrow> nat \<Rightarrow> string" where
  "local_name sep path k = tl path @ sep # pad0 6 (dec k)"

lemma local_name_inject:
  assumes "sep \<in> {CHR ''_'', CHR ''-''}"
  shows "local_name sep p i = local_name sep q j \<longleftrightarrow> tl p = tl q \<and> i = j"
  using assms split_at_last [of sep "pad0 6 (dec i)" "pad0 6 (dec j)" "tl p" "tl q"] by (auto simp: local_name_def)

lemma length_pad0_dec: "k < 2 ^ 31 \<Longrightarrow> length (pad0 6 (dec k)) \<le> 10"
  using length_dec_bound [of k 10] by (simp add: pad0_def)

lemma take_local_name: "length path \<le> 239 \<Longrightarrow> k < 2 ^ 31 \<Longrightarrow>
    take 255 (tl path @ ''_'' @ pad0 6 (dec k)) = local_name (CHR ''_'') path k"
  using length_pad0_dec [of k] by (simp add: local_name_def)

subsection \<open>The loop\<close>

text \<open>A request of the run: what is announced and what arrives.\<close>

definition saved :: "size_t \<times> char list \<Rightarrow> char list option" where
  "saved a = (if length (snd a) = unat (fst a) then Some (snd a) else None)"

definition request_good :: "nat \<Rightarrow> string \<Rightarrow> peer \<Rightarrow> size_t \<times> char list \<Rightarrow> bool" where
  "request_good fuel path p a \<longleftrightarrow> path \<noteq> [] \<and> length path \<le> 239 \<and> peer_sends p (fst a) (snd a) \<and> rx_size (rx (pr_sock p)) < fuel"

definition wl_loaded :: "string list \<Rightarrow> nat \<Rightarrow> workload \<Rightarrow> bool" where
  "wl_loaded ws c w \<longleftrightarrow> wl_mode w = WORKLOAD_SEQ \<and> wl_counter w = of_nat c \<and> ws \<noteq> [] \<and> length ws \<le> 100 \<and>
    wl_unique w = of_nat (length ws) \<and> length (wl_paths w) = 100 \<and> take (length ws) (wl_paths w) = map Some ws"

lemma wl_loaded_next: "wl_loaded ws c w \<Longrightarrow> c < 2 ^ 31 \<Longrightarrow>
    \<exists>w'. workload_get_path 0 w = Inr (Some (ws ! (c mod length ws)), w') \<and> wl_loaded ws (Suc c) w'"
  using workload_get_path_seq [of w c ws 0] by (auto simp: wl_loaded_def simp del: of_nat_Suc)

lemma download_loop_saves:
  assumes "\<forall>d. mk d = 0 \<or> mk d = EEXIST" "\<forall>f. fop f"
  shows "wl_loaded ws c w \<Longrightarrow> c + k \<le> 2 ^ 31 \<Longrightarrow> length ps = k \<Longrightarrow> length as = k \<Longrightarrow>
    (\<And>i. i < k \<Longrightarrow> request_good fuel (ws ! ((c + i) mod length ws)) (ps ! i) (as ! i)) \<Longrightarrow>
    \<exists>w' fs'. download_loop fuel mk fop server port c k ps w fs = Some (Inr (w', fs')) \<and> wl_loaded ws (c + k) w' \<and>
      (\<forall>i<k. fs' (local_name (CHR ''_'') (ws ! ((c + i) mod length ws)) (c + i)) = saved (as ! i)) \<and>
      (\<forall>f. (\<forall>i<k. f \<noteq> local_name (CHR ''_'') (ws ! ((c + i) mod length ws)) (c + i)) \<longrightarrow> fs' f = fs f)"
proof (induction k arbitrary: c w ps as fs)
  case 0
  then show ?case by simp
next
  case (Suc k)
  let ?nm = "\<lambda>i. local_name (CHR ''_'') (ws ! (i mod length ws)) i"
  obtain p ps' where ps: "ps = p # ps'" "length ps' = k" using Suc.prems(3) by (cases ps) auto
  obtain a as' where as: "as = a # as'" "length as' = k" using Suc.prems(4) by (cases as) auto
  have g: "request_good fuel (ws ! (c mod length ws)) p a" using Suc.prems(5) [of 0] ps as by simp
  obtain w1 where w1: "workload_get_path 0 w = Inr (Some (ws ! (c mod length ws)), w1)" "wl_loaded ws (Suc c) w1"
    using wl_loaded_next [OF Suc.prems(1)] Suc.prems(2) by auto
  have nm: "take 255 (tl (ws ! (c mod length ws)) @ ''_'' @ pad0 6 (dec c)) = ?nm c"
    using g Suc.prems(2) by (intro take_local_name) (auto simp: request_good_def)
  obtain rc g1 where one: "download_one fuel mk fop server port (Some (ws ! (c mod length ws))) c p fs =
      Some (Inr (fs(?nm c := saved a), rc, g1))"
    using download_one_saves [where path = "ws ! (c mod length ws)" and p = p and len = "fst a" and body = "snd a"
        and n = fuel and k = c and server = server and port = port and fs = fs, OF _ _ assms] g nm
    unfolding saved_def request_good_def by fastforce
  have "request_good fuel (ws ! ((Suc c + i) mod length ws)) (ps' ! i) (as' ! i)" if "i < k" for i
    using Suc.prems(5) [of "Suc i"] that ps as by simp
  then obtain w' fs' where r: "download_loop fuel mk fop server port (Suc c) k ps' w1 (fs(?nm c := saved a)) = Some (Inr (w', fs'))"
    "wl_loaded ws (Suc c + k) w'" "\<forall>i<k. fs' (?nm (Suc c + i)) = saved (as' ! i)"
    "\<forall>f. (\<forall>i<k. f \<noteq> ?nm (Suc c + i)) \<longrightarrow> fs' f = (fs(?nm c := saved a)) f"
    using Suc.IH [OF w1(2) _ ps(2) as(2)] Suc.prems(2) by (metis add_Suc_shift)
  have first: "fs' (?nm c) = saved a"
    using r(4) by (simp add: local_name_inject)
  have "\<forall>i<Suc k. fs' (?nm (c + i)) = saved (as ! i)"
  proof (intro allI impI)
    fix i
    assume "i < Suc k"
    then show "fs' (?nm (c + i)) = saved (as ! i)" using first r(3) as(1) by (cases i) auto
  qed
  moreover have "fs' f = fs f" if "\<forall>i<Suc k. f \<noteq> ?nm (c + i)" for f
  proof -
    have "\<forall>i<k. f \<noteq> ?nm (Suc c + i)" using that by (metis Suc_less_eq add_Suc_shift)
    moreover have "f \<noteq> ?nm c" using that by force
    ultimately show ?thesis using r(4) by simp
  qed
  ultimately show ?case using w1(1) one r(1,2) ps(1) by simp
qed

subsection \<open>Property\<close>

text \<open>C13. The whole program, with options that it accepts, for at most \<open>2 ^ 31\<close> requests.  The workload file holds 1 to 100 words of 1 to 239 characters, the directories and the files can be
  made, and the peers can be reached, take each request in one send, and answer it with a good header that comes whole in the first
  packet, perhaps with the beginning of the content (together at most 512 bytes), and with any part of the rest of the content in any
  further packets.  Then the program ends without a fault, and for each of the \<open>n\<close> requests, whose paths are the words in the order of the
  file, over and over, there is a file of its own (the path without its first character and the number of the request): it holds exactly
  the content that was announced if all of it arrived, and does not exist if not.  No other file changes.\<close>

theorem download_main_saves_all:
  assumes "download_setup args = Inr o1" "Option.bind (dl_workload o1) wlfile = Some (wl_text ws)"
    and "list_all word_ok ws" "ws \<noteq> []" "length ws \<le> 100" "dl_nrequests o1 = int n" "n \<le> 2 ^ 31"
    and "\<forall>d. mk d = 0 \<or> mk d = EEXIST" "\<forall>f. fop f"
    and "length ps = n" "length as = n" "\<forall>i<n. request_good fuel (ws ! (i mod length ws)) (ps ! i) (as ! i)"
  shows "\<exists>fs'. download_main fuel mk fop args wlfile ps fs = Some (Inr fs') \<and>
    (\<forall>i<n. fs' (local_name (CHR ''_'') (ws ! (i mod length ws)) i) = saved (as ! i)) \<and>
    (\<forall>f. (\<forall>i<n. f \<noteq> local_name (CHR ''_'') (ws ! (i mod length ws)) i) \<longrightarrow> fs' f = fs f)"
proof -
  obtain a where a: "workload_init (Some (wl_text ws)) wl_static =
      Inr (EXIT_SUCCESS, wl_static\<lparr>wl_paths := a, wl_unique := of_nat (length ws)\<rparr>)"
    "length a = 100" "take (length ws) a = map Some ws"
    using workload_init_ok [OF assms(3,5), of wl_static] by (auto simp: wl_static_def)
  define w where "w = wl_static\<lparr>wl_paths := a, wl_unique := of_nat (length ws)\<rparr>"
  define srv where "srv = (case dl_server o1 of None \<Rightarrow> [] | Some s \<Rightarrow> s)"
  have "wl_loaded ws 0 w" using a assms(4,5) by (simp add: wl_loaded_def w_def wl_static_def)
  note saves = download_loop_saves [OF assms(8,9) this, where k = n and ps = ps and as = as and fuel = fuel
      and fs = fs and server = srv and port = "dl_port o1"]
  obtain w' fs' where r: "download_loop fuel mk fop srv (dl_port o1) 0 n ps w fs =
      Some (Inr (w', fs'))" "wl_loaded ws n w'"
    "\<forall>i<n. fs' (local_name (CHR ''_'') (ws ! (i mod length ws)) i) = saved (as ! i)"
    "\<forall>f. (\<forall>i<n. f \<noteq> local_name (CHR ''_'') (ws ! (i mod length ws)) i) \<longrightarrow> fs' f = fs f"
    using saves assms(7,10-12) by auto
  have "\<exists>w''. workload_destroy w' = Inr w''"
    using r(2) unat_length_16 [of ws] by (simp add: workload_destroy_def wl_loaded_def)
  then show ?thesis
    using assms(1,2,6) a(1) r by (auto simp: download_main_def w_def srv_def)
qed

theorem download_main_saves_all_witness:
  "\<exists>fs'. download_main 40 (\<lambda>_. 0) (\<lambda>_. True) [(CHR ''n'', Some (dec 2))] (\<lambda>_. Some (wl_text [''/a''])) [example_down, example_down] Map.empty =
    Some (Inr fs') \<and> fs' (local_name (CHR ''_'') ''/a'' 0) = Some ''abc'' \<and> fs' (local_name (CHR ''_'') ''/a'' 1) = Some ''abc''"
proof -
  have "peer_sends example_down 3 ''abc''"
    unfolding peer_sends_def
    by (intro conjI exI [of _ "''a''"] exI [of _ "[RxData ''bc'']"])
      (simp_all add: example_down_def rx_clean_def resp_header_def dec_digit)
  then have "request_good 40 ''/a'' example_down (3, ''abc'')"
    by (simp add: request_good_def example_down_def resp_header_def dec_digit)
  then have "\<forall>i<2. request_good 40 ([''/a''] ! (i mod length [''/a''])) ([example_down, example_down] ! i) ([(3, ''abc''), (3, ''abc'')] ! i)"
    by (simp add: less_2_cases_iff)
  moreover have "download_setup [(CHR ''n'', Some (dec 2))] = Inr (download_default\<lparr>dl_nrequests := 2\<rparr>)"
    using atoi_dec [of 2] by (simp add: download_setup_def download_option_def atoi_arg_def download_default_def INT_MAX_def)
  ultimately show ?thesis
    using download_main_saves_all [of "[(CHR ''n'', Some (dec 2))]" _ "\<lambda>_. Some (wl_text [''/a''])" "[''/a'']" 2 "\<lambda>_. 0" "\<lambda>_. True"
        "[example_down, example_down]" "[(3, ''abc''), (3, ''abc'')]" 40 Map.empty]
    by (fastforce simp: download_default_def word_ok_def isspace_def saved_def less_2_cases_iff)
qed

end
