(* ===== verification/LocalNames.thy ===== *)
theory LocalNames
  imports Downloads
begin

section \<open>The shared counter of localPath (pr1/mtgf)\<close>

text \<open>
  The worker threads of gfclient_download.c call \<open>localPath\<close> without a lock.  Its static counter is read and written
  back in \<open>counter++\<close>, so other threads run between the two.  Here are the threads that have a request, from the call of
  \<open>localPath\<close> to its name; what a worker then does with the name is \<open>set_request_main_code\<close> of \<open>GFDownload\<close>.
\<close>

datatype namer = N_Start | N_Loaded nat | N_Named nat

record ln_state =
  ln_counter :: nat
  ln_threads :: "(string \<times> namer) list"

definition ln_start :: "string list \<Rightarrow> ln_state" where
  "ln_start rs = \<lparr>ln_counter = 0, ln_threads = map (\<lambda>r. (r, N_Start)) rs\<rparr>"

inductive ln_step :: "ln_state \<Rightarrow> ln_state \<Rightarrow> bool" where
  ln_load: "i < length (ln_threads s) \<Longrightarrow> ln_threads s ! i = (r, N_Start) \<Longrightarrow>
    ln_step s (s\<lparr>ln_threads := (ln_threads s)[i := (r, N_Loaded (ln_counter s))]\<rparr>)"
| ln_store: "i < length (ln_threads s) \<Longrightarrow> ln_threads s ! i = (r, N_Loaded n) \<Longrightarrow>
    ln_step s (s\<lparr>ln_counter := Suc n, ln_threads := (ln_threads s)[i := (r, N_Named n)]\<rparr>)"

text \<open>The number a thread has taken.\<close>

fun taken :: "namer \<Rightarrow> nat option" where
  "taken N_Start = None"
| "taken (N_Loaded n) = Some n"
| "taken (N_Named n) = Some n"

subsection \<open>Lemmas\<close>

text \<open>The first \<open>k\<close> threads have loaded, then the first \<open>k\<close> have stored.\<close>

lemma ln_loads:
  "k \<le> length rs \<Longrightarrow> ln_step\<^sup>*\<^sup>* (ln_start rs)
    \<lparr>ln_counter = 0, ln_threads = map (\<lambda>r. (r, N_Loaded 0)) (take k rs) @ map (\<lambda>r. (r, N_Start)) (drop k rs)\<rparr>"
proof (induction k)
  case 0
  then show ?case by (simp add: ln_start_def)
next
  case (Suc k)
  let ?s = "\<lparr>ln_counter = 0, ln_threads = map (\<lambda>r. (r, N_Loaded 0)) (take k rs) @ map (\<lambda>r. (r, N_Start)) (drop k rs)\<rparr>"
  have d: "drop k rs = rs ! k # drop (Suc k) rs" using Suc.prems by (simp add: Cons_nth_drop_Suc)
  have "ln_step ?s (?s\<lparr>ln_threads := (ln_threads ?s)[k := (rs ! k, N_Loaded (ln_counter ?s))]\<rparr>)"
    using Suc.prems by (intro ln_load) (simp_all add: nth_append d)
  then show ?case
    using Suc by (auto simp: d list_update_append take_Suc_conv_app_nth intro: rtranclp.rtrancl_into_rtrancl)
qed

lemma ln_stores:
  "k \<le> length rs \<Longrightarrow> ln_step\<^sup>*\<^sup>* \<lparr>ln_counter = 0, ln_threads = map (\<lambda>r. (r, N_Loaded 0)) rs\<rparr>
    \<lparr>ln_counter = (if k = 0 then 0 else 1),
      ln_threads = map (\<lambda>r. (r, N_Named 0)) (take k rs) @ map (\<lambda>r. (r, N_Loaded 0)) (drop k rs)\<rparr>"
proof (induction k)
  case 0
  then show ?case by simp
next
  case (Suc k)
  let ?s = "\<lparr>ln_counter = (if k = 0 then 0 else 1),
      ln_threads = map (\<lambda>r. (r, N_Named 0)) (take k rs) @ map (\<lambda>r. (r, N_Loaded 0)) (drop k rs)\<rparr>"
  have d: "drop k rs = rs ! k # drop (Suc k) rs" using Suc.prems by (simp add: Cons_nth_drop_Suc)
  have "ln_step ?s (?s\<lparr>ln_counter := Suc 0, ln_threads := (ln_threads ?s)[k := (rs ! k, N_Named 0)]\<rparr>)"
    using Suc.prems by (intro ln_store) (simp_all add: nth_append d)
  then show ?case
    using Suc by (auto simp: d list_update_append take_Suc_conv_app_nth intro: rtranclp.rtrancl_into_rtrancl)
qed

text \<open>A failed download removes the file of its name, whoever has made it.\<close>

lemma failed_download_removes:
  assumes "localPath_mt path k = Inr lp" "openFile mk fop lp fs = Inr (fs(lp \<mapsto> []))"
    and "\<And>g. \<exists>g'. perform g = Some (Inr (rc, g'))" "rc < 0"
  shows "\<exists>fs' g. set_request_main_code perform mk fop server port path k fs = Some (Inr (fs', rc, g)) \<and>
    fs' lp = None \<and> (\<forall>f. f \<noteq> lp \<longrightarrow> fs' f = fs f)"
proof -
  obtain g' where "perform (gfc_set_writearg (Some []) (gfc_set_writefunc (Some writecb)
      (gfc_set_server (Some server) (gfc_set_path (Some path) (gfc_set_port port gfc_create))))) = Some (Inr (rc, g'))"
    using assms(3) by blast
  then show ?thesis
    using assms(1,2,4) by (auto simp: set_request_main_code_def fetch_def Let_def)
qed

lemma localPath_mt_name: "path \<noteq> [] \<Longrightarrow> length path \<le> 496 \<Longrightarrow> k < 2 ^ 31 \<Longrightarrow>
    localPath_mt path k = Inr (local_name (CHR ''-'') path k)"
  using length_pad0_dec [of k] by (cases path) (auto simp: localPath_mt_def skip_first_def local_name_def Let_def)

lemma localPath_mt_same: "localPath_mt p i = Inr x \<Longrightarrow> localPath_mt q j = Inr x \<Longrightarrow> tl p = tl q \<and> i = j"
  using local_name_inject [of "CHR ''-''" p i q j]
  by (auto simp: localPath_mt_def skip_first_def local_name_def Let_def bindr_def split: list.splits if_splits)

subsection \<open>Property\<close>

text \<open>C37. The numbers of the local files.  Two calls of \<open>localPath\<close> give the same name only for the same path (but for its first
  character) and the same number.  But there is an interleaving in which all threads get the number 0: two downloads
  of one path then have the same file, and when one of them fails after the other one has saved its content, that content
  is removed, with any library.\<close>

theorem local_names_race:
  assumes "list_all (\<lambda>r. r \<noteq> [] \<and> length r \<le> 496) rs" "\<forall>d. mk d = 0 \<or> mk d = EEXIST" "\<forall>f. fop f"
    and "\<And>g. \<exists>g'. perform g = Some (Inr (rc, g'))" "rc < 0" "r \<in> set rs"
  shows "(\<forall>p q i j x. localPath_mt p i = Inr x \<and> localPath_mt q j = Inr x \<longrightarrow> tl p = tl q \<and> i = j) \<and>
    (\<exists>s. ln_step\<^sup>*\<^sup>* (ln_start rs) s \<and> ln_threads s = map (\<lambda>r. (r, N_Named 0)) rs) \<and>
    (\<exists>lp fs' g. localPath_mt r 0 = Inr lp \<and>
      set_request_main_code perform mk fop server port r 0 (fs(lp \<mapsto> body)) = Some (Inr (fs', rc, g)) \<and> fs' lp = None)"
proof -
  have "ln_step\<^sup>*\<^sup>* (ln_start rs) \<lparr>ln_counter = 0, ln_threads = map (\<lambda>r. (r, N_Loaded 0)) rs\<rparr>"
    using ln_loads [of "length rs" rs] by simp
  then have "ln_step\<^sup>*\<^sup>* (ln_start rs) \<lparr>ln_counter = (if length rs = 0 then 0 else 1), ln_threads = map (\<lambda>r. (r, N_Named 0)) rs\<rparr>"
    by (rule rtranclp_trans) (use ln_stores [of "length rs" rs] in simp)
  then have s: "\<exists>s. ln_step\<^sup>*\<^sup>* (ln_start rs) s \<and> ln_threads s = map (\<lambda>r. (r, N_Named 0)) rs" by fastforce
  have n: "localPath_mt r 0 = Inr (local_name (CHR ''-'') r 0)"
    using assms(1,6) by (intro localPath_mt_name) (auto simp: list_all_iff)
  define lp where "lp = local_name (CHR ''-'') r 0"
  have "lp \<noteq> []" by (simp add: lp_def local_name_def)
  then have "openFile mk fop lp (fs(lp \<mapsto> body)) = Inr ((fs(lp \<mapsto> body))(lp \<mapsto> []))"
    using openFile_ok [OF assms(2)] assms(3) by simp
  then have "\<exists>fs' g. set_request_main_code perform mk fop server port r 0 (fs(lp \<mapsto> body)) = Some (Inr (fs', rc, g)) \<and>
      fs' lp = None"
    using failed_download_removes [OF n [folded lp_def], where perform = perform and rc = rc, OF _ assms(4,5)] by blast
  then have "\<exists>lp fs' g. localPath_mt r 0 = Inr lp \<and>
      set_request_main_code perform mk fop server port r 0 (fs(lp \<mapsto> body)) = Some (Inr (fs', rc, g)) \<and> fs' lp = None"
    using n lp_def by blast
  then show ?thesis using localPath_mt_same s by blast
qed

theorem local_names_race_witness:
  "\<exists>s. ln_step\<^sup>*\<^sup>* (ln_start [''/a'', ''/a'']) s \<and> ln_threads s = [(''/a'', N_Named 0), (''/a'', N_Named 0)]"
  using local_names_race [of "[''/a'', ''/a'']" "\<lambda>_. 0" "\<lambda>_. True" "\<lambda>g. Some (Inr (-1, g))" "-1" "''/a''"] by auto

end
