(* ===== verification/Spec2Isabelle.thy ===== *)
theory Spec2Isabelle
  imports CachePrograms MTProgram DfsConc DfsNodes Inet LocalNames
begin

text \<open>
  \<^bold>\<open>The program.\<close>  The repository holds the projects of a course on operating systems, C programs and one in C++.
  pr1/echo and pr1/transfer are small socket programs.  pr1/gflib is a client and a server library of the
  protocol GETFILE with a program for each; pr1/mtgf uses the libraries (as object files) in a client and a server with a pool of
  threads.  pr3/server is a proxy whose workers answer from files or through libcurl; pr3/cache is a proxy that asks
  a cache process over a message queue and gets the file through shared memory.  pr4 is a distributed file
  system over gRPC: a server, the client's methods, and in part2 a client that follows a directory with inotify.

  \<^bold>\<open>The theories.\<close>  Each models the source files named, in the order in which they build on each other.

  \<^item> \<open>CPrelude\<close>: results with faults (exit, abort, undefined behaviour), C integers.  \<open>CStr\<close>: C strings, decimals, strcmp, strtok,
    strsep, fgets, sscanf, atoi.  \<open>Net\<close>: a socket as what it will deliver, what was sent, and a plan of partial
    sends.  \<open>Files\<close>: a file that is read in pieces.  \<open>Options\<close>: the getopt_long loop of every main.
  \<^item> \<open>Getopt\<close> (the C library): \<open>getopt_long\<close> on the words of a command line.  \<open>CommandLines\<close>: with the tables and the usage texts of the
    twelve programs; documented options work in every spelling, and those that do not.
  \<^item> \<open>Steque\<close> (steque.c): the queue over an explicit heap; \<open>steque_wf\<close> is its invariant, \<open>steque_abs\<close> the list it stands for; refinement
    of every operation, and that no sequence of operations uses freed memory.
  \<^item> \<open>Content\<close> (content.c twice, simplecache.c): the table of descriptors with its binary search, against the linear search.
    \<open>Workload\<close> (workload.c): round robin and the wrap of its counter.
  \<^item> \<open>GFServer\<close> (gflib/gfserver.c), \<open>GFIO\<close> (its output functions as an interface for handlers), \<open>GFClient\<close>
    (gflib/gfclient.c, with fuel for the receive loop), \<open>GFDownload\<close> (both gfclient_download.c: one request and the loop), \<open>Downloads\<close> (the whole program of pr1/gflib).
    This theory runs the two libraries against each other.
  \<^item> \<open>MTClient\<close>, \<open>MTServer\<close> (pr1/mtgf): boss and workers as step relations over the queue and the condition
    variables; each request once, no deadlock, what one worker sends.  \<open>MTPool\<close>: the pool of the server with its condition variable, which
    refines that of \<open>MTServer\<close>; no signal is lost.  \<open>MTProgram\<close>: the main function of the server starts such a pool over its list of files.  \<open>LocalNames\<close>: the counter that the threads of the client share in \<open>localPath\<close>.
  \<^item> \<open>Proxy\<close> (handle_with_file.c, handle_with_curl.c).  \<open>ShmCache\<close> (handle_with_cache.c, simplecached.c): one transfer
    as a step relation of two processes with three semaphores.  \<open>SegmentPool\<close> (handle_with_cache.c): all workers of the proxy on
    the pool of segments.  \<open>CacheSystem\<close>: both together, all workers of the proxy and of the cache with the message queue, serving request
    after request; \<open>CacheInv\<close> is its invariant, built of those of the pool and of one transfer, and \<open>CacheProps\<close> what follows: the
    answers are the files, no deadlock, every run ends, the system refines the pool, and what happens without the cache or with paths that
    do not fit the message (they are answered as missing).  \<open>CachePrograms\<close>: the main functions of both programs start such a system, which serves the files of the list.
  \<^item> \<open>Echo\<close>, \<open>FileTransfer\<close> (pr1/echo, pr1/transfer): both programs of each.  \<open>Inet\<close>: \<open>inet_pton\<close>, and where the echo client connects to.  \<open>Mains\<close>: the other main functions and signal handlers.
  \<^item> \<open>DfsServer\<close> (dfslib-servernode-p1.cpp), \<open>DfsClient\<close> (dfs-clientnode-p1.cpp), \<open>DfsService\<close> (the contract between them),
    \<open>DfsProps\<close> (sessions, long files, interrupted calls), \<open>DfsConc\<close> (calls that run at the same time on the server),
    \<open>DfsMount\<close> (part2: dfs-client-p2.cpp, dfslibx-clientnode-p2.cpp), \<open>DfsNodes\<close> (how servers and asynchronous calls
    are started: DFSServerNode, dfslibx-service-runner.h, CallbackList of dfslibx-clientnode-p2.h).

  \<^bold>\<open>Interfaces.\<close>  \<open>fifo\<close> is what the programs rely on of a queue, interpreted by the steque as \<open>sq\<close>; \<open>request_queue\<close> extends it
  by what boss and workers of pr1/mtgf do with it, interpreted as \<open>rq\<close>.  \<open>gf_io\<close> is what a handler relies on of the
  functions that send the header and the body; the proxy and the shared memory transfer are proved in it, and the library
  of pr1/gflib interprets it as \<open>gflib\<close>.  \<open>file_service\<close> is what a client of the file system relies on; the server of
  \<open>DfsServer\<close> interprets it as \<open>dfs\<close>.

  \<^bold>\<open>Bounds and fuel.\<close>  Loops that may run for ever take fuel or are step relations, and \<open>None\<close> is a loop that is still running.  The
  theorems give fuel that is enough: for \<open>Store\<close> and \<open>fetchFile\<close> two turns more than the deadline allows messages (for a fetch among other calls as
  many as the run has steps), for the watcher one turn more than a read has events; or they show that no fuel is enough.  For step relations a weight that every
  step lowers bounds the length of the runs (\<open>shm_measure\<close>, \<open>sys_weight\<close>, \<open>thr_weight\<close>); wake-ups without a broadcast are counted in none.  A deadline of gRPC is a
  number of messages.  What \<open>gflib_healthy\<close> asks of a connection: no send fails, and each takes at least 64 bytes of what it is given
  (or all of it), so that a header, which the code sends with a single call, goes out in one.  The cache's buffer on the stack of a thread is
  taken to fit up to \<open>STACK_ROOM\<close> bytes (4 MiB); a larger one may be a fault.  Integers that wrap are words, \<open>int\<close> that is converted is written out (\<open>off_to_int\<close>), and a signed overflow is a fault.

  \<^bold>\<open>Parameters.\<close>  The kernel's answers (bind, stat, read, open, the pieces a read or a send handles), malloc, qsort, gethostbyname, libcurl and gRPC are
  arguments; hypotheses say what their documentation promises.

  \<^bold>\<open>Not modelled.\<close>  The object files gfserver.o, gfclient.o and handler.o, the headers dfs-utils.h,
  dfslib-shared-p2.h, dfslibx-call-data.h, the base class of part 1 and DFSClientNodeP2 are not in the repository: what uses
  them takes them as arguments or returns the calls it makes.  Output to the terminal, the text of status messages and the simulated
  delays have no effect on the state.  Failures of shm_open, mmap and ftruncate are only printed by the code, which then
  uses the failed value; they are taken to succeed, and mq_open to fail only when the cache was not started.  The CRC table is a constant of
  a library that nothing reads; call data of the asynchronous server is a tag.  \<open>malloc\<close> and \<open>realloc\<close> of the table of files
  (\<open>content_load\<close>) succeed, so its counters do not overflow, and counters that stay below the length of a file are natural numbers
  (\<open>hwf_loop\<close>).  The string behind the pointer in the queue of pr1/mtgf does not change (\<open>gfs_handler\<close>), and the close after a failed
  fstat there has no effect that is seen (\<open>mts_serve\<close>).  On the hosts of pr4 a directory does not know its entries, the clock stands
  still during a call, two paths are two files, and what a stream sees of writes after it was opened is left out.
\<close>


section \<open>The server and the client library of pr1/gflib against each other\<close>

lemma scan_ok_space: "sscanf (''GETFILE OK '' @ dec (unat n) @ [SP]) fmt_len = Inr (2, [CStr ''OK'', CNum n])"
proof -
  have u: "unat n < 2 ^ 64" using unsigned_less [of n] by simp
  have o1: "\<not> isspace (CHR ''O'')" "\<not> isspace (CHR ''K'')" by (simp_all add: isspace_def)
  have t: "takeWhile isdigit [SP] = []" by (simp add: isdigit_def digits_def)
  have "sscanf (''GETFILE'' @ ('' OK '' @ dec (unat n) @ [SP])) fmt_len =
      sscanf_go [Ws, Str 16, Ws, Zu, Ws] ('' OK '' @ dec (unat n) @ [SP]) []"
    unfolding fmt_len_def by (rule sscanf_lits)
  also have "\<dots> = Inr (2, [CStr ''OK'', CNum n])"
    using u o1 t by (simp add: Let_def strtoul_sat_small)
  finally show ?thesis by simp
qed

lemma parse_hdr_ok:
  assumes "length (hdr_ok n @ b) \<le> 512"
  shows "parse_response (fill_buf 512 (hdr_ok n @ b)) = Inr (Content n)"
proof -
  let ?h = "''GETFILE OK '' @ dec (unat n) @ [SP]"
  have e: "hdr_ok n @ b = ?h @ CRLF2 @ b" by (simp add: hdr_ok_def)
  have pl: "NUL \<notin> set ?h" "CR \<notin> set ?h" "LF \<notin> set ?h" "?h = ''GETFILE'' @ '' OK '' @ dec (unat n) @ [SP]"
    using dec_plain by auto
  show ?thesis
    unfolding e using parse_token [OF pl(1-3) assms [unfolded e] pl(4) scan_ok_space, of "[CStr ''OK'', CNum n]"]
    by (simp add: header_of_def del: append.simps append_assoc)
qed

lemma drop_hdr_ok: "drop (length (resp_header n)) (hdr_ok n @ b) = LF # b"
  by (simp add: hdr_ok_def resp_header_def)

lemma gfc_step_hdr_ok:
  assumes "rx s = RxData (hdr_ok len @ b) # es" "length (hdr_ok len @ b) \<le> 512"
    and "write_func g = Some wfn" "bytes_received g = 0"
  shows "gfc_step (False, None, g, s) =
    Inr (len = of_nat (length b + 1), True, Some len, after_header wfn len (LF # b) g, s\<lparr>rx := es\<rparr>)"
proof -
  let ?d = "hdr_ok len @ b"
  have ne: "?d \<noteq> []" by (simp add: hdr_ok_def)
  then have "recv 512 s = (int (length ?d), ?d, s\<lparr>rx := es\<rparr>)" by (rule recv_first [OF assms(1) _ assms(2)])
  moreover have "int (length ?d) \<noteq> 0" using ne by (simp only: of_nat_eq_0_iff length_0_conv not_False_eq_True)
  moreover have l: "length ?d = length (resp_header len) + (length b + 1)"
    by (simp add: hdr_ok_def resp_header_def)
  moreover have "size_of_int (int (length ?d)) - of_nat (length (resp_header len)) = of_nat (length b + 1)"
    unfolding l by (simp add: size_of_int_def)
  moreover have "\<not> length ?d < length (resp_header len)" using l by simp
  ultimately show ?thesis
    using assms(3,4) parse_hdr_ok [OF assms(2)] drop_hdr_ok [of len b]
    by (simp add: gfc_step_def gfc_first_def gfc_end_def write_out_def after_header_def Let_def del: length_append drop_append)
qed

text \<open>What a handler that sends an OK header and the body leaves on a fresh connection.\<close>

definition gflib_reply :: "char list \<Rightarrow> conn \<Rightarrow> conn" where
  "gflib_reply body c = snd (gflib_put body (snd (gflib_puthdr S_GF_OK (of_nat (length body)) c)))"

lemma gflib_reply_sent:
  assumes "gflib_healthy c"
  shows "gflib_sent (gflib_reply body c) = gflib_sent c @ hdr_ok (of_nat (length body)) @ body"
proof -
  let ?n = "of_nat (length body) :: size_t"
  obtain c1 where c1: "gflib_puthdr S_GF_OK ?n c = (int (length (gflib_hdr S_GF_OK ?n)), c1)"
    "gflib_sent c1 = gflib_sent c @ gflib_hdr S_GF_OK ?n" "gflib_healthy c1"
    using gflib.puthdr_ok [OF assms] by blast
  obtain c2 where "gflib_put body c1 = (int (length body), c2)" "gflib_sent c2 = gflib_sent c1 @ body"
    using gflib.put_ok [OF c1(3)] by blast
  then show ?thesis using c1 by (simp add: gflib_reply_def gflib_hdr_def gf_codes)
qed

text \<open>C14. The two libraries of pr1/gflib do not work together.  The server's OK header has a blank between the
  length and the end mark that the client does not count, so the client takes the last character of
  the header for the first of the content, counts one byte too many and, the count being past the
  length, waits for ever: for every body of at most 400 bytes, sent on a connection where no send fails and each takes
  at least 64 bytes of what it is given, and a client with a write callback that has sent its request in one piece and gets the reply in one
  packet, \<open>gfc_perform\<close> never returns.\<close>

theorem gflib_server_hangs_gflib_client:
  assumes "gflib_healthy c" "tx (snd c) = []"
    and "gfc_ready sk addrs g s" "write_func g = Some wfn"
    and "rx s = [RxData (tx (snd (gflib_reply body c)))]" "length body \<le> 400"
  shows "gfc_perform n sk 0 addrs g s = None"
proof (cases n)
  case 0
  then show ?thesis using gfc_perform_ready [OF assms(3), of n] by simp
next
  case (Suc m)
  define len where "len = (of_nat (length body) :: size_t)"
  define g0 where "g0 = g\<lparr>socket_fd := sk\<rparr>"
  define s0 where "s0 = s\<lparr>tx := tx s @ request_text (the (rq_path g))\<rparr>"
  have g0: "write_func g0 = Some wfn" "bytes_received g0 = 0"
    using assms(3,4) by (simp_all add: g0_def gfc_ready_def)
  have rx0: "rx s0 = [RxData (hdr_ok len @ body)]"
    using assms(2,5) gflib_reply_sent [OF assms(1), of body] by (simp add: s0_def gflib_sent_def len_def)
  have l: "length (hdr_ok len @ body) \<le> 512" using length_hdr_ok [of len] assms(6) by simp
  have "unat (of_nat (length body) :: size_t) = length body" "unat (of_nat (length body + 1) :: size_t) = length body + 1"
    using assms(6) by (simp_all add: unat_of_nat take_bit_nat_eq_self_iff del: of_nat_add of_nat_Suc)
  then have lt: "len < of_nat (length body + 1)"
    unfolding len_def word_less_nat_alt by linarith
  have "gfc_loop m (True, Some len, after_header wfn len (LF # body) g0, s0\<lparr>rx := []\<rparr>) = None"
    using lt g0 by (intro gfc_loop_overrun [where wfn = wfn]) (simp_all add: after_header_def write_out_def)
  then show ?thesis
    using gfc_step_hdr_ok [OF rx0 l g0] lt Suc gfc_perform_ready [OF assms(3), of n]
    by (simp add: g0_def s0_def del: of_nat_add)
qed

definition example_reply :: sock where
  "example_reply = snd (gflib_reply ''hello'' (\<lparr>client_socket_fd = 4, ctx_file_len = 0\<rparr>, \<lparr>rx = [], tx = [], txplan = []\<rparr>))"

theorem gflib_server_hangs_gflib_client_witness:
  "gfc_perform 99 5 0 [(True, 0)] example_request (example_stream [RxData (tx example_reply)]) = None"
  unfolding example_reply_def
  by (rule gflib_server_hangs_gflib_client
      [where c = "(\<lparr>client_socket_fd = 4, ctx_file_len = 0\<rparr>, \<lparr>rx = [], tx = [], txplan = []\<rparr>)" and body = "''hello''"])
    (simp_all add: gflib_healthy_def example_request_defs)

end
